(* ===== verification/Prelude.thy ===== *)
theory Prelude
  imports Complex_Main "HOL-Library.Word" "HOL-Library.Log_Nat" "HOL-Library.Signed_Division"
begin

unbundle bit_operations_syntax

text \<open>
  What every component of the library shares: the names of the machine types of the C++
  sources, the collections of rewrite rules the proofs of the components are built on, and
  lemmas on lists, words and options that are not about any one component.

  A C++ \<open>uint8_t\<close>, \<open>uint16_t\<close>, \<open>uint32_t\<close> or \<open>uint64_t\<close> is a word of that width. A signed
  \<open>int32_t\<close> or \<open>int64_t\<close> is the same word read with \<open>sint\<close> where its sign matters; \<open>int\<close> is
  32 bits on every host the program is built for.
\<close>

type_synonym u8 = "8 word"
type_synonym u16 = "16 word"
type_synonym u32 = "32 word"
type_synonym u64 = "64 word"

named_theorems machine_simps \<open>unfolding rules of the virtual machine\<close>
named_theorems mixer_simps \<open>unfolding rules of the sound mixer\<close>
named_theorems net_simps \<open>unfolding rules of the socket table\<close>
named_theorems draw_simps \<open>unfolding rules of the pixel drivers\<close>

section \<open>Words read as signed integers\<close>

lemma sint_bounds64: "- (2 ^ 63) \<le> sint (w :: 64 word)" "sint (w :: 64 word) < 2 ^ 63"
  using sint_range_size [of w] by (simp_all add: word_size)

lemma sint_of_int64:
  "- (2 ^ 63) \<le> i \<Longrightarrow> i < 2 ^ 63 \<Longrightarrow> sint (word_of_int i :: 64 word) = i"
  by (simp add: int_word_sint)

lemma uint_bounds64: "0 \<le> uint (w :: 64 word)" "uint (w :: 64 word) < 2 ^ 64"
  using uint_bounded [of w] by simp_all

text \<open>
  The quotient of a truncated division is no bigger than the dividend, and the remainder is
  smaller than the divisor and has the sign of the dividend.
\<close>

lemma sdiv_abs: "\<bar>a sdiv b\<bar> = \<bar>a\<bar> div \<bar>b :: int\<bar>"
proof -
  have nn: "0 \<le> \<bar>a\<bar> div \<bar>b\<bar>"
    by (cases "b = 0") (simp_all add: pos_imp_zdiv_nonneg_iff)
  have "\<bar>sgn a * sgn b\<bar> * (\<bar>a\<bar> div \<bar>b\<bar>) = \<bar>a\<bar> div \<bar>b\<bar>"
    by (auto simp: abs_mult sgn_if)
  then show ?thesis
    using nn by (simp add: signed_divide_int_def abs_mult)
qed

lemma smod_abs_less: "b \<noteq> 0 \<Longrightarrow> \<bar>a smod b\<bar> < \<bar>b :: int\<bar>"
  by (simp add: signed_modulo_int_def abs_mult sgn_if)

lemma smod_sgn: "a smod b = 0 \<or> sgn (a smod b) = sgn (a :: int)"
proof (cases "b = 0")
  case False
  then have "sgn (\<bar>a\<bar> mod \<bar>b\<bar>) = 0 \<or> sgn (\<bar>a\<bar> mod \<bar>b\<bar>) = 1"
    by (simp add: sgn_if order.antisym [OF _ pos_mod_sign])
  then show ?thesis
    by (auto simp: signed_modulo_int_def sgn_mult sgn_0_0)
qed simp

lemma word_less_plus_1: "x \<noteq> (- 1 :: 'a :: len word) \<Longrightarrow> x < x + 1"
proof -
  assume x: "x \<noteq> - 1"
  then have "1 + x \<noteq> 0" by (metis add.commute add_eq_0_iff)
  then have "unat (1 + x) = Suc (unat x)" by (rule unatSuc)
  then show ?thesis by (simp add: word_less_nat_alt add.commute)
qed

lemma int_div_mult_le: "0 < b \<Longrightarrow> a div b * b \<le> (a :: int)"
  by (simp add: minus_mod_eq_div_mult [symmetric])

section \<open>Lists\<close>

lemma ex_set_conv_ex_nth: "(\<exists>x \<in> set xs. P x) \<longleftrightarrow> (\<exists>i < length xs. P (xs ! i))"
  by (metis in_set_conv_nth)

lemma nth_list_update_if:
  "i < length xs \<Longrightarrow> xs[i := v] ! j = (if i = j then v else xs ! j)"
  by (simp add: nth_list_update)

end
