(* ===== verification/Vp64_Opcodes.thy ===== *)
theory Vp64_Opcodes
  imports Prelude
begin

text \<open>
  The instruction set of the VP64 virtual machine: the enumeration \<open>Opcodes\<close> of
  src/host/vp64.cpp, whose order is the number of each opcode, and the order in which the
  assembler lib/trans/vp64.inc hands the numbers out with \<open>next-opcode\<close>.
  An enumerator such as \<open>vp64_add_cr_2\<close> is the constructor \<open>OpCr AAdd 2\<close>.
\<close>

datatype alu = ACpy | AAdd | ASub | ACmp | AMul | AAnd | AOr | AXor
datatype shift = Shl | Shr | Asr
datatype minmax = MMin | MMax
datatype cond = CEq | CNe | CGe | CLt | CLe | CGt
datatype mty = I64 | I8 | I16 | I32 | U8 | U16 | U32
datatype falu = FAdd | FSub | FMul | FDiv | FMin | FMax | FSqrt | FAbs | FNeg | FCpy

datatype (plugins only: code size) opcode =
    OpCr alu nat | OpRr alu
  | OpShCr shift | OpShRr shift | OpLnot | OpLand | OpSwp | OpExt
  | OpDiv | OpDivU
  | OpMmCr minmax nat | OpMmRr minmax | OpAbs
  | OpSetCr cond nat | OpSetRr cond
  | OpIr mty | OpLeaI | OpRi mty | OpRd mty | OpDr mty | OpLeaD
  | OpIf | OpFi | OpDf | OpFd | OpCmpF
  | OpB cond nat | OpFb cond nat
  | OpCall nat | OpJmp nat | OpCallP nat | OpJmpP nat
  | OpCallR | OpJmpR | OpCallI | OpJmpI
  | OpCpyPr | OpLeaP | OpCallAbi | OpRet | OpSync | OpBrk
  | OpFf falu | OpCvtRf | OpCvtFr | OpCpyRf | OpCpyFr

text \<open>The enumeration, in its order.\<close>

definition opcode_table :: "opcode list" where
  "opcode_table =
    [OpCr ACpy 0, OpCr ACpy 1, OpCr ACpy 2, OpCr ACpy 3,
     OpCr AAdd 0, OpCr AAdd 1, OpCr AAdd 2, OpCr AAdd 3,
     OpCr ASub 0, OpCr ASub 1, OpCr ASub 2, OpCr ASub 3,
     OpCr ACmp 0, OpCr ACmp 1, OpCr ACmp 2, OpCr ACmp 3,
     OpCr AMul 0, OpCr AMul 1, OpCr AMul 2, OpCr AMul 3,
     OpCr AAnd 0, OpCr AAnd 1, OpCr AAnd 2, OpCr AAnd 3,
     OpCr AOr 0, OpCr AOr 1, OpCr AOr 2, OpCr AOr 3,
     OpCr AXor 0, OpCr AXor 1, OpCr AXor 2, OpCr AXor 3,
     OpRr ACpy, OpRr AAdd, OpRr ASub, OpRr ACmp,
     OpRr AMul, OpRr AAnd, OpRr AOr, OpRr AXor,
     OpShCr Shl, OpShCr Shr, OpShCr Asr,
     OpShRr Shl, OpShRr Shr, OpShRr Asr,
     OpLnot, OpLand, OpSwp, OpExt,
     OpDiv, OpDivU,
     OpMmCr MMin 0, OpMmCr MMin 1, OpMmCr MMin 2, OpMmCr MMin 3,
     OpMmCr MMax 0, OpMmCr MMax 1, OpMmCr MMax 2, OpMmCr MMax 3,
     OpMmRr MMin, OpMmRr MMax, OpAbs,
     OpSetCr CEq 0, OpSetCr CEq 1, OpSetCr CEq 2,
     OpSetCr CNe 0, OpSetCr CNe 1, OpSetCr CNe 2,
     OpSetCr CLt 0, OpSetCr CLt 1, OpSetCr CLt 2,
     OpSetCr CLe 0, OpSetCr CLe 1, OpSetCr CLe 2,
     OpSetCr CGt 0, OpSetCr CGt 1, OpSetCr CGt 2,
     OpSetCr CGe 0, OpSetCr CGe 1, OpSetCr CGe 2,
     OpSetRr CEq, OpSetRr CNe, OpSetRr CLt,
     OpSetRr CLe, OpSetRr CGt, OpSetRr CGe,
     OpIr I64, OpIr I8, OpIr I16, OpIr I32,
     OpIr U8, OpIr U16, OpIr U32, OpLeaI,
     OpRi I64, OpRi I8, OpRi I16, OpRi I32,
     OpRd I64, OpRd I8, OpRd I16, OpRd I32,
     OpDr I64, OpDr I8, OpDr I16, OpDr I32,
     OpDr U8, OpDr U16, OpDr U32, OpLeaD,
     OpIf, OpFi, OpDf, OpFd, OpCmpF,
     OpB CEq 0, OpB CEq 1, OpB CNe 0, OpB CNe 1,
     OpB CGe 0, OpB CGe 1, OpB CLt 0, OpB CLt 1,
     OpB CLe 0, OpB CLe 1, OpB CGt 0, OpB CGt 1,
     OpFb CEq 0, OpFb CEq 1, OpFb CNe 0, OpFb CNe 1,
     OpFb CGe 0, OpFb CGe 1, OpFb CLt 0, OpFb CLt 1,
     OpFb CLe 0, OpFb CLe 1, OpFb CGt 0, OpFb CGt 1,
     OpCall 0, OpCall 1, OpJmp 0, OpJmp 1,
     OpCallP 0, OpCallP 1, OpJmpP 0, OpJmpP 1,
     OpCallR, OpJmpR,
     OpCallI, OpJmpI,
     OpCpyPr, OpLeaP, OpCallAbi, OpRet, OpSync, OpBrk,
     OpFf FAdd, OpFf FSub, OpFf FMul, OpFf FDiv, OpFf FMin,
     OpFf FMax, OpFf FSqrt, OpFf FAbs, OpFf FNeg, OpFf FCpy,
     OpCvtRf, OpCvtFr, OpCpyRf, OpCpyFr]"

definition opcode_of :: "nat \<Rightarrow> opcode option" where
  "opcode_of n = (if n < length opcode_table then Some (opcode_table ! n) else None)"

text \<open>
  The assembler. Each \<open>emit\<close> function of lib/trans/vp64.inc takes the next opcode numbers with
  \<open>next-opcode\<close>, one or a run of them for the sizes of a constant, in the order the functions
  stand in the file. A form takes a run of numbers and each one of the run is one opcode.
\<close>

definition emitter_forms :: "((nat \<Rightarrow> opcode) \<times> nat) list" where
  "emitter_forms =
    [(OpCr ACpy, 4), (OpCr AAdd, 4), (OpCr ASub, 4), (OpCr ACmp, 4),
     (OpCr AMul, 4), (OpCr AAnd, 4), (OpCr AOr, 4), (OpCr AXor, 4),
     (\<lambda>_. OpRr ACpy, 1), (\<lambda>_. OpRr AAdd, 1), (\<lambda>_. OpRr ASub, 1), (\<lambda>_. OpRr ACmp, 1),
     (\<lambda>_. OpRr AMul, 1), (\<lambda>_. OpRr AAnd, 1), (\<lambda>_. OpRr AOr, 1), (\<lambda>_. OpRr AXor, 1),
     (\<lambda>_. OpShCr Shl, 1), (\<lambda>_. OpShCr Shr, 1), (\<lambda>_. OpShCr Asr, 1),
     (\<lambda>_. OpShRr Shl, 1), (\<lambda>_. OpShRr Shr, 1), (\<lambda>_. OpShRr Asr, 1),
     (\<lambda>_. OpLnot, 1), (\<lambda>_. OpLand, 1), (\<lambda>_. OpSwp, 1), (\<lambda>_. OpExt, 1),
     (\<lambda>_. OpDiv, 1), (\<lambda>_. OpDivU, 1),
     (OpMmCr MMin, 4), (OpMmCr MMax, 4),
     (\<lambda>_. OpMmRr MMin, 1), (\<lambda>_. OpMmRr MMax, 1), (\<lambda>_. OpAbs, 1),
     (OpSetCr CEq, 3), (OpSetCr CNe, 3), (OpSetCr CLt, 3),
     (OpSetCr CLe, 3), (OpSetCr CGt, 3), (OpSetCr CGe, 3),
     (\<lambda>_. OpSetRr CEq, 1), (\<lambda>_. OpSetRr CNe, 1), (\<lambda>_. OpSetRr CLt, 1),
     (\<lambda>_. OpSetRr CLe, 1), (\<lambda>_. OpSetRr CGt, 1), (\<lambda>_. OpSetRr CGe, 1),
     (\<lambda>_. OpIr I64, 1), (\<lambda>_. OpIr I8, 1), (\<lambda>_. OpIr I16, 1), (\<lambda>_. OpIr I32, 1),
     (\<lambda>_. OpIr U8, 1), (\<lambda>_. OpIr U16, 1), (\<lambda>_. OpIr U32, 1), (\<lambda>_. OpLeaI, 1),
     (\<lambda>_. OpRi I64, 1), (\<lambda>_. OpRi I8, 1), (\<lambda>_. OpRi I16, 1), (\<lambda>_. OpRi I32, 1),
     (\<lambda>_. OpRd I64, 1), (\<lambda>_. OpRd I8, 1), (\<lambda>_. OpRd I16, 1), (\<lambda>_. OpRd I32, 1),
     (\<lambda>_. OpDr I64, 1), (\<lambda>_. OpDr I8, 1), (\<lambda>_. OpDr I16, 1), (\<lambda>_. OpDr I32, 1),
     (\<lambda>_. OpDr U8, 1), (\<lambda>_. OpDr U16, 1), (\<lambda>_. OpDr U32, 1), (\<lambda>_. OpLeaD, 1),
     (\<lambda>_. OpIf, 1), (\<lambda>_. OpFi, 1), (\<lambda>_. OpDf, 1), (\<lambda>_. OpFd, 1), (\<lambda>_. OpCmpF, 1),
     (OpB CEq, 2), (OpB CNe, 2), (OpB CGe, 2), (OpB CLt, 2), (OpB CLe, 2), (OpB CGt, 2),
     (OpFb CEq, 2), (OpFb CNe, 2), (OpFb CGe, 2), (OpFb CLt, 2), (OpFb CLe, 2), (OpFb CGt, 2),
     (OpCall, 2), (OpJmp, 2), (OpCallP, 2), (OpJmpP, 2),
     (\<lambda>_. OpCallR, 1), (\<lambda>_. OpJmpR, 1), (\<lambda>_. OpCallI, 1), (\<lambda>_. OpJmpI, 1),
     (\<lambda>_. OpCpyPr, 1), (\<lambda>_. OpLeaP, 1), (\<lambda>_. OpCallAbi, 1),
     (\<lambda>_. OpRet, 1), (\<lambda>_. OpSync, 1), (\<lambda>_. OpBrk, 1),
     (\<lambda>_. OpFf FAdd, 1), (\<lambda>_. OpFf FSub, 1), (\<lambda>_. OpFf FMul, 1), (\<lambda>_. OpFf FDiv, 1),
     (\<lambda>_. OpFf FMin, 1), (\<lambda>_. OpFf FMax, 1), (\<lambda>_. OpFf FSqrt, 1), (\<lambda>_. OpFf FAbs, 1),
     (\<lambda>_. OpFf FNeg, 1), (\<lambda>_. OpFf FCpy, 1),
     (\<lambda>_. OpCvtRf, 1), (\<lambda>_. OpCvtFr, 1), (\<lambda>_. OpCpyRf, 1), (\<lambda>_. OpCpyFr, 1)]"

text \<open>The counter \<open>opcode\<close> and the macro \<open>next-opcode\<close>: each form with the first number it is given.\<close>

fun next_opcodes :: "nat \<Rightarrow> ((nat \<Rightarrow> opcode) \<times> nat) list \<Rightarrow> (nat \<times> opcode) list" where
  "next_opcodes c [] = []"
| "next_opcodes c ((f, k) # fs) = map (\<lambda>i. (c + i, f i)) [0..<k] @ next_opcodes (c + k) fs"

lemma next_opcodes_enumerate:
  "next_opcodes c fs = enumerate c (concat (map (\<lambda>(f, k). map f [0..<k]) fs))"
proof (induction c fs rule: next_opcodes.induct)
  case (2 c f k fs)
  have "map (\<lambda>i. (c + i, f i)) [0..<k] = enumerate c (map f [0..<k])"
    by (simp add: list_eq_iff_nth_eq nth_enumerate_eq)
  then show ?case
    using 2 by (simp add: enumerate_append_eq)
qed simp

lemma length_opcode_table: "length opcode_table = 172"
  by code_simp

lemma emitter_table: "concat (map (\<lambda>(f, k). map f [0..<k]) emitter_forms) = opcode_table"
  by code_simp

text \<open>C26: the assembler and the emulator agree on every opcode number.\<close>

theorem emitter_numbers_agree: "next_opcodes 0 emitter_forms = enumerate 0 opcode_table"
  by (simp add: next_opcodes_enumerate emitter_table)

lemma distinct_opcode_table: "distinct opcode_table"
  by code_simp

lemma opcode_of_less: "opcode_of n = Some op \<Longrightarrow> n < 172"
  by (auto simp: opcode_of_def length_opcode_table split: if_splits)

lemma opcode_of_inj: "opcode_of m = Some op \<Longrightarrow> opcode_of n = Some op \<Longrightarrow> m = n"
  by (auto simp: opcode_of_def nth_eq_iff_index_eq [OF distinct_opcode_table] split: if_splits)

end
