(* ===== verification/Vp64_Memory.thy ===== *)
theory Vp64_Memory
  imports Vp64_Opcodes
begin

text \<open>
  The memory the emulator of src/host/vp64.cpp reads and writes through pointers: bytes at 64 bit
  addresses, the least significant first, as all the hosts of the program keep them. An address
  that is not mapped is \<open>None\<close>, and an access that touches one is a fault. The interface the
  machine relies on, what a load gives after a store, is the locale \<open>byte_store\<close>.
\<close>

type_synonym vmem = "u64 \<Rightarrow> u8 option"

fun load_le :: "vmem \<Rightarrow> u64 \<Rightarrow> nat \<Rightarrow> nat option" where
  "load_le m a 0 = Some 0"
| "load_le m a (Suc n) =
     (case m a of None \<Rightarrow> None
      | Some b \<Rightarrow> (case load_le m (a + 1) n of None \<Rightarrow> None
                  | Some v \<Rightarrow> Some (unat b + 256 * v)))"

fun store_le :: "vmem \<Rightarrow> u64 \<Rightarrow> nat \<Rightarrow> nat \<Rightarrow> vmem option" where
  "store_le m a 0 v = Some m"
| "store_le m a (Suc n) v =
     (case m a of None \<Rightarrow> None
      | Some _ \<Rightarrow> store_le (m(a \<mapsto> word_of_nat (v mod 256))) (a + 1) n (v div 256))"

section \<open>What a store changes and what a load sees\<close>

definition cells :: "u64 \<Rightarrow> nat \<Rightarrow> u64 set" where
  "cells a n = (\<lambda>i. a + word_of_nat i) ` {..<n}"

lemma cells_0 [simp]: "cells a 0 = {}"
  by (simp add: cells_def)

lemma cells_Suc [simp]: "cells a (Suc n) = insert a (cells (a + 1) n)"
  by (auto simp: cells_def lessThan_Suc_eq_insert_0 image_iff algebra_simps)

lemma cells_notin: "n < 2 ^ 64 \<Longrightarrow> a \<notin> cells (a + 1) n"
proof
  assume n: "n < 2 ^ 64" and "a \<in> cells (a + 1) n"
  then obtain i where i: "i < n" "a = a + 1 + word_of_nat i"
    by (auto simp: cells_def)
  then have "(word_of_nat (Suc i) :: u64) = 0"
    by (simp add: algebra_simps)
  moreover have "unat (word_of_nat (Suc i) :: u64) = Suc i"
    using i(1) n by (simp add: unat_of_nat del: of_nat_Suc)
  ultimately show False
    by (simp del: of_nat_Suc)
qed

lemma load_le_None: "(load_le m a n = None) = (\<not> cells a n \<subseteq> dom m)"
proof (induction n arbitrary: a)
  case (Suc n)
  show ?case
    using Suc.IH [of "a + 1"] by (cases "m a"; cases "load_le m (a + 1) n") auto
qed simp

lemma load_le_cong: "(\<And>b. b \<in> cells a n \<Longrightarrow> m b = m' b) \<Longrightarrow> load_le m a n = load_le m' a n"
proof (induction n arbitrary: a)
  case (Suc n)
  then have "m a = m' a" "load_le m (a + 1) n = load_le m' (a + 1) n" by auto
  then show ?case by (cases "m' a") simp_all
qed simp

lemma load_le_bound: "load_le m a n = Some v \<Longrightarrow> v < 256 ^ n"
proof (induction n arbitrary: a v)
  case (Suc n)
  then obtain b w where b: "v = unat b + 256 * w" "load_le m (a + 1) n = Some w" "m a = Some b"
    by (auto split: option.splits)
  have "w < 256 ^ n" using Suc.IH b(2) by simp
  moreover have "unat b < 256" using unsigned_less [where ?'a = nat, of b] by simp
  ultimately show ?case using b(1) by simp
qed simp

lemma store_le_None: "(store_le m a n v = None) = (\<not> cells a n \<subseteq> dom m)"
proof (induction n arbitrary: m a v)
  case (Suc n)
  have "dom (m(a \<mapsto> b)) = dom m" if "m a \<noteq> None" for b
    using that by auto
  then show ?case
    using Suc.IH by (cases "m a") (auto simp: domIff simp del: fun_upd_apply)
qed simp

lemma store_le_dom: "store_le m a n v = Some m' \<Longrightarrow> dom m' = dom m"
  by (induction n arbitrary: m a v) (auto split: option.splits)

lemma store_le_frame: "store_le m a n v = Some m' \<Longrightarrow> b \<notin> cells a n \<Longrightarrow> m' b = m b"
  by (induction n arbitrary: m a v) (auto split: option.splits)

lemma load_store_same:
  "store_le m a n v = Some m' \<Longrightarrow> n < 2 ^ 64 \<Longrightarrow> load_le m' a n = Some (v mod 256 ^ n)"
proof (induction n arbitrary: m a v)
  case (Suc n)
  let ?m = "m(a \<mapsto> word_of_nat (v mod 256))"
  have st: "store_le ?m (a + 1) n (v div 256) = Some m'"
    using Suc.prems(1) by (simp split: option.splits)
  have "m' a = ?m a"
    using store_le_frame [OF st] cells_notin [of n a] Suc.prems(2) by simp
  then have "m' a = Some (word_of_nat (v mod 256))" by simp
  moreover have "load_le m' (a + 1) n = Some (v div 256 mod 256 ^ n)"
    using Suc.IH [OF st] Suc.prems(2) by simp
  moreover have "v mod (256 * 256 ^ n) = 256 * (v div 256 mod 256 ^ n) + v mod 256"
    by (rule mod_mult2_eq)
  ultimately show ?case
    by (simp add: unat_of_nat)
qed simp

section \<open>The interface of the machine\<close>

text \<open>
  A memory of bytes, as the emulator uses one: what was stored is what is loaded, a store is not
  seen anywhere else, and where one can load one can store.
\<close>

locale byte_store =
  fixes ld :: "'m \<Rightarrow> u64 \<Rightarrow> nat \<Rightarrow> nat option"
    and st :: "'m \<Rightarrow> u64 \<Rightarrow> nat \<Rightarrow> nat \<Rightarrow> 'm option"
  assumes ld_st: "st m a n v = Some m' \<Longrightarrow> n \<le> 8 \<Longrightarrow> ld m' a n = Some (v mod 256 ^ n)"
    and ld_st_apart: "st m a n v = Some m' \<Longrightarrow> cells a n \<inter> cells b k = {} \<Longrightarrow> ld m' b k = ld m b k"
    and st_where_ld: "ld m a n = Some w \<Longrightarrow> \<exists>m'. st m a n v = Some m'"
    and ld_below: "ld m a n = Some w \<Longrightarrow> w < 256 ^ n"
begin

lemma store_word: "st m a 8 (unat (w :: u64)) = Some m' \<Longrightarrow> ld m' a 8 = Some (unat w)"
  using ld_st [of m a 8 "unat w" m'] unsigned_less [where ?'a = nat, of w] by simp

lemma still_loads:
  assumes "st m a n v = Some m'" "n \<le> 8" "ld m b k = Some w" "cells a n \<inter> cells b k = {}"
  shows "ld m' b k = Some w"
  using ld_st_apart [OF assms(1,4)] assms(3) by simp

lemma load_store_load:
  assumes "ld m a 8 = Some v"
  obtains m' where "st m a 8 (unat (w :: u64)) = Some m'" "ld m' a 8 = Some (unat w)"
  using st_where_ld [OF assms] store_word by blast

end

interpretation ram: byte_store load_le store_le
proof
  show "load_le m' a n = Some (v mod 256 ^ n)" if "store_le m a n v = Some m'" "n \<le> 8" for m a n v m'
    using load_store_same that by simp
  show "load_le m' b k = load_le m b k"
    if "store_le m a n v = Some m'" "cells a n \<inter> cells b k = {}" for m a n v m' b k
    using store_le_frame [OF that(1)] that(2) by (intro load_le_cong) auto
  show "\<exists>m'. store_le m a n v = Some m'" if "load_le m a n = Some w" for m a n v w
    using load_le_None [of m a n] store_le_None [of m a n v] that by auto
qed (rule load_le_bound)

section \<open>Typed access\<close>

fun mty_bytes :: "mty \<Rightarrow> nat" where
  "mty_bytes I8 = 1" | "mty_bytes U8 = 1"
| "mty_bytes I16 = 2" | "mty_bytes U16 = 2"
| "mty_bytes I32 = 4" | "mty_bytes U32 = 4"
| "mty_bytes I64 = 8"

text \<open>The cast \<open>(int64_t)*(t*)\<close> of a value just loaded: by the sign of a signed type.\<close>

fun mty_extend :: "mty \<Rightarrow> nat \<Rightarrow> u64" where
  "mty_extend I8 n = scast (word_of_nat n :: 8 word)"
| "mty_extend I16 n = scast (word_of_nat n :: 16 word)"
| "mty_extend I32 n = scast (word_of_nat n :: 32 word)"
| "mty_extend I64 n = word_of_nat n"
| "mty_extend U8 n = ucast (word_of_nat n :: 8 word)"
| "mty_extend U16 n = ucast (word_of_nat n :: 16 word)"
| "mty_extend U32 n = ucast (word_of_nat n :: 32 word)"

definition mread :: "mty \<Rightarrow> vmem \<Rightarrow> u64 \<Rightarrow> u64 option" where
  "mread t m a = map_option (mty_extend t) (load_le m a (mty_bytes t))"

definition mwrite :: "mty \<Rightarrow> vmem \<Rightarrow> u64 \<Rightarrow> u64 \<Rightarrow> vmem option" where
  "mwrite t m a v = store_le m a (mty_bytes t) (unat v mod 256 ^ mty_bytes t)"

lemma mty_bytes_le: "mty_bytes t \<le> 8" "0 < mty_bytes t"
  by (cases t; simp)+

lemma mread_mwrite:
  assumes "mwrite t m a v = Some m'"
  shows "mread t m' a = Some (mty_extend t (unat v mod 256 ^ mty_bytes t))"
  using ram.ld_st [OF assms [unfolded mwrite_def] mty_bytes_le(1)] by (simp add: mread_def)

lemma mwrite_frame: "mwrite t m a v = Some m' \<Longrightarrow> b \<notin> cells a (mty_bytes t) \<Longrightarrow> m' b = m b"
  by (auto simp: mwrite_def intro: store_le_frame)

lemma mwrite_dom: "mwrite t m a v = Some m' \<Longrightarrow> dom m' = dom m"
  by (simp add: mwrite_def store_le_dom)

lemma mread_mwrite_64: "mwrite I64 m a v = Some m' \<Longrightarrow> mread I64 m' a = Some v"
  using mread_mwrite [of I64 m a v m'] unsigned_less [where ?'a = nat, of v] by simp

end
