(* ===== verification/Ieee.thy ===== *)
theory Ieee
  imports Prelude
begin

text \<open>
  The \<open>float\<close> and \<open>double\<close> of C++, as the hosts of the program have them: IEEE 754 binary32
  and binary64, rounding to nearest, ties to even. This is the semantics of the language the
  sources are written in and not code of the repository. A number is its bits; every operation
  is exact on the integers and is rounded once, so all of it evaluates. What IEEE leaves to the
  processor, the bits of a NaN that an operation makes and the zero that \<open>fmin\<close> picks of two,
  is a parameter, the record \<open>fpu\<close>.
\<close>

section \<open>Formats, and the value of a pattern of bits\<close>

type_synonym fmt = "nat \<times> nat"  \<comment> \<open>bits of the exponent, bits of the fraction\<close>

definition binary32 :: fmt where "binary32 = (8, 23)"
definition binary64 :: fmt where "binary64 = (11, 52)"

datatype fpv = NaN | Inf bool | Fin bool nat int
  \<comment> \<open>\<open>Fin s m e\<close> is m * 2 ^ e, negative with s\<close>

fun fp_emin :: "fmt \<Rightarrow> int" where
  "fp_emin (eb, mb) = 2 - 2 ^ (eb - 1) - int mb"

fun fp_unpack :: "fmt \<Rightarrow> nat \<Rightarrow> fpv" where
  "fp_unpack (eb, mb) n =
     (let s = odd (n div 2 ^ (eb + mb)); e = n div 2 ^ mb mod 2 ^ eb; f = n mod 2 ^ mb
      in if e = 2 ^ eb - 1 then (if f = 0 then Inf s else NaN)
         else if e = 0 then Fin s f (fp_emin (eb, mb))
         else Fin s (2 ^ mb + f) (fp_emin (eb, mb) + int e - 1))"

text \<open>
  The bits of the number nearest to m * 2 ^ e, without its sign. With \<open>st\<close> the number is a
  little more than that, by less than one in the last place of m.
\<close>

fun fp_round :: "fmt \<Rightarrow> nat \<Rightarrow> int \<Rightarrow> bool \<Rightarrow> nat" where
  "fp_round (eb, mb) m e st =
     (if m = 0 then 0 else
      let emin = fp_emin (eb, mb);
          e' = max emin (e + int (floorlog 2 m) - int (mb + 1));
          q = (if e' \<le> e then m * 2 ^ nat (e - e')
               else let d = nat (e' - e); q = m div 2 ^ d; r = m mod 2 ^ d; h = 2 ^ (d - 1)
                    in if h < r \<or> (r = h \<and> (st \<or> odd q)) then q + 1 else q);
          b = nat (e' - emin) * 2 ^ mb + q
      in min b ((2 ^ eb - 1) * 2 ^ mb))"

fun fp_sign :: "fmt \<Rightarrow> bool \<Rightarrow> nat \<Rightarrow> nat" where
  "fp_sign (eb, mb) s b = (if s then 2 ^ (eb + mb) + b else b)"

fun fp_inf :: "fmt \<Rightarrow> bool \<Rightarrow> nat" where
  "fp_inf (eb, mb) s = fp_sign (eb, mb) s ((2 ^ eb - 1) * 2 ^ mb)"

definition fp_pack :: "fmt \<Rightarrow> bool \<Rightarrow> nat \<Rightarrow> int \<Rightarrow> bool \<Rightarrow> nat" where
  "fp_pack fm s m e st = fp_sign fm s (fp_round fm m e st)"

section \<open>Arithmetic, \<open>None\<close> for a NaN\<close>

definition signed_nat :: "bool \<Rightarrow> nat \<Rightarrow> int" where
  "signed_nat s m = (if s then - int m else int m)"

fun fp_add :: "fmt \<Rightarrow> fpv \<Rightarrow> fpv \<Rightarrow> nat option" where
  "fp_add fm (Fin s m e) (Fin t n f) =
     (let b = min e f;
          k = signed_nat s m * 2 ^ nat (e - b) + signed_nat t n * 2 ^ nat (f - b)
      in if k = 0 then Some (fp_sign fm (s \<and> t) 0)
         else Some (fp_pack fm (k < 0) (nat \<bar>k\<bar>) b False))"
| "fp_add fm (Inf s) (Inf t) = (if s = t then Some (fp_inf fm s) else None)"
| "fp_add fm (Inf s) (Fin t n f) = Some (fp_inf fm s)"
| "fp_add fm (Fin s m e) (Inf t) = Some (fp_inf fm t)"
| "fp_add fm _ _ = None"

fun fp_neg :: "fpv \<Rightarrow> fpv" where
  "fp_neg (Fin s m e) = Fin (\<not> s) m e"
| "fp_neg (Inf s) = Inf (\<not> s)"
| "fp_neg NaN = NaN"

fun fp_mul :: "fmt \<Rightarrow> fpv \<Rightarrow> fpv \<Rightarrow> nat option" where
  "fp_mul fm (Fin s m e) (Fin t n f) = Some (fp_pack fm (s \<noteq> t) (m * n) (e + f) False)"
| "fp_mul fm (Inf s) (Inf t) = Some (fp_inf fm (s \<noteq> t))"
| "fp_mul fm (Inf s) (Fin t n f) = (if n = 0 then None else Some (fp_inf fm (s \<noteq> t)))"
| "fp_mul fm (Fin s m e) (Inf t) = (if m = 0 then None else Some (fp_inf fm (s \<noteq> t)))"
| "fp_mul fm _ _ = None"

text \<open>A quotient is worked out to more bits than it will keep, and the rest of it is the sticky bit.\<close>

fun fp_div :: "fmt \<Rightarrow> fpv \<Rightarrow> fpv \<Rightarrow> nat option" where
  "fp_div fm (Fin s m e) (Fin t n f) =
     (if n = 0 then (if m = 0 then None else Some (fp_inf fm (s \<noteq> t)))
      else let k = floorlog 2 n + snd fm + 3; q = m * 2 ^ k div n; r = m * 2 ^ k mod n
           in Some (fp_pack fm (s \<noteq> t) q (e - f - int k) (r \<noteq> 0)))"
| "fp_div fm (Inf s) (Inf t) = None"
| "fp_div fm (Inf s) (Fin t n f) = Some (fp_inf fm (s \<noteq> t))"
| "fp_div fm (Fin s m e) (Inf t) = Some (fp_sign fm (s \<noteq> t) 0)"
| "fp_div fm _ _ = None"

fun isqrt :: "nat \<Rightarrow> nat" where
  "isqrt n = (if n = 0 then 0 else
     let r = 2 * isqrt (n div 4) in if (r + 1) * (r + 1) \<le> n then r + 1 else r)"

declare isqrt.simps [simp del]

fun fp_sqrt :: "fmt \<Rightarrow> fpv \<Rightarrow> nat option" where
  "fp_sqrt fm (Fin s m e) =
     (if m = 0 then Some (fp_sign fm s 0)
      else if s then None
      else let k = 2 * (snd fm + 3) + (if even e then 0 else 1);
               n = m * 2 ^ k; r = isqrt n
           in Some (fp_pack fm False r ((e - int k) div 2) (r * r \<noteq> n)))"
| "fp_sqrt fm (Inf s) = (if s then None else Some (fp_inf fm False))"
| "fp_sqrt fm NaN = None"

definition fp_of_int :: "fmt \<Rightarrow> int \<Rightarrow> nat" where
  "fp_of_int fm k = fp_pack fm (k < 0) (nat \<bar>k\<bar>) 0 False"

section \<open>Comparison and truncation\<close>

definition fin_scaled :: "bool \<Rightarrow> nat \<Rightarrow> int \<Rightarrow> int \<Rightarrow> int" where
  "fin_scaled s m e b = signed_nat s m * 2 ^ nat (e - b)"

fun fp_less :: "fpv \<Rightarrow> fpv \<Rightarrow> bool" where
  "fp_less (Fin s m e) (Fin t n f) = (fin_scaled s m e (min e f) < fin_scaled t n f (min e f))"
| "fp_less (Inf s) (Inf t) = (s \<and> \<not> t)"
| "fp_less (Inf s) (Fin t n f) = s"
| "fp_less (Fin s m e) (Inf t) = (\<not> t)"
| "fp_less _ _ = False"

fun fp_eq :: "fpv \<Rightarrow> fpv \<Rightarrow> bool" where
  "fp_eq (Fin s m e) (Fin t n f) = (fin_scaled s m e (min e f) = fin_scaled t n f (min e f))"
| "fp_eq (Inf s) (Inf t) = (s = t)"
| "fp_eq _ _ = False"

definition fp_le :: "fpv \<Rightarrow> fpv \<Rightarrow> bool" where
  "fp_le x y \<longleftrightarrow> fp_less x y \<or> fp_eq x y"

text \<open>The integer toward zero.\<close>

definition fin_trunc :: "bool \<Rightarrow> nat \<Rightarrow> int \<Rightarrow> int" where
  "fin_trunc s m e = signed_nat s (if 0 \<le> e then m * 2 ^ nat e else m div 2 ^ nat (- e))"

section \<open>Numbers a format holds are not changed by rounding\<close>

text \<open>The pairs \<open>fp_unpack\<close> gives: a full fraction, or the least exponent.\<close>

fun canonical :: "fmt \<Rightarrow> nat \<Rightarrow> int \<Rightarrow> bool" where
  "canonical (eb, mb) m e \<longleftrightarrow>
     m < 2 ^ (mb + 1) \<and> fp_emin (eb, mb) \<le> e \<and> (2 ^ mb \<le> m \<or> e = fp_emin (eb, mb))"

lemma floorlog_full:
  assumes "2 ^ mb \<le> (m::nat)" "m < 2 ^ (mb + 1)"
  shows "floorlog 2 m = mb + 1"
proof (rule antisym)
  show "floorlog 2 m \<le> mb + 1"
    using assms by (intro floorlog_leI) auto
  show "mb + 1 \<le> floorlog 2 m"
    using assms floorlog_ge_SucI [of 2 mb m] by simp
qed

lemma floorlog_shift: "0 < (m::nat) \<Longrightarrow> floorlog 2 (m * 2 ^ k) = floorlog 2 m + k"
proof (induction k)
  case (Suc k)
  have "floorlog 2 (m * 2 ^ Suc k) = floorlog 2 ((m * 2 ^ k) * 2 ^ Suc k div 2 ^ k)"
    by simp
  moreover have "floorlog 2 ((m * 2 ^ k) * 2) = floorlog 2 (m * 2 ^ k) + 1"
    using Suc.prems by (subst compute_floorlog) auto
  ultimately show ?case
    using Suc by (simp add: ac_simps)
qed simp

lemma canonical_exponent:
  assumes "canonical (eb, mb) m e" "0 < m"
  shows "max (fp_emin (eb, mb)) (e + int (floorlog 2 m) - int (mb + 1)) = e"
proof (cases "2 ^ mb \<le> m")
  case True
  then show ?thesis using assms floorlog_full [of mb m] by (simp add: max_def)
next
  case False
  then have "floorlog 2 m \<le> mb" by (intro floorlog_leI) auto
  then show ?thesis using False assms by (simp add: max_def)
qed

lemma fp_round_canonical:
  assumes "canonical (eb, mb) m e" "0 < m" "0 < mb"
  shows "fp_round (eb, mb) (m * 2 ^ k) (e - int k) False =
    min (nat (e - fp_emin (eb, mb)) * 2 ^ mb + m) ((2 ^ eb - 1) * 2 ^ mb)"
proof -
  have fl: "e - int k + int (floorlog 2 (m * 2 ^ k)) - int (mb + 1)
      = e + int (floorlog 2 m) - int (mb + 1)"
    using assms(2) by (simp add: floorlog_shift)
  have e': "max (fp_emin (eb, mb)) (e - int k + int (floorlog 2 (m * 2 ^ k)) - int (mb + 1)) = e"
    unfolding fl using canonical_exponent [OF assms(1,2)] .
  show ?thesis
    unfolding fp_round.simps Let_def e'
    using assms(2) by (cases "k = 0") simp_all
qed

lemma fp_unpack_canonical:
  assumes "fp_unpack (eb, mb) n = Fin s m e" "0 < eb"
  shows "canonical (eb, mb) m e"
    and "nat (e - fp_emin (eb, mb)) * 2 ^ mb + m = n mod 2 ^ (eb + mb)"
    and "s = odd (n div 2 ^ (eb + mb))"
    and "n mod 2 ^ (eb + mb) < (2 ^ eb - 1) * 2 ^ mb"
proof -
  let ?f = "n mod 2 ^ mb" and ?e = "n div 2 ^ mb mod 2 ^ eb"
  have f: "?f < 2 ^ mb" by simp
  have e: "?e < 2 ^ eb" by simp
  have split: "n mod 2 ^ (eb + mb) = ?e * 2 ^ mb + ?f"
    using mod_mult2_eq [of n "2 ^ mb" "2 ^ eb"] by (simp add: power_add mult.commute)
  from assms(1) have ne: "?e \<noteq> 2 ^ eb - 1"
    by (auto simp: Let_def split: if_splits)
  then have lt: "?e < 2 ^ eb - 1" using e by linarith
  then have "?e * 2 ^ mb + 2 ^ mb \<le> (2 ^ eb - 1) * 2 ^ mb"
    using mult_le_mono1 [of "?e + 1" "2 ^ eb - 1" "2 ^ mb"] by simp
  then show "n mod 2 ^ (eb + mb) < (2 ^ eb - 1) * 2 ^ mb"
    unfolding split using f by linarith
  show "s = odd (n div 2 ^ (eb + mb))"
    using assms(1) ne by (auto simp: Let_def split: if_splits)
  have f2: "?f < 2 * 2 ^ mb" using f by linarith
  show "canonical (eb, mb) m e"
    using assms(1) ne f f2 by (auto simp: Let_def split: if_splits)
  show "nat (e - fp_emin (eb, mb)) * 2 ^ mb + m = n mod 2 ^ (eb + mb)"
  proof (cases "?e = 0")
    case True
    then have "e = fp_emin (eb, mb)" "m = ?f"
      using assms(1) ne by (auto simp: Let_def simp del: fp_emin.simps split: if_splits)
    then show ?thesis unfolding split True by simp
  next
    case False
    then have "e - fp_emin (eb, mb) = int ?e - 1" and m: "m = 2 ^ mb + ?f"
      using assms(1) ne by (auto simp: Let_def simp del: fp_emin.simps split: if_splits)
    then have "nat (e - fp_emin (eb, mb)) = ?e - 1" by simp
    then show ?thesis
      unfolding split m using False by (cases ?e) simp_all
  qed
qed

lemma fp_pack_unpack:
  assumes "fp_unpack (eb, mb) n = Fin s m e" "0 < eb" "0 < mb" "n < 2 ^ (eb + mb + 1)"
  shows "fp_pack (eb, mb) s (m * 2 ^ k) (e - int k) False = n"
proof -
  note u = fp_unpack_canonical [OF assms(1,2)]
  have mag: "fp_round (eb, mb) (m * 2 ^ k) (e - int k) False = n mod 2 ^ (eb + mb)"
  proof (cases "m = 0")
    case True
    have "e = fp_emin (eb, mb)"
      using u(1) unfolding canonical.simps True by simp
    then have "n mod 2 ^ (eb + mb) = 0"
      using u(2) unfolding True by simp
    then show ?thesis unfolding True by simp
  next
    case False
    then have "fp_round (eb, mb) (m * 2 ^ k) (e - int k) False =
      min (nat (e - fp_emin (eb, mb)) * 2 ^ mb + m) ((2 ^ eb - 1) * 2 ^ mb)"
      using fp_round_canonical [OF u(1) _ assms(3)] by blast
    then show ?thesis
      unfolding u(2) using u(4) by linarith
  qed
  have "n div 2 ^ (eb + mb) < 2"
    using assms(4) by (simp add: less_mult_imp_div_less mult.commute)
  then have "n div 2 ^ (eb + mb) = (if s then 1 else 0)"
    unfolding u(3) by (cases "n div 2 ^ (eb + mb)") auto
  then have "(if s then 2 ^ (eb + mb) else 0) + n mod 2 ^ (eb + mb) = n"
    using div_mult_mod_eq [of n "2 ^ (eb + mb)"] by (auto split: if_splits)
  then show ?thesis
    unfolding fp_pack_def mag fp_sign.simps by (cases s) simp_all
qed

section \<open>Comparison of numbers that are not NaN\<close>

lemma fp_less_iff_not_le: "x \<noteq> NaN \<Longrightarrow> y \<noteq> NaN \<Longrightarrow> fp_less x y \<longleftrightarrow> \<not> fp_le y x"
  by (cases x; cases y) (auto simp: fp_le_def min.commute)

lemma fp_nan_compare [simp]:
  "\<not> fp_less NaN y" "\<not> fp_less x NaN" "\<not> fp_eq NaN y" "\<not> fp_eq x NaN"
  "\<not> fp_le NaN y" "\<not> fp_le x NaN"
  by (cases x; cases y; simp add: fp_le_def)+

section \<open>The types \<open>double\<close> and \<open>float\<close>\<close>

record fpu =
  nan64 :: "u64 list \<Rightarrow> u64"  \<comment> \<open>the NaN an operation on these operands makes\<close>
  nan32 :: "u32 list \<Rightarrow> u32"
  eq_first :: bool  \<comment> \<open>of two equal operands \<open>fmin\<close> and \<open>fmax\<close> give the first\<close>

text \<open>One such processor, to evaluate with.\<close>

definition fpu0 :: fpu where
  "fpu0 = \<lparr>nan64 = \<lambda>_. 0x7FF8000000000000, nan32 = \<lambda>_. 0x7FC00000, eq_first = True\<rparr>"

definition f64 :: "u64 \<Rightarrow> fpv" where "f64 w = fp_unpack binary64 (unat w)"
definition f32 :: "u32 \<Rightarrow> fpv" where "f32 w = fp_unpack binary32 (unat w)"

definition f64_lift :: "fpu \<Rightarrow> u64 list \<Rightarrow> nat option \<Rightarrow> u64" where
  "f64_lift u xs r = (case r of None \<Rightarrow> nan64 u xs | Some n \<Rightarrow> word_of_nat n)"

definition f32_lift :: "fpu \<Rightarrow> u32 list \<Rightarrow> nat option \<Rightarrow> u32" where
  "f32_lift u xs r = (case r of None \<Rightarrow> nan32 u xs | Some n \<Rightarrow> word_of_nat n)"

definition f64_add where "f64_add u a b = f64_lift u [a, b] (fp_add binary64 (f64 a) (f64 b))"
definition f64_sub where "f64_sub u a b = f64_lift u [a, b] (fp_add binary64 (f64 a) (fp_neg (f64 b)))"
definition f64_mul where "f64_mul u a b = f64_lift u [a, b] (fp_mul binary64 (f64 a) (f64 b))"
definition f64_div where "f64_div u a b = f64_lift u [a, b] (fp_div binary64 (f64 a) (f64 b))"
definition f64_sqrt where "f64_sqrt u a = f64_lift u [a] (fp_sqrt binary64 (f64 a))"
definition f64_of_int :: "int \<Rightarrow> u64" where "f64_of_int k = word_of_nat (fp_of_int binary64 k)"

definition f32_add where "f32_add u a b = f32_lift u [a, b] (fp_add binary32 (f32 a) (f32 b))"
definition f32_sub where "f32_sub u a b = f32_lift u [a, b] (fp_add binary32 (f32 a) (fp_neg (f32 b)))"
definition f32_mul where "f32_mul u a b = f32_lift u [a, b] (fp_mul binary32 (f32 a) (f32 b))"
definition f32_div where "f32_div u a b = f32_lift u [a, b] (fp_div binary32 (f32 a) (f32 b))"
definition f32_of_int :: "int \<Rightarrow> u32" where "f32_of_int k = word_of_nat (fp_of_int binary32 k)"

text \<open>The cast of a \<open>double\<close> to \<open>float\<close>. The NaN it makes of one may depend on both its words.\<close>

definition f64_to_f32 :: "fpu \<Rightarrow> u64 \<Rightarrow> u32" where
  "f64_to_f32 u a = (case f64 a of NaN \<Rightarrow> nan32 u [ucast (drop_bit 32 a), ucast a] | Inf s \<Rightarrow> word_of_nat (fp_inf binary32 s)
     | Fin s m e \<Rightarrow> word_of_nat (fp_pack binary32 s m e False))"

text \<open>A number that a \<open>float\<close> holds is kept as it is.\<close>

lemma f64_to_f32_exact:
  assumes "f32 w = Fin s m e" "f64 a = Fin s (m * 2 ^ k) (e - int k)"
  shows "f64_to_f32 u a = w"
proof -
  have "unat w < 2 ^ (8 + 23 + 1)" using unsigned_less [where ?'a = nat, of w] by simp
  from fp_pack_unpack [where k = k, OF _ _ _ this] assms show ?thesis
    by (simp add: f64_to_f32_def f32_def binary32_def)
qed

text \<open>Negation and absolute value are on the sign bit alone, of a NaN as well.\<close>

definition f64_neg :: "u64 \<Rightarrow> u64" where "f64_neg a = a XOR push_bit 63 1"
definition f64_abs :: "u64 \<Rightarrow> u64" where "f64_abs a = a AND mask 63"
definition f32_neg :: "u32 \<Rightarrow> u32" where "f32_neg a = a XOR push_bit 31 1"

text \<open>\<open>fmin\<close> and \<open>fmax\<close> leave a NaN out when there is a number to give.\<close>

definition f64_min :: "fpu \<Rightarrow> u64 \<Rightarrow> u64 \<Rightarrow> u64" where
  "f64_min u a b =
     (if f64 a = NaN then (if f64 b = NaN then nan64 u [a, b] else b)
      else if f64 b = NaN then a
      else if fp_less (f64 a) (f64 b) then a
      else if fp_less (f64 b) (f64 a) then b
      else if eq_first u then a else b)"

definition f64_max :: "fpu \<Rightarrow> u64 \<Rightarrow> u64 \<Rightarrow> u64" where
  "f64_max u a b =
     (if f64 a = NaN then (if f64 b = NaN then nan64 u [a, b] else b)
      else if f64 b = NaN then a
      else if fp_less (f64 b) (f64 a) then a
      else if fp_less (f64 a) (f64 b) then b
      else if eq_first u then a else b)"

text \<open>Multiplication by 1 changes no number.\<close>

lemma fp_unpack_one:
  "fp_unpack binary32 0x3F800000 = Fin False (2 ^ 23) (- 23)"
  "fp_unpack binary64 0x3FF0000000000000 = Fin False (2 ^ 52) (- 52)"
  by (simp_all add: binary32_def binary64_def)

lemma f32_mul_one:
  assumes "f32 a \<noteq> NaN"
  shows "f32_mul u a 0x3F800000 = a"
proof -
  have n: "unat a < 2 ^ (8 + 23 + 1)" using unsigned_less [where ?'a = nat, of a] by simp
  show ?thesis
  proof (cases "f32 a")
    case (Fin s m e)
    then have "fp_unpack (8, 23) (unat a) = Fin s m e"
      by (simp add: f32_def binary32_def)
    from fp_pack_unpack [where k = 23, OF this _ _ n] Fin show ?thesis
      by (simp add: f32_mul_def f32_lift_def f32_def fp_unpack_one binary32_def)
  next
    case (Inf s)
    then have i: "unat a div 2 ^ 23 mod 2 ^ 8 = 255" "unat a mod 2 ^ 23 = 0"
        "s = odd (unat a div 2 ^ 31)"
      by (auto simp: f32_def binary32_def Let_def split: if_splits)
    have "unat a mod (2 ^ 23 * 2 ^ 8) = 2139095040"
      unfolding mod_mult2_eq i by simp
    moreover have "unat a div 2 ^ 31 < 2" using n by (simp add: less_mult_imp_div_less)
    then have "unat a div 2 ^ 31 = (if s then 1 else 0)"
      unfolding i by (cases "unat a div 2 ^ 31") auto
    ultimately have "unat a = fp_inf (8, 23) s"
      using div_mult_mod_eq [of "unat a" "2 ^ 31"] by (cases s) simp_all
    then show ?thesis
      using Inf by (simp add: f32_mul_def f32_lift_def f32_def fp_unpack_one
        binary32_def word_unat_eq_iff unat_word_ariths)
  qed (use assms in simp)
qed

end
