(* ===== verification/Vp64_Machine.thy ===== *)
theory Vp64_Machine
  imports Vp64_Memory Ieee
begin

text \<open>
  The VP64 emulator of src/host/vp64.cpp: the locals of \<open>vp64()\<close> as a record, the operand
  macros \<open>vd_*\<close>, one definition for each family of \<open>vp_*\<close> macros, the switch of the loop as
  the function \<open>exec\<close> and one turn of the loop as \<open>vp64_step\<close>.

  A signed overflow of \<open>+\<close>, \<open>-\<close>, \<open>*\<close> or unary \<open>-\<close> wraps, as every compiler the hosts are built
  with makes it on these variables. What C++ leaves undefined and the machine can reach, an access
  to memory that is not there and a register number that is not below 16, is a fault. The host
  functions that \<open>vp_call_abi\<close> calls are outside this code: they are the field \<open>host_call\<close> of the
  environment, any function of the arguments and the memory, \<open>None\<close> where it does not return.
\<close>

section \<open>State\<close>

datatype print_line = Brk nat | Unrecognised nat  \<comment> \<open>the two lines the emulator prints\<close>

record vm =
  regs :: "u64 list"
  fregs :: "u64 list"
  pc :: u64
  compare1 :: u64
  compare2 :: u64
  compare_f1 :: u64
  compare_f2 :: u64
  sync :: u32
  mem :: vmem
  printed :: "print_line list"

datatype fault = BadRead u64 | BadWrite u64 | BadRegister nat

datatype outcome = Running vm | Faulted fault | HostExit

record host_env =
  fpu_of :: fpu
  host_call :: "u64 \<Rightarrow> u64 list \<Rightarrow> vmem \<Rightarrow> (u64 \<times> vmem) option"

abbreviation reg :: "vm \<Rightarrow> nat \<Rightarrow> u64" where "reg s r \<equiv> regs s ! r"
abbreviation freg :: "vm \<Rightarrow> nat \<Rightarrow> u64" where "freg s r \<equiv> fregs s ! r"

definition set_reg :: "nat \<Rightarrow> u64 \<Rightarrow> vm \<Rightarrow> vm" where
  [machine_simps]: "set_reg r v s = s\<lparr>regs := (regs s)[r := v]\<rparr>"

definition set_freg :: "nat \<Rightarrow> u64 \<Rightarrow> vm \<Rightarrow> vm" where
  [machine_simps]: "set_freg r v s = s\<lparr>fregs := (fregs s)[r := v]\<rparr>"

text \<open>Reads and writes of memory, and what follows them.\<close>

definition with_read :: "mty \<Rightarrow> u64 \<Rightarrow> vm \<Rightarrow> (u64 \<Rightarrow> outcome) \<Rightarrow> outcome" where
  "with_read t a s k = (case mread t (mem s) a of None \<Rightarrow> Faulted (BadRead a) | Some v \<Rightarrow> k v)"

definition with_write :: "mty \<Rightarrow> u64 \<Rightarrow> u64 \<Rightarrow> vm \<Rightarrow> (vm \<Rightarrow> outcome) \<Rightarrow> outcome" where
  "with_write t a v s k =
     (case mwrite t (mem s) a v of None \<Rightarrow> Faulted (BadWrite a) | Some m \<Rightarrow> k (s\<lparr>mem := m\<rparr>))"

text \<open>A register whose number is a whole word of the code and not 4 bits of it.\<close>

definition with_reg :: "u64 \<Rightarrow> (nat \<Rightarrow> outcome) \<Rightarrow> outcome" where
  "with_reg w k = (if unat w < 16 then k (unat w) else Faulted (BadRegister (unat w)))"

section \<open>Operands\<close>

text \<open>\<open>ir\<close> is the first word of the instruction, its sign spread over 64 bits.\<close>

definition vd_dr :: "u64 \<Rightarrow> nat" where "vd_dr ir = unat (drop_bit 8 ir AND 15)"
definition vd_sr :: "u64 \<Rightarrow> nat" where "vd_sr ir = unat (drop_bit 12 ir AND 15)"
definition vd_c0 :: "u64 \<Rightarrow> u64" where "vd_c0 ir = signed_drop_bit 12 ir"
definition vd_o0 :: "u64 \<Rightarrow> u64" where "vd_o0 ir = scast (ucast (drop_bit 8 ir) :: 8 word)"

text \<open>The next word of the code, as it is or by its sign. The program counter moves over it.\<close>

definition vd_sc :: "vm \<Rightarrow> (u64 \<Rightarrow> vm \<Rightarrow> outcome) \<Rightarrow> outcome" where
  "vd_sc s k = with_read U16 (pc s) s (\<lambda>w. k w (s\<lparr>pc := pc s + 2\<rparr>))"

definition vd_i :: "vm \<Rightarrow> (u64 \<Rightarrow> vm \<Rightarrow> outcome) \<Rightarrow> outcome" where
  "vd_i s k = with_read I16 (pc s) s (\<lambda>w. k w (s\<lparr>pc := pc s + 2\<rparr>))"

definition vd_c1 :: "u64 \<Rightarrow> vm \<Rightarrow> (u64 \<Rightarrow> vm \<Rightarrow> outcome) \<Rightarrow> outcome" where
  "vd_c1 ir s k = vd_i s (\<lambda>i. k (word_of_nat (vd_sr ir) OR push_bit 4 i))"

definition vd_c2 :: "u64 \<Rightarrow> vm \<Rightarrow> (u64 \<Rightarrow> vm \<Rightarrow> outcome) \<Rightarrow> outcome" where
  "vd_c2 ir s k = vd_sc s (\<lambda>a s. vd_i s (\<lambda>b.
     k (word_of_nat (vd_sr ir) OR push_bit 4 a OR push_bit 20 b)))"

definition vd_c3 :: "vm \<Rightarrow> (u64 \<Rightarrow> vm \<Rightarrow> outcome) \<Rightarrow> outcome" where
  "vd_c3 s k = vd_sc s (\<lambda>a s. vd_sc s (\<lambda>b s. vd_sc s (\<lambda>c s. vd_i s (\<lambda>d.
     k (a OR push_bit 16 b OR push_bit 32 c OR push_bit 48 d)))))"

definition vd_o1 :: "u64 \<Rightarrow> vm \<Rightarrow> (u64 \<Rightarrow> vm \<Rightarrow> outcome) \<Rightarrow> outcome" where
  "vd_o1 ir s k = vd_i s (\<lambda>i. k ((drop_bit 8 ir AND 255) + push_bit 8 i))"

text \<open>A constant of size 0 to 3, and a branch offset of size 0 or 1, as the opcode says.\<close>

fun vd_c :: "nat \<Rightarrow> u64 \<Rightarrow> vm \<Rightarrow> (u64 \<Rightarrow> vm \<Rightarrow> outcome) \<Rightarrow> outcome" where
  "vd_c n ir s k =
     (if n = 0 then k (vd_c0 ir) s else if n = 1 then vd_c1 ir s k
      else if n = 2 then vd_c2 ir s k else vd_c3 s k)"

fun vd_o :: "nat \<Rightarrow> u64 \<Rightarrow> vm \<Rightarrow> (u64 \<Rightarrow> vm \<Rightarrow> outcome) \<Rightarrow> outcome" where
  "vd_o n ir s k = (if n = 0 then k (vd_o0 ir) s else vd_o1 ir s k)"

section \<open>Arithmetic on registers\<close>

definition bool_word :: "bool \<Rightarrow> u64" where "bool_word b = (if b then 1 else 0)"

text \<open>\<open>vp_*_cr(c, dr)\<close> of the first group.\<close>

fun vp_alu_cr :: "alu \<Rightarrow> u64 \<Rightarrow> nat \<Rightarrow> vm \<Rightarrow> vm" where
  "vp_alu_cr ACpy c dr s = set_reg dr c s"
| "vp_alu_cr AAdd c dr s = set_reg dr (reg s dr + c) s"
| "vp_alu_cr ASub c dr s = set_reg dr (reg s dr - c) s"
| "vp_alu_cr ACmp c dr s = s\<lparr>compare1 := reg s dr, compare2 := c\<rparr>"
| "vp_alu_cr AMul c dr s = set_reg dr (reg s dr * c) s"
| "vp_alu_cr AAnd c dr s = set_reg dr (reg s dr AND c) s"
| "vp_alu_cr AOr c dr s = set_reg dr (reg s dr OR c) s"
| "vp_alu_cr AXor c dr s = set_reg dr (reg s dr XOR c) s"

fun vp_alu_rr :: "alu \<Rightarrow> nat \<Rightarrow> nat \<Rightarrow> vm \<Rightarrow> vm" where
  "vp_alu_rr ACpy sr dr s = set_reg dr (reg s sr) s"
| "vp_alu_rr AAdd sr dr s = set_reg dr (reg s dr + reg s sr) s"
| "vp_alu_rr ASub sr dr s = set_reg dr (reg s dr - reg s sr) s"
| "vp_alu_rr ACmp sr dr s = s\<lparr>compare1 := reg s dr, compare2 := reg s sr\<rparr>"
| "vp_alu_rr AMul sr dr s = set_reg dr (reg s dr * reg s sr) s"
| "vp_alu_rr AAnd sr dr s = set_reg dr (reg s dr AND reg s sr) s"
| "vp_alu_rr AOr sr dr s = set_reg dr (reg s dr OR reg s sr) s"
| "vp_alu_rr AXor sr dr s = set_reg dr (reg s dr XOR reg s sr) s"

text \<open>A shift is by the low 6 bits of its count.\<close>

fun vp_shift :: "shift \<Rightarrow> u64 \<Rightarrow> u64 \<Rightarrow> u64" where
  "vp_shift Shl x c = push_bit (unat (c AND 63)) x"
| "vp_shift Shr x c = drop_bit (unat (c AND 63)) x"
| "vp_shift Asr x c = signed_drop_bit (unat (c AND 63)) x"

definition vp_shift_cr :: "shift \<Rightarrow> u64 \<Rightarrow> nat \<Rightarrow> vm \<Rightarrow> vm" where
  "vp_shift_cr f c dr s = set_reg dr (vp_shift f (reg s dr) c) s"

definition vp_shift_rr :: "shift \<Rightarrow> nat \<Rightarrow> nat \<Rightarrow> vm \<Rightarrow> vm" where
  "vp_shift_rr f sr dr s = set_reg dr (vp_shift f (reg s dr) (reg s sr)) s"

text \<open>The not is of \<open>dr\<close> alone, \<open>sr\<close> is a register the other processors may use.\<close>

definition vp_lnot_rr :: "nat \<Rightarrow> nat \<Rightarrow> vm \<Rightarrow> vm" where
  "vp_lnot_rr sr dr s = set_reg dr (bool_word (reg s dr = 0)) s"

definition vp_land_rr :: "nat \<Rightarrow> nat \<Rightarrow> vm \<Rightarrow> vm" where
  "vp_land_rr sr dr s = set_reg dr (bool_word (reg s dr \<noteq> 0 \<and> reg s sr \<noteq> 0)) s"

definition vp_swp_rr :: "nat \<Rightarrow> nat \<Rightarrow> vm \<Rightarrow> vm" where
  "vp_swp_rr sr dr s =
     (let t = reg s dr; s' = set_reg dr (reg s sr) s in set_reg sr t s')"

definition vp_ext_rr :: "nat \<Rightarrow> nat \<Rightarrow> vm \<Rightarrow> vm" where
  "vp_ext_rr sr dr s = set_reg dr (signed_drop_bit 63 (reg s sr)) s"

text \<open>Division: the order of the two writes is the code's, it shows when they are one register.\<close>

definition vp_div_rrr :: "nat \<Rightarrow> nat \<Rightarrow> nat \<Rightarrow> vm \<Rightarrow> vm" where
  "vp_div_rrr sr dr drr s =
     (let n = reg s dr; d = reg s drr
      in if d = 0 then set_reg dr 0 (set_reg sr n s)
         else if d = - 1 then set_reg sr 0 (set_reg dr (0 - n) s)
         else set_reg sr (word_of_int (sint n smod sint d))
                (set_reg dr (word_of_int (sint n sdiv sint d)) s))"

definition vp_div_rrr_u :: "nat \<Rightarrow> nat \<Rightarrow> nat \<Rightarrow> vm \<Rightarrow> vm" where
  "vp_div_rrr_u sr dr drr s =
     (let n = reg s dr; d = reg s drr
      in if d = 0 then set_reg dr 0 (set_reg sr n s)
         else set_reg sr (n mod d) (set_reg dr (n div d) s))"

definition vp_minmax :: "minmax \<Rightarrow> u64 \<Rightarrow> u64 \<Rightarrow> bool" where
  "vp_minmax m c r = (case m of MMin \<Rightarrow> sint c < sint r | MMax \<Rightarrow> sint r < sint c)"

definition vp_minmax_cr :: "minmax \<Rightarrow> u64 \<Rightarrow> nat \<Rightarrow> vm \<Rightarrow> vm" where
  "vp_minmax_cr m c dr s = (if vp_minmax m c (reg s dr) then set_reg dr c s else s)"

definition vp_minmax_rr :: "minmax \<Rightarrow> nat \<Rightarrow> nat \<Rightarrow> vm \<Rightarrow> vm" where
  "vp_minmax_rr m sr dr s = (if vp_minmax m (reg s sr) (reg s dr) then set_reg dr (reg s sr) s else s)"

definition vp_abs_rr :: "nat \<Rightarrow> nat \<Rightarrow> vm \<Rightarrow> vm" where
  "vp_abs_rr sr dr s = (let t = reg s sr in set_reg dr (if sint t < 0 then - t else t) s)"

text \<open>Comparison of signed integers, of the sets and of the branches.\<close>

fun vp_holds :: "cond \<Rightarrow> u64 \<Rightarrow> u64 \<Rightarrow> bool" where
  "vp_holds CEq a b = (a = b)"
| "vp_holds CNe a b = (a \<noteq> b)"
| "vp_holds CLt a b = (sint a < sint b)"
| "vp_holds CLe a b = (sint a \<le> sint b)"
| "vp_holds CGt a b = (sint a > sint b)"
| "vp_holds CGe a b = (sint a \<ge> sint b)"

definition vp_set_cr :: "cond \<Rightarrow> u64 \<Rightarrow> nat \<Rightarrow> vm \<Rightarrow> vm" where
  "vp_set_cr c k dr s = set_reg dr (bool_word (vp_holds c (reg s dr) k)) s"

definition vp_set_rr :: "cond \<Rightarrow> nat \<Rightarrow> nat \<Rightarrow> vm \<Rightarrow> vm" where
  "vp_set_rr c sr dr s = set_reg dr (bool_word (vp_holds c (reg s dr) (reg s sr))) s"

section \<open>Memory\<close>

definition vp_mem_ir :: "mty \<Rightarrow> nat \<Rightarrow> u64 \<Rightarrow> nat \<Rightarrow> vm \<Rightarrow> outcome" where
  "vp_mem_ir t sr off dr s = with_read t (reg s sr + off) s (\<lambda>v. Running (set_reg dr v s))"

definition vp_mem_ri :: "mty \<Rightarrow> nat \<Rightarrow> nat \<Rightarrow> u64 \<Rightarrow> vm \<Rightarrow> outcome" where
  "vp_mem_ri t sr dr off s = with_write t (reg s dr + off) (reg s sr) s Running"

definition vp_lea_i :: "nat \<Rightarrow> u64 \<Rightarrow> nat \<Rightarrow> vm \<Rightarrow> vm" where
  "vp_lea_i sr off dr s = set_reg dr (reg s sr + off) s"

definition vp_mem_dr :: "mty \<Rightarrow> nat \<Rightarrow> nat \<Rightarrow> nat \<Rightarrow> vm \<Rightarrow> outcome" where
  "vp_mem_dr t b sr dr s = with_read t (reg s b + reg s sr) s (\<lambda>v. Running (set_reg dr v s))"

definition vp_mem_rd :: "mty \<Rightarrow> nat \<Rightarrow> nat \<Rightarrow> nat \<Rightarrow> vm \<Rightarrow> outcome" where
  "vp_mem_rd t sr b dr s = with_write t (reg s b + reg s dr) (reg s sr) s Running"

definition vp_lea_d :: "nat \<Rightarrow> nat \<Rightarrow> nat \<Rightarrow> vm \<Rightarrow> vm" where
  "vp_lea_d b sr dr s = set_reg dr (reg s b + reg s sr) s"

section \<open>Control\<close>

definition vp_push_pc :: "vm \<Rightarrow> (vm \<Rightarrow> outcome) \<Rightarrow> outcome" where
  "vp_push_pc s k =
     (let s' = set_reg 15 (reg s 15 - 8) s in with_write I64 (reg s' 15) (pc s') s' k)"

definition vp_pop_pc :: "vm \<Rightarrow> outcome" where
  "vp_pop_pc s = with_read I64 (reg s 15) s
     (\<lambda>p. Running (set_reg 15 (reg s 15 + 8) (s\<lparr>pc := p\<rparr>)))"

definition vp_pc_rel :: "u64 \<Rightarrow> vm \<Rightarrow> u64" where "vp_pc_rel off s = pc s + off"

definition vp_pc_ind :: "u64 \<Rightarrow> vm \<Rightarrow> outcome" where
  "vp_pc_ind a s = with_read I64 a s (\<lambda>p. Running (s\<lparr>pc := p\<rparr>))"

definition vp_branch :: "bool \<Rightarrow> u64 \<Rightarrow> vm \<Rightarrow> vm" where
  "vp_branch c off s = (if c then s\<lparr>pc := vp_pc_rel off s\<rparr> else s)"

definition vp_call :: "u64 \<Rightarrow> vm \<Rightarrow> outcome" where
  "vp_call off s = vp_push_pc s (\<lambda>s. Running (s\<lparr>pc := vp_pc_rel off s\<rparr>))"

definition vp_jmp :: "u64 \<Rightarrow> vm \<Rightarrow> vm" where "vp_jmp off s = s\<lparr>pc := vp_pc_rel off s\<rparr>"

definition vp_call_p :: "u64 \<Rightarrow> vm \<Rightarrow> outcome" where
  "vp_call_p off s = vp_push_pc s (\<lambda>s. vp_pc_ind (vp_pc_rel off s) s)"

definition vp_jmp_p :: "u64 \<Rightarrow> vm \<Rightarrow> outcome" where
  "vp_jmp_p off s = vp_pc_ind (vp_pc_rel off s) s"

text \<open>The register is read after the push, so a call through the stack pointer goes to where it now points.\<close>

definition vp_call_r :: "nat \<Rightarrow> vm \<Rightarrow> outcome" where
  "vp_call_r dr s = vp_push_pc s (\<lambda>s. Running (s\<lparr>pc := reg s dr\<rparr>))"

definition vp_jmp_r :: "nat \<Rightarrow> vm \<Rightarrow> vm" where "vp_jmp_r dr s = s\<lparr>pc := reg s dr\<rparr>"

definition vp_call_i :: "u64 \<Rightarrow> u64 \<Rightarrow> vm \<Rightarrow> outcome" where
  "vp_call_i b off s = vp_push_pc s (\<lambda>s. vp_pc_ind (b + off) s)"

definition vp_jmp_i :: "u64 \<Rightarrow> u64 \<Rightarrow> vm \<Rightarrow> outcome" where
  "vp_jmp_i b off s = vp_pc_ind (b + off) s"

definition vp_cpy_pr :: "u64 \<Rightarrow> nat \<Rightarrow> vm \<Rightarrow> outcome" where
  "vp_cpy_pr off dr s = with_read I64 (vp_pc_rel off s) s (\<lambda>v. Running (set_reg dr v s))"

definition vp_lea_p :: "u64 \<Rightarrow> nat \<Rightarrow> vm \<Rightarrow> vm" where
  "vp_lea_p off dr s = set_reg dr (vp_pc_rel off s) s"

text \<open>A host function is called with the first \<open>n\<close> registers, and what it returns is in the first.\<close>

definition vp_call_abi :: "host_env \<Rightarrow> nat \<Rightarrow> nat \<Rightarrow> u64 \<Rightarrow> vm \<Rightarrow> outcome" where
  "vp_call_abi h n b off s = with_read I64 (reg s b + off) s
     (\<lambda>f. case host_call h f (take n (regs s)) (mem s) of None \<Rightarrow> HostExit
        | Some (r, m) \<Rightarrow> Running (set_reg 0 r (s\<lparr>mem := m\<rparr>)))"

definition vp_sync :: "u64 \<Rightarrow> vm \<Rightarrow> vm" where "vp_sync c s = s\<lparr>sync := ucast c\<rparr>"

definition vp_brk :: "u64 \<Rightarrow> vm \<Rightarrow> vm" where
  "vp_brk c s = s\<lparr>printed := printed s @ [Brk (unat c)]\<rparr>"

end
