(* ===== verification/Vp64_Exec.thy ===== *)
theory Vp64_Exec
  imports Vp64_Machine
begin

text \<open>
  The floating point instructions of src/host/vp64.cpp, the switch of its loop and the loop. The
  loop of \<open>vp64()\<close> has no way out but a fault or a host function that does not return, so a run
  is \<open>vp64_run\<close>, a number of turns of it, and the states it passes through are \<open>vp64_reaches\<close>.
\<close>

section \<open>Floating point\<close>

fun vp_ff :: "fpu \<Rightarrow> falu \<Rightarrow> nat \<Rightarrow> nat \<Rightarrow> vm \<Rightarrow> vm" where
  "vp_ff u FAdd sr dr s = set_freg dr (f64_add u (freg s dr) (freg s sr)) s"
| "vp_ff u FSub sr dr s = set_freg dr (f64_sub u (freg s dr) (freg s sr)) s"
| "vp_ff u FMul sr dr s = set_freg dr (f64_mul u (freg s dr) (freg s sr)) s"
| "vp_ff u FDiv sr dr s = set_freg dr (f64_div u (freg s dr) (freg s sr)) s"
| "vp_ff u FMin sr dr s = set_freg dr (f64_min u (freg s dr) (freg s sr)) s"
| "vp_ff u FMax sr dr s = set_freg dr (f64_max u (freg s dr) (freg s sr)) s"
| "vp_ff u FSqrt sr dr s = set_freg dr (f64_sqrt u (freg s sr)) s"
| "vp_ff u FAbs sr dr s = set_freg dr (f64_abs (freg s sr)) s"
| "vp_ff u FNeg sr dr s = set_freg dr (f64_neg (freg s sr)) s"
| "vp_ff u FCpy sr dr s = set_freg dr (freg s sr) s"

text \<open>A real made an integer: toward 0, held at the ends, and 0 for what is not a number.\<close>

definition f64_2p63 :: u64 where "f64_2p63 = 0x43E0000000000000"
definition f64_m2p63 :: u64 where "f64_m2p63 = 0xC3E0000000000000"

definition vp_f2i :: "u64 \<Rightarrow> u64" where
  "vp_f2i f =
     (if \<not> fp_eq (f64 f) (f64 f) then 0
      else if fp_le (f64 f64_2p63) (f64 f) then 0x7FFFFFFFFFFFFFFF
      else if fp_le (f64 f) (f64 f64_m2p63) then 0x8000000000000000
      else (case f64 f of Fin s m e \<Rightarrow> word_of_int (fin_trunc s m e) | _ \<Rightarrow> 0))"

definition vp_cvt_rf :: "nat \<Rightarrow> nat \<Rightarrow> vm \<Rightarrow> vm" where
  "vp_cvt_rf sr dr s = set_freg dr (f64_of_int (sint (reg s sr))) s"

definition vp_cvt_fr :: "nat \<Rightarrow> nat \<Rightarrow> vm \<Rightarrow> vm" where
  "vp_cvt_fr sr dr s = set_reg dr (vp_f2i (freg s sr)) s"

definition vp_cpy_rf :: "nat \<Rightarrow> nat \<Rightarrow> vm \<Rightarrow> vm" where
  "vp_cpy_rf sr dr s = set_freg dr (reg s sr) s"

definition vp_cpy_fr :: "nat \<Rightarrow> nat \<Rightarrow> vm \<Rightarrow> vm" where
  "vp_cpy_fr sr dr s = set_reg dr (freg s sr) s"

definition vp_cmp_f :: "nat \<Rightarrow> nat \<Rightarrow> vm \<Rightarrow> vm" where
  "vp_cmp_f sr dr s = s\<lparr>compare_f1 := freg s sr, compare_f2 := freg s dr\<rparr>"

text \<open>The test of a float branch, of the second against the first.\<close>

fun vp_fholds :: "cond \<Rightarrow> u64 \<Rightarrow> u64 \<Rightarrow> bool" where
  "vp_fholds CEq a b = fp_eq (f64 a) (f64 b)"
| "vp_fholds CNe a b = (\<not> fp_eq (f64 a) (f64 b))"
| "vp_fholds CGe a b = fp_le (f64 a) (f64 b)"
| "vp_fholds CLt a b = fp_less (f64 b) (f64 a)"
| "vp_fholds CLe a b = fp_le (f64 b) (f64 a)"
| "vp_fholds CGt a b = fp_less (f64 a) (f64 b)"

definition vp_cpy_if :: "nat \<Rightarrow> u64 \<Rightarrow> nat \<Rightarrow> vm \<Rightarrow> outcome" where
  "vp_cpy_if br off dr s = with_read I64 (reg s br + off) s (\<lambda>v. Running (set_freg dr v s))"

definition vp_cpy_fi :: "nat \<Rightarrow> nat \<Rightarrow> u64 \<Rightarrow> vm \<Rightarrow> outcome" where
  "vp_cpy_fi sr br off s = with_write I64 (reg s br + off) (freg s sr) s Running"

definition vp_cpy_df :: "nat \<Rightarrow> nat \<Rightarrow> nat \<Rightarrow> vm \<Rightarrow> outcome" where
  "vp_cpy_df br ir dr s = with_read I64 (reg s br + reg s ir) s (\<lambda>v. Running (set_freg dr v s))"

definition vp_cpy_fd :: "nat \<Rightarrow> nat \<Rightarrow> nat \<Rightarrow> vm \<Rightarrow> outcome" where
  "vp_cpy_fd sr br ir s = with_write I64 (reg s br + reg s ir) (freg s sr) s Running"

section \<open>The switch\<close>

fun exec :: "host_env \<Rightarrow> opcode \<Rightarrow> u64 \<Rightarrow> vm \<Rightarrow> outcome" where
  "exec h (OpCr a n) ir s = vd_c n ir s (\<lambda>c s. Running (vp_alu_cr a c (vd_dr ir) s))"
| "exec h (OpRr a) ir s = Running (vp_alu_rr a (vd_sr ir) (vd_dr ir) s)"
| "exec h (OpShCr f) ir s = vd_sc s (\<lambda>c s. Running (vp_shift_cr f c (vd_dr ir) s))"
| "exec h (OpShRr f) ir s = Running (vp_shift_rr f (vd_sr ir) (vd_dr ir) s)"
| "exec h OpLnot ir s = Running (vp_lnot_rr (vd_sr ir) (vd_dr ir) s)"
| "exec h OpLand ir s = Running (vp_land_rr (vd_sr ir) (vd_dr ir) s)"
| "exec h OpSwp ir s = Running (vp_swp_rr (vd_sr ir) (vd_dr ir) s)"
| "exec h OpExt ir s = Running (vp_ext_rr (vd_sr ir) (vd_dr ir) s)"
| "exec h OpDiv ir s = vd_sc s (\<lambda>w s. with_reg w (\<lambda>d.
     Running (vp_div_rrr (vd_sr ir) (vd_dr ir) d s)))"
| "exec h OpDivU ir s = vd_sc s (\<lambda>w s. with_reg w (\<lambda>d.
     Running (vp_div_rrr_u (vd_sr ir) (vd_dr ir) d s)))"
| "exec h (OpMmCr m n) ir s = vd_c n ir s (\<lambda>c s. Running (vp_minmax_cr m c (vd_dr ir) s))"
| "exec h (OpMmRr m) ir s = Running (vp_minmax_rr m (vd_sr ir) (vd_dr ir) s)"
| "exec h OpAbs ir s = Running (vp_abs_rr (vd_sr ir) (vd_dr ir) s)"
| "exec h (OpSetCr c n) ir s = vd_c n ir s (\<lambda>k s. Running (vp_set_cr c k (vd_dr ir) s))"
| "exec h (OpSetRr c) ir s = Running (vp_set_rr c (vd_sr ir) (vd_dr ir) s)"
| "exec h (OpIr t) ir s = vd_i s (\<lambda>i s. vp_mem_ir t (vd_sr ir) i (vd_dr ir) s)"
| "exec h OpLeaI ir s = vd_i s (\<lambda>i s. Running (vp_lea_i (vd_sr ir) i (vd_dr ir) s))"
| "exec h (OpRi t) ir s = vd_i s (\<lambda>i s. vp_mem_ri t (vd_sr ir) (vd_dr ir) i s)"
| "exec h (OpRd t) ir s = vd_sc s (\<lambda>w s. with_reg w (\<lambda>r.
     vp_mem_rd t r (vd_dr ir) (vd_sr ir) s))"
| "exec h (OpDr t) ir s = vd_sc s (\<lambda>w s. with_reg w (\<lambda>r.
     vp_mem_dr t (vd_sr ir) r (vd_dr ir) s))"
| "exec h OpLeaD ir s = vd_sc s (\<lambda>w s. with_reg w (\<lambda>r.
     Running (vp_lea_d (vd_sr ir) r (vd_dr ir) s)))"
| "exec h OpIf ir s = vd_i s (\<lambda>i s. vp_cpy_if (vd_sr ir) i (vd_dr ir) s)"
| "exec h OpFi ir s = vd_i s (\<lambda>i s. vp_cpy_fi (vd_sr ir) (vd_dr ir) i s)"
| "exec h OpDf ir s = vd_sc s (\<lambda>w s. with_reg w (\<lambda>r. vp_cpy_df (vd_sr ir) r (vd_dr ir) s))"
| "exec h OpFd ir s = vd_sc s (\<lambda>w s. with_reg w (\<lambda>r. vp_cpy_fd (vd_dr ir) (vd_sr ir) r s))"
| "exec h OpCmpF ir s = Running (vp_cmp_f (vd_sr ir) (vd_dr ir) s)"
| "exec h (OpB c n) ir s = vd_o n ir s (\<lambda>off s.
     Running (vp_branch (vp_holds c (compare1 s) (compare2 s)) off s))"
| "exec h (OpFb c n) ir s = vd_o n ir s (\<lambda>off s.
     Running (vp_branch (vp_fholds c (compare_f1 s) (compare_f2 s)) off s))"
| "exec h (OpCall n) ir s = vd_o n ir s vp_call"
| "exec h (OpJmp n) ir s = vd_o n ir s (\<lambda>off s. Running (vp_jmp off s))"
| "exec h (OpCallP n) ir s = vd_o n ir s vp_call_p"
| "exec h (OpJmpP n) ir s = vd_o n ir s vp_jmp_p"
| "exec h OpCallR ir s = vp_call_r (vd_dr ir) s"
| "exec h OpJmpR ir s = Running (vp_jmp_r (vd_dr ir) s)"
| "exec h OpCallI ir s = (let b = reg s (vd_dr ir) in vd_c1 ir s (\<lambda>off s. vp_call_i b off s))"
| "exec h OpJmpI ir s = (let b = reg s (vd_dr ir) in vd_c1 ir s (\<lambda>off s. vp_jmp_i b off s))"
| "exec h OpCpyPr ir s = vd_c1 ir s (\<lambda>off s. vp_cpy_pr off (vd_dr ir) s)"
| "exec h OpLeaP ir s = vd_c1 ir s (\<lambda>off s. Running (vp_lea_p off (vd_dr ir) s))"
| "exec h OpCallAbi ir s = vd_sc s (\<lambda>off s. vp_call_abi h (vd_sr ir) (vd_dr ir) off s)"
| "exec h OpRet ir s = vp_pop_pc s"
| "exec h OpSync ir s = Running (vp_sync (signed_drop_bit 8 ir) s)"
| "exec h OpBrk ir s = Running (vp_brk (drop_bit 8 ir AND 255) s)"
| "exec h (OpFf a) ir s = Running (vp_ff (fpu_of h) a (vd_sr ir) (vd_dr ir) s)"
| "exec h OpCvtRf ir s = Running (vp_cvt_rf (vd_sr ir) (vd_dr ir) s)"
| "exec h OpCvtFr ir s = Running (vp_cvt_fr (vd_sr ir) (vd_dr ir) s)"
| "exec h OpCpyRf ir s = Running (vp_cpy_rf (vd_sr ir) (vd_dr ir) s)"
| "exec h OpCpyFr ir s = Running (vp_cpy_fr (vd_sr ir) (vd_dr ir) s)"

section \<open>The loop\<close>

text \<open>The body of \<open>for(;;)\<close>: fetch, move on, and switch on the low byte.\<close>

definition vp64_step :: "host_env \<Rightarrow> vm \<Rightarrow> outcome" where
  "vp64_step h s = vd_i s (\<lambda>ir s.
     case opcode_of (unat (ir AND 255)) of
       Some op \<Rightarrow> exec h op ir s
     | None \<Rightarrow> Running (s\<lparr>printed := printed s @ [Unrecognised (unat (ir AND 255))]\<rparr>))"

fun vp64_run :: "host_env \<Rightarrow> nat \<Rightarrow> vm \<Rightarrow> outcome" where
  "vp64_run h 0 s = Running s"
| "vp64_run h (Suc n) s =
     (case vp64_step h s of Running s' \<Rightarrow> vp64_run h n s' | r \<Rightarrow> r)"

inductive vp64_reaches :: "host_env \<Rightarrow> vm \<Rightarrow> vm \<Rightarrow> bool" for h where
  start: "vp64_reaches h s s"
| turn: "vp64_reaches h s t \<Longrightarrow> vp64_step h t = Running t' \<Longrightarrow> vp64_reaches h s t'"

text \<open>
  The start of \<open>vp64()\<close>: \<open>data\<close>, \<open>stack\<close>, \<open>argv\<close> and \<open>host_calls\<close> are addresses, and the entry is the
  field of \<open>fn_header\<close> at 10. What C++ does not set, the other registers and the value \<open>sync\<close> has, is
  given.
\<close>

definition vp64_init :: "vmem \<Rightarrow> u64 list \<Rightarrow> u64 list \<Rightarrow> u32 \<Rightarrow> u64 \<Rightarrow> u64 \<Rightarrow> u64 \<Rightarrow> u64 \<Rightarrow> outcome" where
  "vp64_init m r f y data stack argv host_calls =
     (case mread U16 m (data + 10) of None \<Rightarrow> Faulted (BadRead (data + 10))
      | Some entry \<Rightarrow> Running
         \<lparr>regs = r[0 := argv, 1 := host_calls, 15 := stack], fregs = f, pc = data + entry,
          compare1 = 0, compare2 = 0, compare_f1 = 0, compare_f2 = 0, sync = y,
          mem = m, printed = []\<rparr>)"

end
