(* ===== verification/Vp64_Emit.thy ===== *)
theory Vp64_Emit
  imports Vp64_Exec
begin

text \<open>
  The assembler's side, lib/trans/vp64.inc: the words each \<open>emit\<close> function writes, and what the
  emulator of src/host/vp64.cpp does with them. The two files hold the layout of an instruction
  twice, the assembler as shifts and adds and the emulator as the \<open>vd_*\<close> macros, and the theorems
  here are that they fit. A number of the assembler is 64 bits, \<open>emitm-short\<close> writes the low 16 bits
  of each, and \<open>throw\<close> is \<open>None\<close>.
\<close>

section \<open>Code in memory\<close>

fun code_at :: "vmem \<Rightarrow> u64 \<Rightarrow> u16 list \<Rightarrow> bool" where
  "code_at m a [] = True"
| "code_at m a (w # ws) = (load_le m a 2 = Some (unat w) \<and> code_at m (a + 2) ws)"

text \<open>Machines to try the definitions on: some words of code at an address, and all registers 0.\<close>

definition code_mem :: "u64 \<Rightarrow> u16 list \<Rightarrow> vmem" where
  "code_mem b ws a = (let i = unat (a - b) in if i < 2 * length ws
     then Some (ucast (drop_bit (8 * (i mod 2)) (ws ! (i div 2)))) else None)"

definition vm0 :: "vmem \<Rightarrow> vm" where
  "vm0 m = \<lparr>regs = replicate 16 0, fregs = replicate 16 0, pc = 0, compare1 = 0, compare2 = 0,
     compare_f1 = 0, compare_f2 = 0, sync = 0, mem = m, printed = []\<rparr>"

lemma vm0_simps [simp]:
  "regs (vm0 m) = replicate 16 0" "fregs (vm0 m) = replicate 16 0" "pc (vm0 m) = 0"
  "mem (vm0 m) = m"
  by (simp_all add: vm0_def)

definition host0 :: host_env where
  "host0 = \<lparr>fpu_of = fpu0, host_call = \<lambda>_ _ _. None\<rparr>"

lemma mread_code:
  assumes "load_le m a 2 = Some (unat (w :: u16))"
  shows "mread U16 m a = Some (ucast w)" "mread I16 m a = Some (scast w)"
  using assms by (simp_all add: mread_def)

lemma vd_sc_code [machine_simps]:
  "load_le (mem s) (pc s) 2 = Some (unat (w :: u16)) \<Longrightarrow> vd_sc s k = k (ucast w) (s\<lparr>pc := pc s + 2\<rparr>)"
  unfolding vd_sc_def with_read_def by (drule mread_code(1)) simp

lemma vd_i_code [machine_simps]:
  "load_le (mem s) (pc s) 2 = Some (unat (w :: u16)) \<Longrightarrow> vd_i s k = k (scast w) (s\<lparr>pc := pc s + 2\<rparr>)"
  unfolding vd_i_def with_read_def by (drule mread_code(2)) simp

section \<open>The first word\<close>

text \<open>\<open>(+ o (<< r 8) (<< c 12))\<close>, written as a short.\<close>

definition emit_word :: "nat \<Rightarrow> nat \<Rightarrow> u64 \<Rightarrow> u16" where
  "emit_word op r c = ucast (word_of_nat op + push_bit 8 (word_of_nat r) + push_bit 12 c :: u64)"

lemma mask_255: "(255 :: u64) = mask 8" by (simp add: mask_eq_exp_minus_1)
lemma mask_15: "(15 :: u64) = mask 4" by (simp add: mask_eq_exp_minus_1)

lemma small_bits: "n < 2 ^ k \<Longrightarrow> bit (n :: nat) i \<Longrightarrow> i < k"
  by (metis bit_take_bit_iff take_bit_nat_eq_self)

lemma emit_word_or:
  assumes "op < 256" "r < 16"
  shows "emit_word op r c =
    ucast (word_of_nat op OR push_bit 8 (word_of_nat r) OR push_bit 12 c :: u64)"
proof -
  let ?o = "word_of_nat op :: u64" and ?r = "word_of_nat r :: u64"
  have o: "i < 8" if "bit op i" for i using assms(1) small_bits [of op 8] that by simp
  have r: "i < 4" if "bit r i" for i using assms(2) small_bits [of r 4] that by simp
  have "?o AND push_bit 8 ?r = 0"
    by (rule bit_word_eqI) (auto simp: bit_simps dest!: o)
  then have 1: "?o + push_bit 8 ?r = ?o OR push_bit 8 ?r"
    by (simp add: disjunctive_add_eq_or)
  have "(?o OR push_bit 8 ?r) AND push_bit 12 c = 0"
    by (rule bit_word_eqI) (auto simp: bit_simps dest!: o r)
  then have "(?o OR push_bit 8 ?r) + push_bit 12 c = (?o OR push_bit 8 ?r) OR push_bit 12 c"
    by (simp add: disjunctive_add_eq_or)
  then show ?thesis
    unfolding emit_word_def 1 by (simp add: or.assoc)
qed

lemma bit_emit_word:
  assumes "op < 256" "r < 16"
  shows "bit (emit_word op r c) i \<longleftrightarrow> i < 16 \<and>
    (if i < 8 then bit op i else if i < 12 then bit r (i - 8) else bit c (i - 12))"
proof -
  have o: "i < 8" if "bit op i" for i using assms(1) small_bits [of op 8] that by simp
  have r: "i < 4" if "bit r i" for i using assms(2) small_bits [of r 4] that by simp
  show ?thesis
    unfolding emit_word_or [OF assms] by (auto simp: bit_simps dest: o r)
qed

lemma emit_word_op:
  assumes "op < 256" "r < 16"
  shows "unat ((scast (emit_word op r c) :: u64) AND 255) = op"
proof -
  have "((scast (emit_word op r c) :: u64) AND 255) = word_of_nat op"
  proof (rule bit_word_eqI)
    fix n assume "n < LENGTH(64)"
    have o: "bit op n \<Longrightarrow> n < 8" using assms(1) small_bits [of op 8] by simp
    show "bit ((scast (emit_word op r c) :: u64) AND 255) n = bit (word_of_nat op :: u64) n"
      using \<open>n < LENGTH(64)\<close>
      by (auto simp: mask_255 mask_15 bit_simps bit_emit_word [OF assms] dest: o)
  qed
  then show ?thesis using assms(1) by (simp add: unat_of_nat)
qed

lemma vd_dr_emit:
  assumes "op < 256" "r < 16"
  shows "vd_dr (scast (emit_word op r c)) = r"
proof -
  have "drop_bit 8 (scast (emit_word op r c) :: u64) AND 15 = word_of_nat r"
  proof (rule bit_word_eqI)
    fix n assume n: "n < LENGTH(64)"
    have o: "bit r n \<Longrightarrow> n < 4" using assms(2) small_bits [of r 4] by simp
    show "bit (drop_bit 8 (scast (emit_word op r c) :: u64) AND 15) n = bit (word_of_nat r :: u64) n"
      using n by (auto simp: mask_255 mask_15 bit_simps bit_emit_word [OF assms] dest: o)
  qed
  then show ?thesis using assms(2) by (simp add: vd_dr_def unat_of_nat)
qed

lemma vd_sr_emit:
  assumes "op < 256" "r < 16"
  shows "word_of_nat (vd_sr (scast (emit_word op r c))) = c AND 15"
proof -
  have "drop_bit 12 (scast (emit_word op r c) :: u64) AND 15 = c AND 15"
  proof (rule bit_word_eqI)
    fix n assume n: "n < LENGTH(64)"
    show "bit (drop_bit 12 (scast (emit_word op r c) :: u64) AND 15) n = bit (c AND 15) n"
      using n by (auto simp: mask_255 mask_15 bit_simps bit_emit_word [OF assms])
  qed
  then show ?thesis by (simp add: vd_sr_def)
qed

lemma vd_sr_emit_reg:
  assumes "op < 256" "r < 16" "q < 16"
  shows "vd_sr (scast (emit_word op r (word_of_nat q))) = q"
proof -
  have "(word_of_nat q :: u64) AND 15 = word_of_nat q"
  proof (rule bit_word_eqI)
    fix n assume n: "n < LENGTH(64)"
    show "bit ((word_of_nat q :: u64) AND 15) n = bit (word_of_nat q :: u64) n"
      using small_bits [of q 4 n] assms(3) by (auto simp: mask_15 bit_simps)
  qed
  then have "unat (word_of_nat (vd_sr (scast (emit_word op r (word_of_nat q)))) :: u64) = q"
    using vd_sr_emit [OF assms(1,2), of "word_of_nat q"] assms(3) by (simp add: unat_of_nat)
  moreover have "vd_sr (scast (emit_word op r (word_of_nat q))) < 2 ^ 64"
    unfolding vd_sr_def using unsigned_less [where ?'a = nat and 'b = 64] by simp
  ultimately show ?thesis by (simp add: unat_of_nat)
qed

section \<open>Constants\<close>

definition vp64_within :: "int \<Rightarrow> nat \<Rightarrow> bool" where
  "vp64_within c n = (- (2 ^ (n - 1)) \<le> c \<and> c \<le> 2 ^ (n - 1) - 1)"

definition vp64_cr :: "nat \<Rightarrow> u64 \<Rightarrow> nat \<Rightarrow> u16 list" where
  "vp64_cr op c r =
     (if vp64_within (sint c) 4 then [emit_word op r c]
      else if vp64_within (sint c) 20 then [emit_word (op + 1) r c, ucast (signed_drop_bit 4 c)]
      else if vp64_within (sint c) 36 then
        [emit_word (op + 2) r c, ucast (signed_drop_bit 4 c), ucast (signed_drop_bit 20 c)]
      else [emit_word (op + 3) r 0, ucast c, ucast (signed_drop_bit 16 c),
            ucast (signed_drop_bit 32 c), ucast (signed_drop_bit 48 c)])"

text \<open>The size of a constant, the number added to the opcode.\<close>

definition cr_size :: "u64 \<Rightarrow> nat" where
  "cr_size c = (if vp64_within (sint c) 4 then 0 else if vp64_within (sint c) 20 then 1
                else if vp64_within (sint c) 36 then 2 else 3)"

lemma cr_size_less: "cr_size c < 4"
  by (simp add: cr_size_def)

lemma bit_within:
  assumes "vp64_within (sint c) (Suc k)" "k \<le> i" "i < 64"
  shows "bit (c :: u64) i = bit c k"
proof -
  have "signed_take_bit k (sint c) = sint c"
    using assms(1) by (intro signed_take_bit_int_eq_self) (auto simp: vp64_within_def)
  then have "bit (sint c) i = bit (sint c) (min k i)"
    by (metis bit_signed_take_bit_iff possible_bit_int)
  then show ?thesis
    using assms(2,3) by (simp add: bit_sint_iff min_def)
qed

lemma vd_c0_emit:
  assumes "op < 256" "r < 16" "vp64_within (sint c) 4"
  shows "vd_c0 (scast (emit_word op r c)) = c"
proof (rule bit_word_eqI)
  fix n assume n: "n < LENGTH(64)"
  have "bit c n = bit c 3" if "3 \<le> n"
    using bit_within [of c 3 n] assms(3) that n by (simp add: numeral_eq_Suc)
  then show "bit (vd_c0 (scast (emit_word op r c))) n = bit c n"
    using n by (auto simp: vd_c0_def bit_simps bit_emit_word [OF assms(1,2)] min_def not_le)
qed


text \<open>A word that carries bits of the constant from bit \<open>k\<close> up, read by its sign or without it.\<close>

lemma bit_carried_signed:
  assumes "k \<le> 48" "i < 64"
  shows "bit (push_bit k (scast (ucast (signed_drop_bit k c) :: u16)) :: u64) i \<longleftrightarrow>
    k \<le> i \<and> bit (c :: u64) (min i (k + 15))"
proof (cases "k \<le> i")
  case True
  then have "k + (i - k) = i" "k + min (i - k) 15 = min i (k + 15)" by simp_all
  moreover have "bit (scast (ucast (signed_drop_bit k c) :: u16) :: u64) (i - k)
      \<longleftrightarrow> bit (c :: u64) (k + min (i - k) 15)"
    using assms by (auto simp: bit_simps min_def)
  ultimately show ?thesis using True assms by (simp add: bit_push_bit_iff)
qed (simp add: bit_push_bit_iff)

lemma bit_carried:
  assumes "k \<le> 48" "i < 64"
  shows "bit (push_bit k (ucast (ucast (signed_drop_bit k c) :: u16)) :: u64) i \<longleftrightarrow>
    k \<le> i \<and> i < k + 16 \<and> bit (c :: u64) i"
proof (cases "k \<le> i")
  case True
  then have "k + (i - k) = i" by simp
  moreover have "bit (ucast (ucast (signed_drop_bit k c) :: u16) :: u64) (i - k)
      \<longleftrightarrow> i < k + 16 \<and> bit (c :: u64) (k + (i - k))"
    using assms True by (auto simp: bit_simps min_def)
  ultimately show ?thesis using True assms by (simp add: bit_push_bit_iff)
qed (simp add: bit_push_bit_iff)

lemma c1_emit:
  assumes "op < 256" "r < 16" "vp64_within (sint c) 20"
  shows "word_of_nat (vd_sr (scast (emit_word op r c))) OR
    push_bit 4 (scast (ucast (signed_drop_bit 4 c) :: u16)) = (c :: u64)" (is "?l = _")
proof (rule bit_word_eqI)
  fix n assume n: "n < LENGTH(64)"
  have "bit c n = bit c 19" if "19 \<le> n"
    using bit_within [of c 19 n] assms(3) that n by (simp add: numeral_eq_Suc)
  then show "bit ?l n = bit c n"
    using n unfolding vd_sr_emit [OF assms(1,2)]
    by (auto simp: bit_or_iff bit_and_iff mask_15 bit_mask_iff bit_carried_signed min_def not_le)
qed

lemma c2_emit:
  assumes "op < 256" "r < 16" "vp64_within (sint c) 36"
  shows "word_of_nat (vd_sr (scast (emit_word op r c))) OR
    push_bit 4 (ucast (ucast (signed_drop_bit 4 c) :: u16)) OR
    push_bit 20 (scast (ucast (signed_drop_bit 20 c) :: u16)) = (c :: u64)" (is "?l = _")
proof (rule bit_word_eqI)
  fix n assume n: "n < LENGTH(64)"
  have "bit c n = bit c 35" if "35 \<le> n"
    using bit_within [of c 35 n] assms(3) that n by (simp add: numeral_eq_Suc)
  then show "bit ?l n = bit c n"
    using n unfolding vd_sr_emit [OF assms(1,2)]
    by (auto simp: bit_or_iff bit_and_iff mask_15 bit_mask_iff bit_carried_signed bit_carried
        min_def not_le)
qed

lemma c3_emit:
  "ucast (ucast (c :: u64) :: u16) OR push_bit 16 (ucast (ucast (signed_drop_bit 16 c) :: u16)) OR
   push_bit 32 (ucast (ucast (signed_drop_bit 32 c) :: u16)) OR
   push_bit 48 (scast (ucast (signed_drop_bit 48 c) :: u16)) = c" (is "?l = _")
proof (rule bit_word_eqI)
  fix n assume n: "n < LENGTH(64)"
  have 0: "bit (ucast (ucast c :: u16) :: u64) n \<longleftrightarrow> n < 16 \<and> bit c n"
    by (auto simp: bit_simps)
  show "bit ?l n = bit c n"
    using n
    by (auto simp: bit_or_iff 0 bit_carried_signed bit_carried min_def not_le)
qed

lemma vd_c_emit:
  assumes code: "code_at (mem s) (pc s) (vp64_cr op c r)" and op: "op + 3 < 256" and r: "r < 16"
  obtains w where "load_le (mem s) (pc s) 2 = Some (unat (w :: u16))"
    "unat (scast w AND 255 :: u64) = op + cr_size c" "vd_dr (scast w) = r"
    "\<And>k. vd_c (cr_size c) (scast w) (s\<lparr>pc := pc s + 2\<rparr>) k =
      k c (s\<lparr>pc := pc s + 2 * of_nat (length (vp64_cr op c r))\<rparr>)"
proof -
  have ops: "op < 256" "op + 1 < 256" "op + 2 < 256" "op + 3 < 256" using op by simp_all
  consider "vp64_within (sint c) 4" | "\<not> vp64_within (sint c) 4" "vp64_within (sint c) 20"
    | "\<not> vp64_within (sint c) 4" "\<not> vp64_within (sint c) 20" "vp64_within (sint c) 36"
    | "\<not> vp64_within (sint c) 4" "\<not> vp64_within (sint c) 20" "\<not> vp64_within (sint c) 36" by blast
  then show thesis
  proof cases
    case 1
    then show thesis
      using code that [of "emit_word op r c"] vd_c0_emit [OF ops(1) r 1] ops r
      by (simp add: vp64_cr_def cr_size_def emit_word_op vd_dr_emit)
  next
    case 2
    then show thesis
      using code that [of "emit_word (op + 1) r c"] c1_emit [OF ops(2) r 2(2)] ops r
      by (simp add: vp64_cr_def cr_size_def emit_word_op vd_dr_emit vd_c1_def vd_i_code add.commute)
  next
    case 3
    then show thesis
      using code that [of "emit_word (op + 2) r c"] c2_emit [OF ops(3) r 3(3)] ops r
      by (simp add: vp64_cr_def cr_size_def emit_word_op vd_dr_emit vd_c2_def vd_i_code vd_sc_code
          or.assoc add.commute)
  next
    case 4
    then show thesis
      using code that [of "emit_word (op + 3) r 0"] c3_emit [of c] ops r
      by (simp add: vp64_cr_def cr_size_def emit_word_op vd_dr_emit vd_c3_def vd_i_code vd_sc_code
          or.assoc add.commute)
  qed
qed

declare vd_c.simps [simp del] vd_o.simps [simp del]

section \<open>One step over emitted code\<close>

text \<open>The numbers of an instruction that comes in sizes are a run.\<close>

fun size_run :: "opcode \<Rightarrow> opcode list" where
  "size_run (OpCr a n) = (if n = 0 then map (OpCr a) [0..<4] else [])"
| "size_run (OpMmCr m n) = (if n = 0 then map (OpMmCr m) [0..<4] else [])"
| "size_run (OpSetCr c n) = (if n = 0 then map (OpSetCr c) [0..<3] else [])"
| "size_run (OpB c n) = (if n = 0 then map (OpB c) [0..<2] else [])"
| "size_run (OpFb c n) = (if n = 0 then map (OpFb c) [0..<2] else [])"
| "size_run (OpCall n) = (if n = 0 then map OpCall [0..<2] else [])"
| "size_run (OpJmp n) = (if n = 0 then map OpJmp [0..<2] else [])"
| "size_run (OpCallP n) = (if n = 0 then map OpCallP [0..<2] else [])"
| "size_run (OpJmpP n) = (if n = 0 then map OpJmpP [0..<2] else [])"
| "size_run op = []"

lemma size_runs:
  "list_all (\<lambda>(n, op). take (length (size_run op)) (drop n opcode_table) = size_run op)
     (enumerate 0 opcode_table)"
  by code_simp

lemma size_run_at:
  assumes "opcode_of n = Some op" "k < length (size_run op)"
  shows "opcode_of (n + k) = Some (size_run op ! k)" "n + k < 172"
proof -
  have n: "n < length opcode_table" "opcode_table ! n = op"
    using assms(1) by (auto simp: opcode_of_def split: if_splits)
  then have "(n, op) \<in> set (enumerate 0 opcode_table)"
    by (auto simp: in_set_enumerate_eq)
  with size_runs have t: "take (length (size_run op)) (drop n opcode_table) = size_run op"
    unfolding list_all_iff by fast
  then have "min (length opcode_table - n) (length (size_run op)) = length (size_run op)"
    by (metis length_take length_drop)
  then have l: "n + k < length opcode_table" using assms(2) by simp
  then show "n + k < 172" by (simp add: length_opcode_table)
  show "opcode_of (n + k) = Some (size_run op ! k)"
    using l n(1) assms(2) by (subst t [symmetric]) (simp add: opcode_of_def)
qed

lemma size_run_nth:
  "k < 4 \<Longrightarrow> size_run (OpCr a 0) ! k = OpCr a k"
  "k < 4 \<Longrightarrow> size_run (OpMmCr m 0) ! k = OpMmCr m k"
  "k < 3 \<Longrightarrow> size_run (OpSetCr c 0) ! k = OpSetCr c k"
  "k < 2 \<Longrightarrow> size_run (OpB c 0) ! k = OpB c k"
  "k < 2 \<Longrightarrow> size_run (OpFb c 0) ! k = OpFb c k"
  "k < 2 \<Longrightarrow> size_run (OpCall 0) ! k = OpCall k"
  "k < 2 \<Longrightarrow> size_run (OpJmp 0) ! k = OpJmp k"
  "length (size_run (OpCr a 0)) = 4" "length (size_run (OpMmCr m 0)) = 4"
  "length (size_run (OpSetCr c 0)) = 3" "length (size_run (OpB c 0)) = 2"
  "length (size_run (OpFb c 0)) = 2" "length (size_run (OpCall 0)) = 2"
  "length (size_run (OpJmp 0)) = 2"
  by simp_all

declare size_run.simps [simp del]

lemma step_fetched:
  assumes "load_le (mem s) (pc s) 2 = Some (unat (w :: u16))"
    "opcode_of (unat (scast w AND 255 :: u64)) = Some op"
  shows "vp64_step h s = exec h op (scast w) (s\<lparr>pc := pc s + 2\<rparr>)"
  by (simp add: vp64_step_def vd_i_code [OF assms(1)] assms(2))

lemma step_emitted:
  assumes "load_le (mem s) (pc s) 2 = Some (unat (emit_word n r c))"
    "opcode_of n = Some op" "r < 16"
  shows "vp64_step h s = exec h op (scast (emit_word n r c)) (s\<lparr>pc := pc s + 2\<rparr>)"
  using assms opcode_of_less [OF assms(2)] by (intro step_fetched) (simp_all add: emit_word_op)

lemma cr_step:
  assumes "code_at (mem s) (pc s) (vp64_cr n c r)" "r < 16"
    "opcode_of n = Some op" "cr_size c < length (size_run op)"
    "\<And>ir s. exec h (size_run op ! cr_size c) ir s =
       vd_c (cr_size c) ir s (\<lambda>c s. Running (f c (vd_dr ir) s))"
  shows "vp64_step h s = Running (f c r (s\<lparr>pc := pc s + 2 * of_nat (length (vp64_cr n c r))\<rparr>))"
proof -
  have n: "n + 3 < 256" using opcode_of_less [OF assms(3)] by simp
  have k: "opcode_of (n + cr_size c) = Some (size_run op ! cr_size c)"
    using size_run_at(1) [OF assms(3,4)] .
  obtain w where "load_le (mem s) (pc s) 2 = Some (unat (w :: u16))"
    "unat (scast w AND 255 :: u64) = n + cr_size c" "vd_dr (scast w) = r"
    "\<And>k. vd_c (cr_size c) (scast w) (s\<lparr>pc := pc s + 2\<rparr>) k =
      k c (s\<lparr>pc := pc s + 2 * of_nat (length (vp64_cr n c r))\<rparr>)"
    using vd_c_emit [OF assms(1) n assms(2)] by blast
  then show ?thesis
    using step_fetched [of s w] k assms(5) by simp
qed

lemma alu_cr_step:
  assumes "opcode_of n = Some (OpCr a 0)" "r < 16" "code_at (mem s) (pc s) (vp64_cr n c r)"
  shows "vp64_step h s =
    Running (vp_alu_cr a c r (s\<lparr>pc := pc s + 2 * of_nat (length (vp64_cr n c r))\<rparr>))"
  by (rule cr_step [OF assms(3,2,1)]) (simp_all add: size_run_nth cr_size_less)

lemma minmax_cr_step:
  assumes "opcode_of n = Some (OpMmCr a 0)" "r < 16" "code_at (mem s) (pc s) (vp64_cr n c r)"
  shows "vp64_step h s =
    Running (vp_minmax_cr a c r (s\<lparr>pc := pc s + 2 * of_nat (length (vp64_cr n c r))\<rparr>))"
  by (rule cr_step [OF assms(3,2,1)]) (simp_all add: size_run_nth cr_size_less)

text \<open>
  The functions \<open>emit-cpy-cr\<close> to \<open>emit-xor-cr\<close>: an instruction that would change nothing is not written.
\<close>

fun alu_cr_skipped :: "alu \<Rightarrow> u64 \<Rightarrow> bool" where
  "alu_cr_skipped AAdd c = (c = 0)"
| "alu_cr_skipped ASub c = (c = 0)"
| "alu_cr_skipped AMul c = (c = 1)"
| "alu_cr_skipped AAnd c = (c = - 1)"
| "alu_cr_skipped AOr c = (c = 0)"
| "alu_cr_skipped AXor c = (c = 0)"
| "alu_cr_skipped _ c = False"

definition emit_alu_cr :: "alu \<Rightarrow> nat \<Rightarrow> u64 \<Rightarrow> nat \<Rightarrow> u16 list" where
  "emit_alu_cr a n c r = (if alu_cr_skipped a c then [] else vp64_cr n c r)"

lemma alu_cr_skipped_id: "alu_cr_skipped a c \<Longrightarrow> vp_alu_cr a c r s = s"
  by (cases a) (simp_all add: set_reg_def)

lemma vp_alu_cr_pc: "vp_alu_cr a c r (s\<lparr>pc := p\<rparr>) = (vp_alu_cr a c r s)\<lparr>pc := p\<rparr>"
  by (cases a) (simp_all add: set_reg_def)

text \<open>
  C1: what the assembler writes for an arithmetic instruction with a constant, be it one
  instruction or none, runs as that instruction.
\<close>

theorem emit_alu_cr_runs:
  assumes "opcode_of n = Some (OpCr a 0)" "r < 16" "code_at (mem s) (pc s) (emit_alu_cr a n c r)"
  shows "vp64_run h (if emit_alu_cr a n c r = [] then 0 else 1) s =
    Running ((vp_alu_cr a c r s)\<lparr>pc := pc s + 2 * of_nat (length (emit_alu_cr a n c r))\<rparr>)"
proof (cases "alu_cr_skipped a c")
  case True
  then show ?thesis by (simp add: emit_alu_cr_def alu_cr_skipped_id)
next
  case False
  then have "vp64_step h s =
      Running ((vp_alu_cr a c r s)\<lparr>pc := pc s + 2 * of_nat (length (vp64_cr n c r))\<rparr>)"
    using alu_cr_step [OF assms(1,2)] assms(3) by (simp add: emit_alu_cr_def vp_alu_cr_pc)
  moreover have "vp64_cr n c r \<noteq> []" by (simp add: vp64_cr_def)
  ultimately show ?thesis using False by (simp add: emit_alu_cr_def)
qed

theorem emit_alu_cr_runs_witness:
  "let s = vm0 (code_mem 0 [0x305, 0x186A]) in
    opcode_of 4 = Some (OpCr AAdd 0) \<and> emit_alu_cr AAdd 4 100000 3 = [0x305, 0x186A] \<and>
    vp64_run host0 1 s = Running ((vp_alu_cr AAdd 100000 3 s)\<lparr>pc := 4\<rparr>)"
proof -
  have o: "opcode_of 4 = Some (OpCr AAdd 0)" by code_simp
  have e: "emit_alu_cr AAdd 4 100000 3 = [0x305, 0x186A]" by code_simp
  have c: "code_at (code_mem 0 [0x305, 0x186A]) 0 [0x305, 0x186A]" by code_simp
  show ?thesis
    using emit_alu_cr_runs [OF o, of 3 "vm0 (code_mem 0 [0x305, 0x186A])" 100000 host0] e c o
    by (simp add: Let_def)
qed

section \<open>The other forms\<close>

definition vp64_scr :: "nat \<Rightarrow> u64 \<Rightarrow> nat \<Rightarrow> u16 list option" where
  "vp64_scr op c d =
     (if vp64_within (sint c) 4 then Some [emit_word op d c]
      else if vp64_within (sint c) 20 then
        Some [emit_word (op + 1) d c, ucast (signed_drop_bit 4 c)]
      else if vp64_within (sint c) 36 then
        Some [emit_word (op + 2) d c, ucast (signed_drop_bit 4 c), ucast (signed_drop_bit 20 c)]
      else None)"

lemma vp64_scr_cr: "vp64_scr op c d = Some ws \<Longrightarrow> ws = vp64_cr op c d \<and> cr_size c < 3"
  by (auto simp: vp64_scr_def vp64_cr_def cr_size_def split: if_splits)

text \<open>a set instruction with a constant, where the assembler takes the constant, sets by that constant.\<close>

theorem emitted_set_cr:
  assumes "opcode_of n = Some (OpSetCr c 0)" "d < 16" "vp64_scr n k d = Some ws"
    "code_at (mem s) (pc s) ws"
  shows "vp64_step h s = Running (set_reg d (if vp_holds c (reg s d) k then 1 else 0)
    (s\<lparr>pc := pc s + 2 * of_nat (length ws)\<rparr>))"
proof -
  have ws: "ws = vp64_cr n k d" "cr_size k < 3" using vp64_scr_cr assms(3) by blast+
  have "vp64_step h s = Running (vp_set_cr c k d (s\<lparr>pc := pc s + 2 * of_nat (length ws)\<rparr>))"
    unfolding ws(1)
    by (rule cr_step [OF _ assms(2,1)]) (use assms(4) ws in \<open>simp_all add: size_run_nth\<close>)
  then show ?thesis by (simp add: vp_set_cr_def bool_word_def)
qed

theorem emitted_set_cr_witness:
  "let s = vm0 (code_mem 0 [0x145]) in
    opcode_of 69 = Some (OpSetCr CLt 0) \<and> vp64_scr 69 0 1 = Some [0x145] \<and>
    vp64_step host0 s = Running (set_reg 1 0 (s\<lparr>pc := 2\<rparr>))"
proof -
  have o: "opcode_of 69 = Some (OpSetCr CLt 0)" by code_simp
  have e: "vp64_scr 69 0 1 = Some [0x145]" by code_simp
  have c: "code_at (code_mem 0 [0x145]) 0 [0x145]" by code_simp
  show ?thesis
    using emitted_set_cr [OF o _ e, of "vm0 (code_mem 0 [0x145])" host0] e c o
    by (simp add: Let_def)
qed

definition vp64_shift_cr :: "nat \<Rightarrow> int \<Rightarrow> nat \<Rightarrow> u16 list option" where
  "vp64_shift_cr op c r =
     (if c = 0 then Some [] else if 1 \<le> c \<and> c \<le> 63 then Some [emit_word op r 0, word_of_int c]
      else None)"

definition vp64_ir :: "nat \<Rightarrow> nat \<Rightarrow> int \<Rightarrow> nat \<Rightarrow> u16 list option" where
  "vp64_ir op sr c d =
     (if vp64_within c 16 then Some [emit_word op d (of_nat sr), word_of_int c] else None)"

text \<open>
  A branch to a label \<open>l\<close> bytes on. The assembler makes passes over the code and keeps in \<open>m\<close> the
  longest offset it has met, which decides the size, and in a pass but the first \<open>m\<close> follows \<open>l\<close>.
\<close>

definition emit_offset :: "nat \<Rightarrow> u64 \<Rightarrow> u16" where
  "emit_offset op l = ucast (word_of_nat op + push_bit 8 l :: u64)"

definition vp64_branch :: "nat \<Rightarrow> nat \<Rightarrow> int \<Rightarrow> int \<Rightarrow> (u16 list \<times> int) option" where
  "vp64_branch pass op l m0 =
     (let m = (if pass > 0 \<and> \<bar>l\<bar> > \<bar>m0\<bar> then l else m0)
      in if vp64_within (m - 2) 8 then Some ([emit_offset op (word_of_int (l - 2))], m)
         else if vp64_within (m - 4) 24 then
           Some ([emit_offset (op + 1) (word_of_int (l - 4)),
                  ucast (signed_drop_bit 8 (word_of_int (l - 4) :: u64))], m)
         else None)"

definition vp64_call_jmp_p :: "nat \<Rightarrow> int \<Rightarrow> u16 list option" where
  "vp64_call_jmp_p op l =
     (if vp64_within (l - 2) 8 then Some [emit_offset op (word_of_int (l - 2))]
      else if vp64_within (l - 4) 24 then
        Some [emit_offset (op + 1) (word_of_int (l - 4)),
              ucast (signed_drop_bit 8 (word_of_int (l - 4) :: u64))]
      else None)"

lemma emit_offset_word:
  "emit_offset op l = emit_word op (unat (l AND 15)) (drop_bit 4 l)"
proof -
  have "push_bit 12 (drop_bit 4 l) + push_bit 8 (l AND 15) = push_bit 8 (push_bit 4 (drop_bit 4 l) + take_bit 4 l)"
    by (simp add: push_bit_add mask_15 take_bit_eq_mask)
  also have "\<dots> = push_bit 8 l" by (simp add: bits_ident)
  finally show ?thesis by (simp add: emit_offset_def emit_word_def algebra_simps)
qed

lemma offset_nibble: "unat (l AND 15 :: u64) < 16"
proof -
  have "l AND 15 \<le> 15" by (rule word_and_le1)
  then show ?thesis by (simp add: word_le_nat_alt)
qed

lemma bit_emit_offset:
  assumes "op < 256"
  shows "bit (emit_offset op l) i \<longleftrightarrow> i < 16 \<and> (if i < 8 then bit op i else bit l (i - 8))"
proof -
  have "bit (unat (l AND 15)) (i - 8) \<longleftrightarrow> bit l (i - 8)" if "8 \<le> i" "i < 12"
    using that by (auto simp: bit_simps mask_15)
  moreover have "bit (drop_bit 4 l) (i - 12) \<longleftrightarrow> bit l (i - 8)" if "12 \<le> i"
  proof -
    have "4 + (i - 12) = i - 8" using that by simp
    then show ?thesis by (simp add: bit_drop_bit_eq)
  qed
  ultimately show ?thesis
    unfolding emit_offset_word bit_emit_word [OF assms offset_nibble] by auto
qed

lemma emit_offset_op:
  "op < 256 \<Longrightarrow> unat ((scast (emit_offset op l) :: u64) AND 255) = op"
  unfolding emit_offset_word by (rule emit_word_op) (simp_all add: offset_nibble)

lemma vd_o0_emit:
  assumes "op < 256" "vp64_within (sint l) 8"
  shows "vd_o0 (scast (emit_offset op l)) = l"
proof (rule bit_word_eqI)
  fix n assume n: "n < LENGTH(64)"
  have "bit l n = bit l 7" if "7 \<le> n"
    using bit_within [of l 7 n] assms(2) that n by (simp add: numeral_eq_Suc)
  then show "bit (vd_o0 (scast (emit_offset op l))) n = bit l n"
    using n by (cases "n = 7")
      (auto simp: vd_o0_def bit_simps bit_emit_offset [OF assms(1)] min_def not_le)
qed

lemma o1_emit:
  assumes "op < 256" "vp64_within (sint l) 24"
  shows "(drop_bit 8 (scast (emit_offset op l)) AND 255) +
    push_bit 8 (scast (ucast (signed_drop_bit 8 l) :: u16)) = (l :: u64)" (is "?a + ?b = _")
proof -
  have a: "bit ?a n \<longleftrightarrow> n < 8 \<and> bit l n" if "n < 64" for n
    using that by (cases "n = 7") (auto simp: mask_255 bit_simps bit_emit_offset [OF assms(1)] min_def)
  have w: "bit l n = bit l 23" if "23 \<le> n" "n < 64" for n
    using bit_within [of l 23 n] assms(2) that by (simp add: numeral_eq_Suc)
  have b: "bit ?b n \<longleftrightarrow> 8 \<le> n \<and> bit l n" if "n < 64" for n
    using that w [of n] bit_carried_signed [of 8 n l] by (auto simp: min_def not_le)
  have "?a AND ?b = 0"
    by (rule bit_word_eqI) (simp add: bit_and_iff [of ?a ?b] a b)
  then have "?a + ?b = ?a OR ?b" by (simp add: disjunctive_add_eq_or)
  also have "\<dots> = l" by (rule bit_word_eqI) (auto simp: bit_or_iff [of ?a ?b] a b)
  finally show ?thesis .
qed

lemma within_sint:
  "vp64_within i n \<Longrightarrow> n \<le> 64 \<Longrightarrow> sint (word_of_int i :: u64) = i"
proof -
  assume a: "vp64_within i n" "n \<le> 64"
  then have "(2 :: int) ^ (n - 1) \<le> 2 ^ 63" by (intro power_increasing) auto
  with a show ?thesis by (intro sint_of_int64) (auto simp: vp64_within_def)
qed

text \<open>The words of an offset in a size.\<close>

definition offset_words :: "nat \<Rightarrow> int \<Rightarrow> nat \<Rightarrow> u16 list" where
  "offset_words op l k =
     (if k = 0 then [emit_offset op (word_of_int (l - 2))]
      else [emit_offset (op + 1) (word_of_int (l - 4)),
            ucast (signed_drop_bit 8 (word_of_int (l - 4) :: u64))])"

lemma offset_step:
  assumes "opcode_of n = Some op" "length (size_run op) = 2" "k < 2"
    "vp64_within (l - (if k = 0 then 2 else 4)) (if k = 0 then 8 else 24)"
    "code_at (mem s) (pc s) (offset_words n l k)"
    "\<And>ir s. exec h (size_run op ! k) ir s = vd_o k ir s f"
  shows "vp64_step h s = f (word_of_int (l - 2 * int (length (offset_words n l k))))
    (s\<lparr>pc := pc s + 2 * of_nat (length (offset_words n l k))\<rparr>)"
proof (cases "k = 0")
  case True
  let ?w = "emit_offset n (word_of_int (l - 2))"
  have n: "n < 256" using opcode_of_less [OF assms(1)] by simp
  have w: "vp64_within (sint (word_of_int (l - 2) :: u64)) 8"
    using assms(4) True within_sint [of "l - 2" 8] by simp
  have "opcode_of (unat (scast ?w AND 255 :: u64)) = Some (size_run op ! k)"
    using size_run_at(1) [OF assms(1), of 0] assms(2) True by (simp add: emit_offset_op n)
  then show ?thesis
    using step_fetched [of s ?w] assms(5,6) True vd_o0_emit [OF n w]
    by (simp add: offset_words_def vd_o.simps)
next
  case False
  then have k: "k = 1" using assms(3) by simp
  let ?w = "emit_offset (n + 1) (word_of_int (l - 4))"
  have n: "n + 1 < 256" using opcode_of_less [OF assms(1)] by simp
  have w: "vp64_within (sint (word_of_int (l - 4) :: u64)) 24"
    using assms(4) k within_sint [of "l - 4" 24] by simp
  have "opcode_of (unat (scast ?w AND 255 :: u64)) = Some (size_run op ! k)"
    using size_run_at(1) [OF assms(1), of 1] assms(2) k emit_offset_op [OF n] by simp
  then show ?thesis
    using step_fetched [of s ?w] assms(5,6) k o1_emit [OF n w]
    by (simp add: offset_words_def vd_o.simps vd_o1_def vd_i_code add.commute)
qed

lemma offset_back:
  "pc s + 2 * of_nat (length ws) + word_of_int (l - 2 * int (length ws)) = pc s + word_of_int l"
  by simp

lemma branch_words:
  assumes "vp64_branch pass n l m0 = Some (ws, m)" "0 < pass" "0 \<le> l * m0"
  obtains k where "k < 2" "ws = offset_words n l k"
    "vp64_within (l - (if k = 0 then 2 else 4)) (if k = 0 then 8 else 24)"
proof -
  have m: "m = (if \<bar>l\<bar> > \<bar>m0\<bar> then l else m0)"
    using assms(1,2) by (auto simp: vp64_branch_def Let_def split: if_splits)
  have between: "0 \<le> l \<and> l \<le> m \<or> m \<le> l \<and> l \<le> 0"
    using assms(3) unfolding m by (auto simp: zero_le_mult_iff abs_if split: if_splits)
  consider "vp64_within (m - 2) 8" "ws = offset_words n l 0"
    | "vp64_within (m - 4) 24" "ws = offset_words n l 1"
    using assms(1,2) unfolding m
    by (auto simp: vp64_branch_def Let_def offset_words_def split: if_splits)
  then show thesis
  proof cases
    case 1
    then show thesis using between by (intro that [of 0]) (auto simp: vp64_within_def)
  next
    case 2
    then show thesis using between by (intro that [of 1]) (auto simp: vp64_within_def)
  qed
qed

lemma call_jmp_words:
  assumes "vp64_call_jmp_p n l = Some ws"
  obtains k where "k < 2" "ws = offset_words n l k"
    "vp64_within (l - (if k = 0 then 2 else 4)) (if k = 0 then 8 else 24)"
  using assms that [of 0] that [of 1]
  by (auto simp: vp64_call_jmp_p_def offset_words_def split: if_splits)

section \<open>Branches and calls\<close>

lemma branch_step:
  assumes "opcode_of n = Some (OpB c 0)" "0 < pass" "0 \<le> l * m0"
    "vp64_branch pass n l m0 = Some (ws, m)" "code_at (mem s) (pc s) ws"
  shows "vp64_step h s = Running (s\<lparr>pc := if vp_holds c (compare1 s) (compare2 s)
    then pc s + word_of_int l else pc s + 2 * of_nat (length ws)\<rparr>)"
proof -
  obtain k where k: "k < 2" "ws = offset_words n l k"
    "vp64_within (l - (if k = 0 then 2 else 4)) (if k = 0 then 8 else 24)"
    using branch_words [OF assms(4,2,3)] by blast
  have "vp64_step h s = (\<lambda>off s. Running (vp_branch (vp_holds c (compare1 s) (compare2 s)) off s))
      (word_of_int (l - 2 * int (length ws))) (s\<lparr>pc := pc s + 2 * of_nat (length ws)\<rparr>)"
    unfolding k(2)
    by (rule offset_step [OF assms(1) _ k(1,3)]) (use assms(5) k in \<open>simp_all add: size_run_nth\<close>)
  then show ?thesis
    by (auto simp: vp_branch_def vp_pc_rel_def)
qed

lemma float_branch_step:
  assumes "opcode_of n = Some (OpFb c 0)" "0 < pass" "0 \<le> l * m0"
    "vp64_branch pass n l m0 = Some (ws, m)" "code_at (mem s) (pc s) ws"
  shows "vp64_step h s = Running (s\<lparr>pc := if vp_fholds c (compare_f1 s) (compare_f2 s)
    then pc s + word_of_int l else pc s + 2 * of_nat (length ws)\<rparr>)"
proof -
  obtain k where k: "k < 2" "ws = offset_words n l k"
    "vp64_within (l - (if k = 0 then 2 else 4)) (if k = 0 then 8 else 24)"
    using branch_words [OF assms(4,2,3)] by blast
  have "vp64_step h s = (\<lambda>off s. Running (vp_branch (vp_fholds c (compare_f1 s) (compare_f2 s)) off s))
      (word_of_int (l - 2 * int (length ws))) (s\<lparr>pc := pc s + 2 * of_nat (length ws)\<rparr>)"
    unfolding k(2)
    by (rule offset_step [OF assms(1) _ k(1,3)]) (use assms(5) k in \<open>simp_all add: size_run_nth\<close>)
  then show ?thesis
    by (auto simp: vp_branch_def vp_pc_rel_def)
qed

lemma call_step:
  assumes "opcode_of n = Some (OpCall 0)" "vp64_call_jmp_p n l = Some ws"
    "code_at (mem s) (pc s) ws"
  shows "vp64_step h s = vp_push_pc (s\<lparr>pc := pc s + 2 * of_nat (length ws)\<rparr>)
    (\<lambda>t. Running (t\<lparr>pc := pc t + word_of_int (l - 2 * int (length ws))\<rparr>))"
proof -
  obtain k where k: "k < 2" "ws = offset_words n l k"
    "vp64_within (l - (if k = 0 then 2 else 4)) (if k = 0 then 8 else 24)"
    using call_jmp_words [OF assms(2)] by blast
  have "vp64_step h s = vp_call (word_of_int (l - 2 * int (length ws)))
      (s\<lparr>pc := pc s + 2 * of_nat (length ws)\<rparr>)"
    unfolding k(2)
    by (rule offset_step [OF assms(1) _ k(1,3)]) (use assms(3) k in \<open>simp_all add: size_run_nth\<close>)
  then show ?thesis by (simp add: vp_call_def vp_pc_rel_def)
qed

lemma jmp_step:
  assumes "opcode_of n = Some (OpJmp 0)" "vp64_call_jmp_p n l = Some ws"
    "code_at (mem s) (pc s) ws"
  shows "vp64_step h s = Running (s\<lparr>pc := pc s + word_of_int l\<rparr>)"
proof -
  obtain k where k: "k < 2" "ws = offset_words n l k"
    "vp64_within (l - (if k = 0 then 2 else 4)) (if k = 0 then 8 else 24)"
    using call_jmp_words [OF assms(2)] by blast
  have "vp64_step h s = (\<lambda>off s. Running (vp_jmp off s)) (word_of_int (l - 2 * int (length ws)))
      (s\<lparr>pc := pc s + 2 * of_nat (length ws)\<rparr>)"
    unfolding k(2)
    by (rule offset_step [OF assms(1) _ k(1,3)]) (use assms(3) k in \<open>simp_all add: size_run_nth\<close>)
  then show ?thesis by (simp add: vp_jmp_def vp_pc_rel_def)
qed

lemma ir_step:
  assumes "opcode_of n = Some (OpIr t)" "vp64_ir n q c d = Some ws" "q < 16" "d < 16"
    "code_at (mem s) (pc s) ws"
  shows "vp64_step h s = vp_mem_ir t q (word_of_int c) d (s\<lparr>pc := pc s + 4\<rparr>)"
proof -
  have c: "vp64_within c 16" and ws: "ws = [emit_word n d (of_nat q), word_of_int c]"
    using assms(2) by (auto simp: vp64_ir_def split: if_splits)
  have n: "n < 256" using opcode_of_less [OF assms(1)] by simp
  have "sint (word_of_int c :: u16) = c"
    using c by (simp add: vp64_within_def int_word_sint)
  then have "(scast (word_of_int c :: u16) :: u64) = word_of_int c"
    by (metis scast_eq)
  then show ?thesis
    using step_emitted [of s n d "of_nat q"] assms ws n
    by (simp add: vd_i_code vd_dr_emit vd_sr_emit_reg add.commute)
qed

lemma shift_step:
  assumes "opcode_of n = Some (OpShCr f)" "vp64_shift_cr n c r = Some ws" "r < 16"
    "code_at (mem s) (pc s) ws" "c \<noteq> 0"
  shows "vp64_step h s = Running (vp_shift_cr f (word_of_int c) r (s\<lparr>pc := pc s + 4\<rparr>))"
proof -
  have c: "1 \<le> c" "c \<le> 63" and ws: "ws = [emit_word n r 0, word_of_int c]"
    using assms(2,5) by (auto simp: vp64_shift_cr_def split: if_splits)
  have n: "n < 256" using opcode_of_less [OF assms(1)] by simp
  have "uint (word_of_int c :: u16) = c"
    using c by (simp add: uint_word_of_int)
  then have "(ucast (word_of_int c :: u16) :: u64) = word_of_int c"
    by (metis ucast_eq)
  then show ?thesis
    using step_emitted [of s n r 0] assms ws n
    by (simp add: vd_sc_code vd_dr_emit add.commute)
qed

end
