(* ===== verification/Ieee_Real.thy ===== *)
theory Ieee_Real
  imports Ieee
begin

text \<open>
  The floats of the library \<open>Ieee\<close> against the real numbers they stand for: comparison and truncation
  are those of the reals, a whole number below 2 ^ 53 is held exactly, and a rounded number is
  between the whole multiples of its last place that the exact one is between.
\<close>

section \<open>The value of a float as a real\<close>

definition fin_real :: "bool \<Rightarrow> nat \<Rightarrow> int \<Rightarrow> real" where
  "fin_real s m e = real_of_int (signed_nat s m) * 2 powr real_of_int e"

definition real_trunc :: "real \<Rightarrow> int" where
  "real_trunc x = (if x < 0 then \<lceil>x\<rceil> else \<lfloor>x\<rfloor>)"

lemma fin_scaled_real:
  "b \<le> e \<Longrightarrow> real_of_int (fin_scaled s m e b) = fin_real s m e * 2 powr - real_of_int b"
  by (simp add: fin_scaled_def fin_real_def powr_minus powr_diff field_simps
      flip: powr_realpow)

lemma fin_less_real: "fp_less (Fin s m e) (Fin t n f) \<longleftrightarrow> fin_real s m e < fin_real t n f"
proof -
  have "fp_less (Fin s m e) (Fin t n f) \<longleftrightarrow>
      real_of_int (fin_scaled s m e (min e f)) < real_of_int (fin_scaled t n f (min e f))" by simp
  also have "\<dots> \<longleftrightarrow> fin_real s m e < fin_real t n f"
    by (simp only: fin_scaled_real min.cobounded1 min.cobounded2) simp
  finally show ?thesis .
qed

lemma fin_eq_real: "fp_eq (Fin s m e) (Fin t n f) \<longleftrightarrow> fin_real s m e = fin_real t n f"
proof -
  have "fp_eq (Fin s m e) (Fin t n f) \<longleftrightarrow>
      real_of_int (fin_scaled s m e (min e f)) = real_of_int (fin_scaled t n f (min e f))" by simp
  also have "\<dots> \<longleftrightarrow> fin_real s m e = fin_real t n f"
    by (simp only: fin_scaled_real min.cobounded1 min.cobounded2) simp
  finally show ?thesis .
qed

lemma fin_le_real: "fp_le (Fin s m e) (Fin t n f) \<longleftrightarrow> fin_real s m e \<le> fin_real t n f"
  unfolding fp_le_def fin_less_real fin_eq_real by auto

lemma fin_trunc_real: "fin_trunc s m e = real_trunc (fin_real s m e)"
proof -
  have "(if 0 \<le> e then m * 2 ^ nat e else m div 2 ^ nat (- e)) = nat \<lfloor>real m * 2 powr real_of_int e\<rfloor>"
  proof (cases "0 \<le> e")
    case True
    then have "real m * 2 powr real_of_int e = real (m * 2 ^ nat e)"
      by (simp flip: powr_realpow)
    then have "nat \<lfloor>real m * 2 powr real_of_int e\<rfloor> = m * 2 ^ nat e"
      by (metis floor_of_nat nat_int)
    then show ?thesis using True by simp
  next
    case False
    then have "real m * 2 powr real_of_int e = real m / real (2 ^ nat (- e))"
      by (simp add: powr_minus field_simps flip: powr_realpow)
    then have "nat \<lfloor>real m * 2 powr real_of_int e\<rfloor> = m div 2 ^ nat (- e)"
      by (metis floor_divide_of_nat_eq nat_int)
    then show ?thesis using False by simp
  qed
  moreover have "0 \<le> real m * 2 powr real_of_int e" by simp
  ultimately show ?thesis
    by (cases s; cases "real m * 2 powr real_of_int e = 0") (auto simp: fin_trunc_def fin_real_def real_trunc_def signed_nat_def
        ceiling_def not_less zero_le_mult_iff mult_less_0_iff)
qed


section \<open>What rounding gives\<close>

text \<open>The exponent and the fraction \<open>fp_round\<close> works out.\<close>

definition rnd_exp :: "fmt \<Rightarrow> nat \<Rightarrow> int \<Rightarrow> int" where
  "rnd_exp fm m e = max (fp_emin fm) (e + int (floorlog 2 m) - int (snd fm + 1))"

definition rnd_frac :: "int \<Rightarrow> nat \<Rightarrow> int \<Rightarrow> bool \<Rightarrow> nat" where
  "rnd_frac e' m e st =
     (if e' \<le> e then m * 2 ^ nat (e - e')
      else let d = nat (e' - e); q = m div 2 ^ d; r = m mod 2 ^ d; h = 2 ^ (d - 1)
           in if h < r \<or> (r = h \<and> (st \<or> odd q)) then q + 1 else q)"

lemma fp_round_rnd:
  "m \<noteq> 0 \<Longrightarrow> fp_round (eb, mb) m e st =
     min (nat (rnd_exp (eb, mb) m e - fp_emin (eb, mb)) * 2 ^ mb + rnd_frac (rnd_exp (eb, mb) m e) m e st)
         ((2 ^ eb - 1) * 2 ^ mb)"
  unfolding fp_round.simps Let_def rnd_exp_def rnd_frac_def snd_conv by (simp only: if_False)

lemma rnd_frac_bounds:
  fixes m mb eb :: nat and e :: int
  assumes "0 < m"
  defines "e' \<equiv> rnd_exp (eb, mb) m e"
  shows "rnd_frac e' m e st \<le> 2 ^ (mb + 1)"
    and "2 ^ mb \<le> rnd_frac e' m e st \<or> e' = fp_emin (eb, mb)"
proof -
  let ?L = "floorlog 2 m"
  have L: "2 ^ (?L - 1) \<le> m" "m < 2 ^ ?L" "0 < ?L"
    using floorlog_bounds [of m 2] assms(1) by (cases "floorlog 2 m"; simp)+
  have e': "e + int ?L - int (mb + 1) \<le> e'" unfolding e'_def rnd_exp_def by simp
  have mx: "e' = fp_emin (eb, mb) \<or> e' = e + int ?L - int (mb + 1)"
    unfolding e'_def rnd_exp_def by (auto simp: max_def)
  show "rnd_frac e' m e st \<le> 2 ^ (mb + 1)"
  proof (cases "e' \<le> e")
    case True
    then have "nat (e - e') \<le> mb + 1 - ?L" "?L \<le> mb + 1" using e' by linarith+
    then have "m * 2 ^ nat (e - e') \<le> 2 ^ ?L * 2 ^ (mb + 1 - ?L)"
      using L(2) by (intro mult_mono) (auto intro: power_increasing)
    also have "\<dots> = 2 ^ (mb + 1)" using \<open>?L \<le> mb + 1\<close> by (simp flip: power_add)
    finally show ?thesis using True by (simp add: rnd_frac_def)
  next
    case False
    define d where "d = nat (e' - e)"
    have "?L \<le> mb + 1 + d" using e' False unfolding d_def by linarith
    then have "m < 2 ^ (mb + 1) * 2 ^ d"
      using L(2) power_increasing [of ?L "mb + 1 + d" "2 :: nat"] by (simp add: power_add)
    then have "m div 2 ^ d < 2 ^ (mb + 1)" by (simp add: less_mult_imp_div_less)
    then show ?thesis using False by (auto simp: rnd_frac_def Let_def simp flip: d_def)
  qed
  show "2 ^ mb \<le> rnd_frac e' m e st \<or> e' = fp_emin (eb, mb)"
  proof (cases "e' = fp_emin (eb, mb)")
    case False
    then have x: "e' = e + int ?L - int (mb + 1)" using mx by simp
    show ?thesis
    proof (cases "e' \<le> e")
      case True
      then have "nat (e - e') = mb + 1 - ?L" "?L \<le> mb + 1" using x by linarith+
      then have "2 ^ mb = (2 :: nat) ^ (?L - 1) * 2 ^ nat (e - e')"
        using L(3) by (simp flip: power_add)
      also have "\<dots> \<le> m * 2 ^ nat (e - e')" using L(1) by simp
      finally show ?thesis using True by (simp add: rnd_frac_def)
    next
      case False
      define d where "d = nat (e' - e)"
      have "?L - 1 = mb + d" using x False L(3) unfolding d_def by linarith
      then have "2 ^ mb * 2 ^ d \<le> m" using L(1) by (simp add: power_add)
      then have "2 ^ mb \<le> m div 2 ^ d" by (simp add: less_eq_div_iff_mult_less_eq)
      then show ?thesis using False by (auto simp: rnd_frac_def Let_def simp flip: d_def)
    qed
  qed simp
qed

text \<open>Bits in and out: the number a rounded one is unpacked to.\<close>

lemma unpack_bits:
  assumes "q \<le> 2 ^ (mb + 1)" "2 ^ mb \<le> q \<or> k = 0" "k * 2 ^ mb + q < (2 ^ eb - 1) * 2 ^ mb" "0 < eb"
  shows "\<exists>q1 e1. fp_unpack (eb, mb) (k * 2 ^ mb + q) = Fin False q1 e1
    \<and> fin_real False q1 e1 = fin_real False q (fp_emin (eb, mb) + int k)"
proof -
  let ?n = "k * 2 ^ mb + q"
  have pos: "(0::nat) < 2 ^ mb" by simp
  have ediv: "?n div 2 ^ mb < 2 ^ eb - 1" by (rule less_mult_imp_div_less [OF assms(3)])
  then have emod: "?n div 2 ^ mb mod 2 ^ eb = ?n div 2 ^ mb" "?n div 2 ^ mb \<noteq> 2 ^ eb - 1" by simp_all
  have "?n < 2 ^ eb * 2 ^ mb"
    using assms(3) by (rule order.strict_trans2) (simp add: mult_le_mono1)
  then have s: "?n div 2 ^ (eb + mb) = 0" by (simp add: power_add)
  have un: "fp_unpack (eb, mb) ?n = (if ?n div 2 ^ mb = 0 then Fin False (?n mod 2 ^ mb) (fp_emin (eb, mb))
      else Fin False (2 ^ mb + ?n mod 2 ^ mb) (fp_emin (eb, mb) + int (?n div 2 ^ mb) - 1))"
    using emod s by (simp add: Let_def)
  consider "q < 2 ^ mb" "k = 0" | "2 ^ mb \<le> q" "q < 2 ^ (mb + 1)" | "q = 2 ^ (mb + 1)"
    using assms(1,2) by linarith
  then show ?thesis
  proof cases
    case 1
    then show ?thesis unfolding un by (simp del: fp_emin.simps)
  next
    case 2
    then obtain f where f: "q = 2 ^ mb + f" "f < 2 ^ mb" by (auto simp: le_iff_add)
    then have "?n = (k + 1) * 2 ^ mb + f" by simp
    then have "?n div 2 ^ mb = k + 1" "?n mod 2 ^ mb = f" using f(2) by simp_all
    then show ?thesis unfolding un using f by (simp del: fp_emin.simps)
  next
    case 3
    then have "?n = (k + 2) * 2 ^ mb" by simp
    then have "?n div 2 ^ mb = k + 2" "?n mod 2 ^ mb = 0" using pos by (simp_all only: nonzero_mult_div_cancel_right mod_mult_self2_is_0)
    then have "fp_unpack (eb, mb) ?n = Fin False (2 ^ mb) (fp_emin (eb, mb) + int k + 1)"
      unfolding un by (simp del: fp_emin.simps)
    moreover have "fin_real False (2 ^ mb) (e + 1) = fin_real False (2 ^ (mb + 1)) e" for e
      by (simp add: fin_real_def signed_nat_def powr_add)
    ultimately show ?thesis unfolding 3 by blast
  qed
qed

text \<open>The value of a positive number rounded, in the double's range.\<close>

lemma pack_value:
  assumes "m \<noteq> 0" "e + int (floorlog 2 m) \<le> 2 ^ (eb - 1) - 2" "1 < eb" "0 < mb"
  defines "e' \<equiv> rnd_exp (eb, mb) m e"
  shows "\<exists>q1 e1. fp_unpack (eb, mb) (fp_pack (eb, mb) False m e st) = Fin False q1 e1
    \<and> fin_real False q1 e1 = fin_real False (rnd_frac e' m e st) e'"
proof -
  let ?q = "rnd_frac e' m e st" and ?emin = "fp_emin (eb, mb)"
  define k where "k = nat (e' - ?emin)"
  have emin: "?emin = 2 - 2 ^ (eb - 1) - int mb" by simp
  have ge: "?emin \<le> e'" unfolding e'_def rnd_exp_def by simp
  then have e': "e' = ?emin + int k" unfolding k_def by simp
  have q: "?q \<le> 2 ^ (mb + 1)" "2 ^ mb \<le> ?q \<or> k = 0"
    using rnd_frac_bounds [where m = m and eb = eb and mb = mb and e = e and st = st] assms(1)
    unfolding e'_def [symmetric] k_def by auto
  have big: "(2 :: int) ^ eb = 2 * 2 ^ (eb - 1)" using assms(3) by (cases eb) simp_all
  have "(2 :: int) \<le> 2 ^ (eb - 1)" using assms(3) self_le_power [of "2 :: int" "eb - 1"] by simp
  then have "int k + 2 \<le> 2 ^ eb - 2"
    using assms(2) big unfolding k_def e'_def rnd_exp_def emin by auto
  then have k2: "k + 2 \<le> 2 ^ eb - 2" by (simp add: of_nat_diff flip: of_nat_le_iff [where 'a = int])
  have "k * 2 ^ mb + ?q \<le> (k + 2) * 2 ^ mb" using q(1) by (simp add: algebra_simps)
  also have "\<dots> \<le> (2 ^ eb - 2) * 2 ^ mb" using k2 by (rule mult_le_mono1)
  also have "\<dots> < (2 ^ eb - 1) * 2 ^ mb" using k2 by simp
  finally have lt: "k * 2 ^ mb + ?q < (2 ^ eb - 1) * 2 ^ mb" .
  have "fp_pack (eb, mb) False m e st = k * 2 ^ mb + ?q"
    unfolding fp_pack_def fp_round_rnd [OF assms(1)] e'_def [symmetric] k_def [symmetric]
    using lt by simp
  then show ?thesis
    using unpack_bits [OF q lt] assms(3) e' by simp
qed

text \<open>The fraction against the exact number.\<close>

lemma rnd_frac_exact:
  assumes "real_of_int k * 2 powr real_of_int e' = real m * 2 powr real_of_int e"
  shows "int (rnd_frac e' m e False) = k"
proof (cases "e' \<le> e")
  case True
  have "real m * 2 powr real_of_int e = real m * 2 ^ nat (e - e') * 2 powr real_of_int e'"
    using True by (simp add: powr_add [symmetric] flip: powr_realpow)
  with assms have "real_of_int k = real m * 2 ^ nat (e - e')" by simp
  then have "real_of_int k = real_of_int (int (m * 2 ^ nat (e - e')))" by simp
  then have "k = int (m * 2 ^ nat (e - e'))" by (simp only: of_int_eq_iff)
  then show ?thesis using True by (simp add: rnd_frac_def)
next
  case False
  define d where "d = nat (e' - e)"
  have "real_of_int k * 2 powr real_of_int e' = real_of_int k * 2 ^ d * 2 powr real_of_int e"
    using False unfolding d_def by (simp add: powr_add [symmetric] flip: powr_realpow)
  with assms have "real m = real_of_int k * 2 ^ d" by simp
  then have "real_of_int (int m) = real_of_int (k * 2 ^ d)" by simp
  then have m: "int m = k * 2 ^ d" by (simp only: of_int_eq_iff)
  then have "0 \<le> k" using zero_le_mult_iff [of k "2 ^ d"] by simp
  then obtain n where n: "k = int n" using nonneg_int_cases by blast
  then have "int m = int (n * 2 ^ d)" using m by simp
  then have "m = n * 2 ^ d" by (simp only: of_nat_eq_iff)
  then show ?thesis using False n by (simp add: rnd_frac_def Let_def flip: d_def)
qed

lemma rnd_frac_near:
  assumes "e < e'"
  shows "real (m div 2 ^ nat (e' - e)) \<le> real (rnd_frac e' m e st)"
    and "real (rnd_frac e' m e st) \<le> real (m div 2 ^ nat (e' - e)) + 1"
  using assms by (auto simp: rnd_frac_def Let_def)

section \<open>Doubles\<close>

definition f64_is :: "u64 \<Rightarrow> real \<Rightarrow> bool" where
  "f64_is w x \<longleftrightarrow> (\<exists>m e. f64 w = Fin False m e \<and> fin_real False m e = x)"

lemma fin_real_pos: "fin_real False m e = real m * 2 powr real_of_int e"
  by (simp add: fin_real_def signed_nat_def)

lemma f64_word: "fp_unpack (11, 52) (unat (word_of_nat (fp_pack (11, 52) False m e st) :: u64)) =
    fp_unpack (11, 52) (fp_pack (11, 52) False m e st)"
proof -
  have "fp_pack (11, 52) False m e st \<le> (2 ^ 11 - 1) * 2 ^ 52"
    unfolding fp_pack_def fp_sign.simps fp_round.simps Let_def by simp
  then show ?thesis by (simp add: unat_of_nat)
qed

lemma pack_zero: "f64_is (word_of_nat (fp_pack (11, 52) False 0 e False)) 0"
  by (simp add: f64_is_def f64_def binary64_def fp_pack_def fin_real_def signed_nat_def)

lemma floorlog_real: "m \<noteq> 0 \<Longrightarrow> 2 powr (real (floorlog 2 m) - 1) \<le> real m"
proof -
  assume m: "m \<noteq> 0"
  then have L: "2 ^ (floorlog 2 m - 1) \<le> m" "0 < floorlog 2 m"
    using floorlog_bounds [of m 2] by (cases "floorlog 2 m"; simp)+
  then have "real (2 ^ (floorlog 2 m - 1)) \<le> real m" by (simp only: of_nat_le_iff)
  then show ?thesis using L(2) by (simp add: of_nat_diff flip: powr_realpow)
qed

lemma floorlog_value:
  assumes "m \<noteq> 0" "real m * 2 powr real_of_int e < 2 ^ k"
  shows "e + int (floorlog 2 m) \<le> int k"
proof -
  have "2 powr (real (floorlog 2 m) - 1) * 2 powr real_of_int e < 2 powr real k"
    using floorlog_real [OF assms(1)] assms(2)
    by (simp add: powr_realpow) (meson le_less_trans mult_right_mono powr_ge_zero)
  then have "real (floorlog 2 m) - 1 + real_of_int e < real k"
    by (simp flip: powr_add)
  then show ?thesis by linarith
qed

lemma pack_whole:
  assumes "real m * 2 powr real_of_int e = real N" "N < 2 ^ 53"
  shows "f64_is (word_of_nat (fp_pack (11, 52) False m e False)) (real N)"
proof (cases "m = 0")
  case True
  then show ?thesis using assms(1) pack_zero by simp
next
  case False
  let ?e' = "rnd_exp (11, 52) m e"
  have "real N < real (2 ^ 53)" using assms(2) by (simp only: of_nat_less_iff)
  then have "real m * 2 powr real_of_int e < 2 ^ 53" unfolding assms(1) by simp
  from floorlog_value [OF False this] have L: "e + int (floorlog 2 m) \<le> 53" by simp
  then have e': "?e' \<le> 0" by (simp add: rnd_exp_def)
  have "real_of_int (int N * 2 ^ nat (- ?e')) * 2 powr real_of_int ?e' = real N"
    using e' by (simp add: powr_minus flip: powr_realpow)
  then have q: "int (rnd_frac ?e' m e False) = int N * 2 ^ nat (- ?e')"
    using rnd_frac_exact [of "int N * 2 ^ nat (- ?e')" ?e' m e] assms(1) by simp
  have "real (rnd_frac ?e' m e False) = real_of_int (int N * 2 ^ nat (- ?e'))"
    using q by (metis of_int_of_nat_eq)
  then have "fin_real False (rnd_frac ?e' m e False) ?e' = real N"
    using e' by (simp add: fin_real_pos powr_minus flip: powr_realpow)
  then show ?thesis
    using pack_value [of m e 11 52 False] False L
    by (auto simp: f64_is_def f64_def binary64_def f64_word simp del: fp_unpack.simps)
qed

lemma f64_of_nat_is: "k < 2 ^ 53 \<Longrightarrow> f64_is (f64_of_int (int k)) (real k)"
  using pack_whole [of k 0 k] by (simp add: f64_of_int_def fp_of_int_def binary64_def)

lemma f64_mul_is:
  assumes "f64_is a (real A)" "f64_is b (real B)" "A * B < 2 ^ 53"
  shows "f64_is (f64_mul u a b) (real (A * B))"
proof -
  obtain m e n f where ab: "f64 a = Fin False m e" "fin_real False m e = real A"
      "f64 b = Fin False n f" "fin_real False n f = real B"
    using assms(1,2) by (auto simp: f64_is_def)
  have "real (m * n) * 2 powr real_of_int (e + f) = real (A * B)"
    using ab(2,4) [symmetric] by (simp add: fin_real_pos powr_add)
  then show ?thesis
    using pack_whole [of "m * n" "e + f" "A * B"] assms(3)
    by (simp add: f64_mul_def f64_lift_def ab binary64_def)
qed

text \<open>
  A quotient of whole numbers, as a double: it is never below the whole part of the exact one, and
  over it by less than its last place.
\<close>

lemma f64_div_near:
  assumes "f64_is a (real A)" "f64_is b (real B)" "0 < B" "real A / real B < 2 ^ j" "j \<le> 53"
  shows "\<exists>y. f64_is (f64_div u a b) y \<and> real (A div B) \<le> y
    \<and> y \<le> real A / real B + 2 powr (real j - 53)"
proof -
  obtain m e n f where ab: "f64 a = Fin False m e" "fin_real False m e = real A"
      "f64 b = Fin False n f" "fin_real False n f = real B"
    using assms(1,2) by (auto simp: f64_is_def)
  have n: "n \<noteq> 0" using ab(4) assms(3) by (cases "n = 0") (simp_all add: fin_real_pos)
  define k where "k = floorlog 2 n + 52 + 3"
  define q where "q = m * 2 ^ k div n"
  define st where "st \<longleftrightarrow> m * 2 ^ k mod n \<noteq> 0"
  define E where "E = e - f - int k"
  have div: "f64_div u a b = word_of_nat (fp_pack (11, 52) False q E st)"
    using n by (simp add: f64_div_def f64_lift_def ab binary64_def Let_def k_def q_def st_def E_def)
  define x where "x = real A / real B"
  have x: "x = real (m * 2 ^ k) / real n * 2 powr real_of_int E"
    unfolding x_def ab(2,4) [symmetric] E_def
    by (simp add: fin_real_pos powr_diff powr_realpow)
  have "m * 2 ^ k < (q + 1) * n"
    unfolding q_def using n dividend_less_times_div [of n "m * 2 ^ k"] by (simp add: mult.commute)
  then have "real (m * 2 ^ k) < real ((q + 1) * n)" by (simp only: of_nat_less_iff)
  then have "real (m * 2 ^ k) / real n < real q + 1" using n by (simp add: pos_divide_less_eq algebra_simps)
  moreover have "real q \<le> real (m * 2 ^ k) / real n"
    unfolding q_def by (rule of_nat_div_le_of_nat)
  ultimately have qx: "real q * 2 powr real_of_int E \<le> x" "x < (real q + 1) * 2 powr real_of_int E"
    unfolding x
    by - ((rule mult_right_mono, assumption, simp), (rule mult_strict_right_mono, assumption, simp))
  have n_lt: "n < 2 ^ floorlog 2 n" using floorlog_bounds [of n 2] n by simp
  have q_big: "2 ^ 55 \<le> q" if "m \<noteq> 0"
  proof -
    have "2 ^ 55 * n \<le> 1 * 2 ^ k" using n_lt unfolding k_def by (simp add: power_add)
    also have "\<dots> \<le> m * 2 ^ k" using that by (intro mult_le_mono1) simp
    finally show ?thesis unfolding q_def using n by (simp add: less_eq_div_iff_mult_less_eq)
  qed
  show ?thesis
  proof (cases "m = 0")
    case True
    then have "A = 0" using ab(2) by (simp add: fin_real_pos)
    moreover have "f64_is (f64_div u a b) 0"
      unfolding div using pack_zero [of E] True by (simp add: q_def st_def)
    ultimately show ?thesis by (intro exI [of _ 0]) simp
  next
    case False
    note q = q_big [OF False]
    then have q0: "q \<noteq> 0" by auto
    define e' where "e' = rnd_exp (11, 52) q E"
    define d where "d = nat (e' - E)"
    have "real q * 2 powr real_of_int E < 2 ^ j" using qx(1) assms(4) unfolding x_def by linarith
    from floorlog_value [OF q0 this] have L: "E + int (floorlog 2 q) \<le> int j" .
    have "56 \<le> floorlog 2 q" using floorlog_ge_SucI [of 2 55 q] q by simp
    then have Ee: "E < e'" unfolding e'_def rnd_exp_def by simp
    then have d: "e' = E + int d" unfolding d_def by simp
    have e'j: "e' \<le> int j - 53" using L assms(5) unfolding e'_def rnd_exp_def by auto
    have pw: "2 powr real_of_int e' = 2 ^ d * 2 powr real_of_int E"
      unfolding d by (simp add: powr_add powr_realpow)
    let ?r = "rnd_frac e' q E st" and ?y = "fin_real False (rnd_frac e' q E st) e'"
    have near: "real (q div 2 ^ d) \<le> real ?r" "real ?r \<le> real (q div 2 ^ d) + 1"
      using rnd_frac_near [OF Ee, of q st] unfolding d_def by simp_all
    have val: "f64_is (f64_div u a b) ?y"
      using pack_value [OF q0, of E 11 52 st] L assms(5)
      by (auto simp: f64_is_def f64_def binary64_def div f64_word e'_def simp del: fp_unpack.simps)
    have "real (q div 2 ^ d) * 2 ^ d \<le> real q"
      by (metis of_nat_le_iff of_nat_mult of_nat_numeral of_nat_power div_times_less_eq_dividend)
    then have "real (q div 2 ^ d) * 2 powr real_of_int e' \<le> x"
      unfolding pw using qx(1) by (smt (verit) mult.assoc mult_right_mono powr_ge_zero)
    moreover have "?y \<le> (real (q div 2 ^ d) + 1) * 2 powr real_of_int e'"
      unfolding fin_real_pos using near(2) by (intro mult_right_mono) simp_all
    moreover have "2 powr real_of_int e' \<le> 2 powr (real j - 53)" using e'j by simp
    ultimately have up: "?y \<le> x + 2 powr (real j - 53)" unfolding distrib_right mult_1_left by linarith
    have "real (A div B) \<le> x" unfolding x_def by (rule of_nat_div_le_of_nat)
    then have "real (A div B) < (real q + 1) * 2 powr real_of_int E" using qx(2) by linarith
    define c where "c = nat (- e')"
    have c: "e' = - int c" using e'j assms(5) unfolding c_def by simp
    have "2 powr real_of_int E = 1 / 2 ^ (c + d)"
    proof -
      have "real_of_int E = - real (c + d)" using c d by simp
      then show ?thesis by (simp only: powr_minus_divide powr_realpow zero_less_numeral)
    qed
    with \<open>real (A div B) < _\<close> have "real (A div B) * 2 ^ (c + d) < real q + 1"
      by (simp add: pos_less_divide_eq)
    then have "real (A div B * 2 ^ (c + d)) < real (q + 1)" by simp
    then have "A div B * 2 ^ (c + d) < q + 1" by (simp only: of_nat_less_iff)
    then have "A div B * 2 ^ c * 2 ^ d \<le> q" by (simp add: power_add mult.assoc)
    then have "A div B * 2 ^ c \<le> q div 2 ^ d" by (simp add: less_eq_div_iff_mult_less_eq)
    then have "real (A div B * 2 ^ c) \<le> real ?r" using near(1) by (meson of_nat_le_iff order.trans)
    then have "real (A div B) \<le> real ?r / 2 ^ c" by (simp add: pos_le_divide_eq)
    also have "\<dots> = ?y" by (simp add: fin_real_pos c powr_minus_divide powr_realpow)
    finally show ?thesis using val up unfolding x_def by blast
  qed
qed

end
