(* ===== verification/Vp64_Props.thy ===== *)
theory Vp64_Props
  imports Vp64_Emit Ieee_Real
begin

text \<open>
  What the instructions of src/host/vp64.cpp mean, whatever code they are in: division, the shifts,
  a real made an integer, the tests of the float branches, calls and returns, and the invariant of
  the machine's loop.
\<close>

section \<open>A real made an integer\<close>

lemma f64_ends:
  "f64 f64_2p63 = Fin False (2 ^ 52) 11" "f64 f64_m2p63 = Fin True (2 ^ 52) 11"
  by (simp_all add: f64_def f64_2p63_def f64_m2p63_def binary64_def)

lemma fin_real_ends: "fin_real False (2 ^ 52) 11 = 2 ^ 63" "fin_real True (2 ^ 52) 11 = - (2 ^ 63)"
  by (simp_all add: fin_real_def signed_nat_def flip: powr_realpow powr_add)

text \<open>A real made an integer is truncated toward 0, held at the ends of 64 bits, and 0 for a NaN.\<close>

theorem f2i_spec:
  "sint (vp_f2i f) = (case f64 f of NaN \<Rightarrow> 0
     | Inf s \<Rightarrow> if s then - (2 ^ 63) else 2 ^ 63 - 1
     | Fin s m e \<Rightarrow> max (- (2 ^ 63)) (min (2 ^ 63 - 1) (real_trunc (fin_real s m e))))"
proof (cases "f64 f")
  case (Fin s m e)
  let ?x = "fin_real s m e"
  have eq: "fp_eq (f64 f) (f64 f)" unfolding Fin fin_eq_real by simp
  have hi: "fp_le (f64 f64_2p63) (f64 f) \<longleftrightarrow> 2 ^ 63 \<le> ?x"
    and lo: "fp_le (f64 f) (f64 f64_m2p63) \<longleftrightarrow> ?x \<le> - (2 ^ 63)"
    unfolding Fin f64_ends fin_le_real fin_real_ends by simp_all
  note hi = hi [unfolded Fin] and lo = lo [unfolded Fin] and eq = eq [unfolded Fin]
  consider "2 ^ 63 \<le> ?x" | "?x \<le> - (2 ^ 63)" | "- (2 ^ 63) < ?x" "?x < 2 ^ 63" by linarith
  then show ?thesis
  proof cases
    case 1
    then have "2 ^ 63 \<le> real_trunc ?x" by (simp add: real_trunc_def le_floor_iff)
    then show ?thesis using 1 by (simp add: vp_f2i_def eq hi Fin)
  next
    case 2
    then have "real_trunc ?x \<le> - (2 ^ 63)" by (simp add: real_trunc_def ceiling_le_iff)
    then show ?thesis using 2 by (simp add: vp_f2i_def eq hi lo Fin)
  next
    case 3
    then have "- (2 ^ 63) \<le> real_trunc ?x" "real_trunc ?x < 2 ^ 63"
      by (auto simp: real_trunc_def floor_less_iff le_floor_iff le_ceiling_iff ceiling_less_iff)
    then show ?thesis
      using 3 by (simp add: vp_f2i_def eq hi lo Fin fin_trunc_real sint_of_int64)
  qed
next
  case (Inf s)
  then show ?thesis
    by (cases s) (simp_all add: vp_f2i_def f64_ends fp_le_def)
qed (simp add: vp_f2i_def)

section \<open>Float branches\<close>

lemma fp_less_asym: "fp_less x y \<Longrightarrow> \<not> fp_less y x"
  by (cases x; cases y) (auto simp: min.commute)

text \<open>With a NaN only bne branches; otherwise the six float tests are the comparisons of one order.\<close>

theorem float_tests:
  "if f64 a = NaN \<or> f64 b = NaN
   then \<forall>c. vp_fholds c a b \<longleftrightarrow> c = CNe
   else (vp_fholds CNe a b \<longleftrightarrow> \<not> vp_fholds CEq a b)
     \<and> (vp_fholds CGe a b \<longleftrightarrow> \<not> vp_fholds CLt a b)
     \<and> (vp_fholds CGt a b \<longleftrightarrow> \<not> vp_fholds CLe a b)
     \<and> (vp_fholds CGe a b \<and> vp_fholds CLe a b \<longleftrightarrow> vp_fholds CEq a b)"
proof (cases "f64 a = NaN \<or> f64 b = NaN")
  case True
  have "vp_fholds c a b \<longleftrightarrow> c = CNe" for c
    using True by (cases c) auto
  with True show ?thesis by simp
next
  case False
  have eq: "fp_eq (f64 b) (f64 a) = fp_eq (f64 a) (f64 b)"
    by (cases "f64 a"; cases "f64 b") (auto simp: min.commute)
  show ?thesis
    using False fp_less_asym [of "f64 a" "f64 b"]
    by (auto simp: fp_less_iff_not_le) (auto simp: fp_le_def eq fp_less_asym)
qed

section \<open>Division\<close>

text \<open>C16: A signed divide gives quotient and remainder with q * d + r = n, the remainder smaller than the divisor with the sign of the number, for all inputs, 0 and -1 divisors included.\<close>

theorem division_spec:
  assumes "sr \<noteq> dr" "sr < length (regs s)" "dr < length (regs s)"
  shows "let s' = vp_div_rrr sr dr drr s; n = reg s dr; d = reg s drr; q = reg s' dr; r = reg s' sr
    in q * d + r = n
     \<and> (d \<noteq> 0 \<longrightarrow> \<bar>sint r\<bar> < \<bar>sint d\<bar> \<and> (r = 0 \<or> sgn (sint r) = sgn (sint n)))
     \<and> (d = 0 \<longrightarrow> q = 0)
     \<and> s' = s\<lparr>regs := (regs s)[dr := q, sr := r]\<rparr>"
proof -
  let ?n = "reg s dr" and ?d = "reg s drr"
  consider "?d = 0" | "?d = - 1" | "?d \<noteq> 0" "?d \<noteq> - 1" by blast
  then show ?thesis
  proof cases
    case 1
    then show ?thesis
      using assms by (simp add: vp_div_rrr_def set_reg_def Let_def list_update_swap)
  next
    case 2
    then show ?thesis
      using assms by (simp add: vp_div_rrr_def set_reg_def Let_def)
  next
    case 3
    let ?q = "word_of_int (sint ?n sdiv sint ?d) :: u64" and ?r = "word_of_int (sint ?n smod sint ?d) :: u64"
    have s': "vp_div_rrr sr dr drr s = s\<lparr>regs := (regs s)[dr := ?q, sr := ?r]\<rparr>"
      using 3 by (simp add: vp_div_rrr_def set_reg_def Let_def)
    have d: "sint ?d \<noteq> 0" using 3(1) by (metis signed_0 signed_word_eqI)
    have small: "\<bar>sint ?n smod sint ?d\<bar> < \<bar>sint ?d\<bar>" by (rule smod_abs_less [OF d])
    moreover have "\<bar>sint ?d\<bar> \<le> 2 ^ 63" using sint_bounds64 [of ?d] by linarith
    ultimately have r: "sint ?r = sint ?n smod sint ?d"
      by (intro sint_of_int64) linarith+
    have "?q * ?d + ?r = word_of_int ((sint ?n sdiv sint ?d) * sint ?d + sint ?n smod sint ?d)"
      by simp
    also have "\<dots> = ?n" by (simp add: sdiv_mult_smod_eq)
    finally show ?thesis
      using assms 3 small smod_sgn [of "sint ?n" "sint ?d"] unfolding s' Let_def
      by (auto simp: r nth_list_update)
  qed
qed

section \<open>Compare and branch\<close>

lemma code_at_append:
  "code_at m a (us @ ws) \<longleftrightarrow> code_at m a us \<and> code_at m (a + 2 * of_nat (length us)) ws"
  by (induction us arbitrary: a) (simp_all add: algebra_simps)

text \<open>C2: A compare with a constant and the branch the assembler sizes for a label run to the label or to the next instruction, by the signed test.\<close>

theorem compare_and_branch:
  assumes "opcode_of nc = Some (OpCr ACmp 0)" "opcode_of n = Some (OpB c 0)" "r < 16"
    "0 < pass" "0 \<le> l * m0" "vp64_branch pass n l m0 = Some (ws, m)"
    "code_at (mem s) (pc s) (vp64_cr nc k r @ ws)"
  shows "vp64_run h 2 s = Running (s\<lparr>compare1 := reg s r, compare2 := k,
    pc := pc s + 2 * of_nat (length (vp64_cr nc k r)) +
      (if vp_holds c (reg s r) k then word_of_int l else 2 * of_nat (length ws))\<rparr>)"
proof -
  let ?t = "s\<lparr>pc := pc s + 2 * of_nat (length (vp64_cr nc k r)), compare1 := reg s r, compare2 := k\<rparr>"
  have c: "code_at (mem s) (pc s) (vp64_cr nc k r)" "code_at (mem ?t) (pc ?t) ws"
    using assms(7) by (simp_all add: code_at_append)
  have "vp64_step h s = Running ?t"
    using alu_cr_step [OF assms(1,3) c(1)] by simp
  moreover have "vp64_step h ?t = Running (?t\<lparr>pc := if vp_holds c (compare1 ?t) (compare2 ?t)
      then pc ?t + word_of_int l else pc ?t + 2 * of_nat (length ws)\<rparr>)"
    by (rule branch_step [OF assms(2,4,5,6) c(2)])
  ultimately show ?thesis
    by (simp add: numeral_2_eq_2)
qed

section \<open>Calls and returns\<close>

text \<open>C15: A call and the return at its target lead on to the next instruction with all registers as they were, and memory changed only in the 8 bytes of the stack.\<close>

theorem call_and_return:
  assumes "opcode_of n = Some (OpCall 0)" "opcode_of ret = Some OpRet"
    "vp64_call_jmp_p n l = Some ws" "code_at (mem s) (pc s) ws"
    "code_at (mem s) (pc s + word_of_int l) [emit_word ret 0 0]"
    "length (regs s) = 16" "cells (reg s 15 - 8) 8 \<subseteq> dom (mem s)"
    "cells (reg s 15 - 8) 8 \<inter> cells (pc s + word_of_int l) 2 = {}"
  shows "\<exists>m. vp64_run h 2 s = Running (s\<lparr>pc := pc s + 2 * of_nat (length ws), mem := m\<rparr>)
    \<and> dom m = dom (mem s) \<and> (\<forall>a. a \<notin> cells (reg s 15 - 8) 8 \<longrightarrow> m a = mem s a)"
proof -
  let ?sp = "reg s 15 - 8" and ?returns = "pc s + 2 * of_nat (length ws)"
  obtain m where m: "store_le (mem s) ?sp 8 (unat ?returns) = Some m"
    using assms(7) store_le_None [of "mem s" ?sp 8] by fastforce
  let ?t = "s\<lparr>regs := (regs s)[15 := ?sp], mem := m, pc := pc s + word_of_int l\<rparr>"
  have w: "mwrite I64 (mem s) ?sp ?returns = Some m"
    using m unsigned_less [where ?'a = nat, of ?returns] by (simp add: mwrite_def)
  have call: "vp64_step h s = Running ?t"
    unfolding call_step [OF assms(1,3,4)]
    using w assms(6) by (simp add: vp_push_pc_def set_reg_def with_write_def)
  have "load_le m (pc ?t) 2 = load_le (mem s) (pc ?t) 2"
    using ram.ld_st_apart [OF m] assms(8) by simp
  then have "load_le (mem ?t) (pc ?t) 2 = Some (unat (emit_word ret 0 0))"
    using assms(5) by simp
  then have "vp64_step h ?t = vp_pop_pc (?t\<lparr>pc := pc ?t + 2\<rparr>)"
    using step_emitted [OF _ assms(2)] by simp
  also have "\<dots> = Running (s\<lparr>pc := ?returns, mem := m\<rparr>)"
    using mread_mwrite_64 [OF w] assms(6)
    by (simp add: vp_pop_pc_def with_read_def set_reg_def)
  finally have "vp64_run h 2 s = Running (s\<lparr>pc := ?returns, mem := m\<rparr>)"
    using call by (simp add: numeral_2_eq_2)
  then show ?thesis
    using store_le_dom [OF m] store_le_frame [OF m] by blast
qed

section \<open>The invariant of the loop\<close>

definition vm_ok :: "vm \<Rightarrow> bool" where
  "vm_ok s \<longleftrightarrow> length (regs s) = 16 \<and> length (fregs s) = 16"

text \<open>What a turn leaves as it was: the sizes of the register files, and what memory is there.\<close>

definition same_shape :: "vm \<Rightarrow> vm \<Rightarrow> bool" where
  "same_shape s t \<longleftrightarrow> length (regs t) = length (regs s) \<and> length (fregs t) = length (fregs s)
     \<and> dom (mem t) = dom (mem s)"

fun leads :: "(vm \<Rightarrow> bool) \<Rightarrow> outcome \<Rightarrow> bool" where
  "leads P (Running t) = P t"
| "leads P _ = True"

lemma leads_read [intro]: "(\<And>v. leads P (k v)) \<Longrightarrow> leads P (with_read t a s k)"
  by (simp add: with_read_def split: option.split)

lemma leads_write [intro]:
  "(\<And>m. mwrite t (mem s) a v = Some m \<Longrightarrow> leads P (k (s\<lparr>mem := m\<rparr>))) \<Longrightarrow> leads P (with_write t a v s k)"
  by (simp add: with_write_def split: option.split)

lemma leads_reg [intro]: "(\<And>r. r < 16 \<Longrightarrow> leads P (k r)) \<Longrightarrow> leads P (with_reg w k)"
  by (simp add: with_reg_def)

lemma leads_sc [intro]: "(\<And>w. leads P (k w (s\<lparr>pc := pc s + 2\<rparr>))) \<Longrightarrow> leads P (vd_sc s k)"
  unfolding vd_sc_def by blast

lemma leads_i [intro]: "(\<And>w. leads P (k w (s\<lparr>pc := pc s + 2\<rparr>))) \<Longrightarrow> leads P (vd_i s k)"
  unfolding vd_i_def by blast

lemma leads_c1 [intro]: "(\<And>c. leads P (k c (s\<lparr>pc := pc s + 2\<rparr>))) \<Longrightarrow> leads P (vd_c1 ir s k)"
  unfolding vd_c1_def by blast

lemma leads_c [intro]: "(\<And>c p. leads P (k c (s\<lparr>pc := p\<rparr>))) \<Longrightarrow> leads P (vd_c n ir s k)"
  unfolding vd_c.simps vd_c1_def vd_c2_def vd_c3_def
  by (auto intro!: leads_sc leads_i) (metis (no_types) vm.surjective vm.update_convs(3))+

lemma leads_o [intro]: "(\<And>c p. leads P (k c (s\<lparr>pc := p\<rparr>))) \<Longrightarrow> leads P (vd_o n ir s k)"
  unfolding vd_o.simps vd_o1_def
  by (auto intro!: leads_i) (metis (no_types) vm.surjective vm.update_convs(3))+

text \<open>The memory a host function returns is mapped where it was.\<close>

definition host_keeps_map :: "host_env \<Rightarrow> bool" where
  "host_keeps_map h \<longleftrightarrow>
     (\<forall>f args m r m'. host_call h f args m = Some (r, m') \<longrightarrow> dom m' = dom m)"

lemma shape_refl [simp]: "same_shape s s"
  by (simp add: same_shape_def)

lemma shape_update [simp]:
  "same_shape s (t\<lparr>pc := p\<rparr>) = same_shape s t" "same_shape (s\<lparr>pc := p\<rparr>) t = same_shape s t"
  "same_shape s (t\<lparr>compare1 := c\<rparr>) = same_shape s t" "same_shape s (t\<lparr>compare2 := c\<rparr>) = same_shape s t"
  "same_shape s (t\<lparr>compare_f1 := c\<rparr>) = same_shape s t"
  "same_shape s (t\<lparr>compare_f2 := c\<rparr>) = same_shape s t"
  "same_shape s (t\<lparr>sync := y\<rparr>) = same_shape s t" "same_shape s (t\<lparr>printed := l\<rparr>) = same_shape s t"
  "same_shape s (set_reg r v t) = same_shape s t" "same_shape s (set_freg r v t) = same_shape s t"
  by (auto simp: same_shape_def set_reg_def set_freg_def)

lemma shape_pc [simp]: "same_shape (s\<lparr>pc := p\<rparr>) = same_shape s"
  by (simp add: fun_eq_iff)

lemma shape_write [simp]: "mwrite t (mem u) a v = Some m \<Longrightarrow> same_shape s (u\<lparr>mem := m\<rparr>) = same_shape s u"
  by (simp add: same_shape_def mwrite_dom)

lemma leads_running: "P t \<Longrightarrow> leads P (Running t)"
  by simp

lemmas leads_intros = leads_read leads_write leads_reg leads_sc leads_i leads_c1 leads_c leads_o leads_running

lemma regular_shape [simp]:
  "same_shape s (vp_alu_cr a c d t) = same_shape s t" "same_shape s (vp_alu_rr a q d t) = same_shape s t"
  "same_shape s (vp_ff u f q d t) = same_shape s t"
  by ((cases a; simp) | (cases f; simp))+

lemmas register_ops = vp_shift_cr_def vp_shift_rr_def vp_lnot_rr_def vp_land_rr_def vp_swp_rr_def
  vp_ext_rr_def vp_div_rrr_def vp_div_rrr_u_def vp_minmax_cr_def vp_minmax_rr_def vp_abs_rr_def
  vp_set_cr_def vp_set_rr_def vp_lea_i_def vp_lea_d_def vp_branch_def vp_jmp_def vp_jmp_r_def
  vp_lea_p_def vp_sync_def vp_brk_def vp_cvt_rf_def vp_cvt_fr_def vp_cpy_rf_def vp_cpy_fr_def
  vp_cmp_f_def

lemmas memory_ops = vp_mem_ir_def vp_mem_ri_def vp_mem_dr_def vp_mem_rd_def vp_cpy_if_def
  vp_cpy_fi_def vp_cpy_df_def vp_cpy_fd_def vp_push_pc_def vp_pop_pc_def vp_pc_ind_def vp_call_def
  vp_call_p_def vp_jmp_p_def vp_call_r_def vp_call_i_def vp_jmp_i_def vp_cpy_pr_def

lemma exec_shape:
  assumes "host_keeps_map h"
  shows "leads (same_shape s) (exec h op ir s)"
proof -
  have host: "leads (same_shape s) (vp_call_abi h n b off (s\<lparr>pc := p\<rparr>))" for n b off p
    unfolding vp_call_abi_def
    using assms by (intro leads_intros) (auto simp: host_keeps_map_def same_shape_def set_reg_def
      split: option.split)
  show ?thesis
    by (cases op) (auto intro!: leads_intros host simp: register_ops memory_ops Let_def)
qed

lemma step_shape:
  assumes "host_keeps_map h" "vp64_step h s = Running t"
  shows "same_shape s t"
proof -
  have "leads (same_shape s) (vp64_step h s)"
    unfolding vp64_step_def
  proof (rule leads_i)
    fix ir
    show "leads (same_shape s) (case opcode_of (unat (ir AND 255)) of
        Some op \<Rightarrow> exec h op ir (s\<lparr>pc := pc s + 2\<rparr>)
      | None \<Rightarrow> Running (s\<lparr>pc := pc s + 2, printed := printed (s\<lparr>pc := pc s + 2\<rparr>)
          @ [Unrecognised (unat (ir AND 255))]\<rparr>))"
      using exec_shape [OF assms(1), of "s\<lparr>pc := pc s + 2\<rparr>"]
      by (cases "opcode_of (unat (ir AND 255))") (simp_all add: same_shape_def)
  qed
  then show ?thesis by (simp add: assms(2))
qed


section \<open>What an instruction may touch\<close>

text \<open>The instructions that store, that push or that call out.\<close>

fun writes_memory :: "opcode \<Rightarrow> bool" where
  "writes_memory (OpRi t) = True" | "writes_memory (OpRd t) = True"
| "writes_memory OpFi = True" | "writes_memory OpFd = True"
| "writes_memory (OpCall n) = True" | "writes_memory (OpCallP n) = True"
| "writes_memory OpCallR = True" | "writes_memory OpCallI = True"
| "writes_memory OpCallAbi = True"
| "writes_memory _ = False"

lemma ops_mem [simp]:
  "mem (set_reg r v s) = mem s" "mem (set_freg r v s) = mem s"
  "mem (vp_alu_cr a c d s) = mem s" "mem (vp_alu_rr a q d s) = mem s" "mem (vp_ff u f q d s) = mem s"
  by ((simp add: set_reg_def set_freg_def) | (cases a; simp add: set_reg_def)
      | (cases f; simp add: set_freg_def))+

lemma exec_reads_only:
  "\<not> writes_memory op \<Longrightarrow> leads (\<lambda>t. mem t = mem s) (exec h op ir s)"
  by (cases op) (auto intro!: leads_read leads_reg leads_sc leads_i leads_c1 leads_c leads_o
      simp: register_ops memory_ops Let_def)

text \<open>An instruction that is not a store, call or host call leaves memory as it was.\<close>

theorem step_reads_only:
  assumes "vp64_step h s = Running t" "mread I16 (mem s) (pc s) = Some ir"
    "opcode_of (unat (ir AND 255)) = Some op" "\<not> writes_memory op"
  shows "mem t = mem s"
proof -
  have "vp64_step h s = exec h op ir (s\<lparr>pc := pc s + 2\<rparr>)"
    using assms(2,3) by (simp add: vp64_step_def vd_i_def with_read_def)
  with assms(1) have "exec h op ir (s\<lparr>pc := pc s + 2\<rparr>) = Running t" by simp
  then show ?thesis
    using exec_reads_only [OF assms(4), of "s\<lparr>pc := pc s + 2\<rparr>" h ir] by simp
qed

text \<open>The instructions whose third register is a whole word of the code.\<close>

fun third_register :: "opcode \<Rightarrow> bool" where
  "third_register OpDiv = True" | "third_register OpDivU = True"
| "third_register (OpRd t) = True" | "third_register (OpDr t) = True"
| "third_register OpLeaD = True" | "third_register OpDf = True" | "third_register OpFd = True"
| "third_register _ = False"

definition reg_safe :: "outcome \<Rightarrow> bool" where
  "reg_safe r \<longleftrightarrow> (\<forall>n. r \<noteq> Faulted (BadRegister n))"

lemma reg_safe_running [simp]: "reg_safe (Running s)" "reg_safe (Faulted (BadRead a))"
    "reg_safe (Faulted (BadWrite a))" "reg_safe HostExit"
  by (simp_all add: reg_safe_def)

lemma safe_read: "(\<And>v. reg_safe (k v)) \<Longrightarrow> reg_safe (with_read t a s k)"
  by (simp add: with_read_def split: option.split)

lemma safe_write: "(\<And>m. reg_safe (k (s\<lparr>mem := m\<rparr>))) \<Longrightarrow> reg_safe (with_write t a v s k)"
  by (simp add: with_write_def split: option.split)

lemma safe_sc: "(\<And>w t. reg_safe (k w t)) \<Longrightarrow> reg_safe (vd_sc s k)"
  unfolding vd_sc_def by (blast intro: safe_read)

lemma safe_i: "(\<And>w t. reg_safe (k w t)) \<Longrightarrow> reg_safe (vd_i s k)"
  unfolding vd_i_def by (blast intro: safe_read)

lemma safe_c1: "(\<And>w t. reg_safe (k w t)) \<Longrightarrow> reg_safe (vd_c1 ir s k)"
  unfolding vd_c1_def by (blast intro: safe_i)

lemma safe_c: "(\<And>w t. reg_safe (k w t)) \<Longrightarrow> reg_safe (vd_c n ir s k)"
  unfolding vd_c.simps vd_c2_def vd_c3_def by (auto intro!: safe_c1 safe_sc safe_i)

lemma safe_o: "(\<And>w t. reg_safe (k w t)) \<Longrightarrow> reg_safe (vd_o n ir s k)"
  unfolding vd_o.simps vd_o1_def by (auto intro!: safe_i)

lemma safe_abi: "reg_safe (vp_call_abi h n b off s)"
  unfolding vp_call_abi_def by (rule safe_read) (simp split: option.split)

lemma exec_reg_safe: "\<not> third_register op \<Longrightarrow> reg_safe (exec h op ir s)"
  by (cases op) (auto intro!: safe_read safe_write safe_sc safe_i safe_c1 safe_c safe_o safe_abi
      simp: memory_ops Let_def)

text \<open>The only instructions that can index past the register files are those whose third register is a whole code word.\<close>

theorem register_files_in_bounds:
  assumes "vp64_step h s = Faulted (BadRegister n)"
  shows "\<exists>ir op. mread I16 (mem s) (pc s) = Some ir \<and> opcode_of (unat (ir AND 255)) = Some op
    \<and> third_register op"
proof -
  obtain ir where ir: "mread I16 (mem s) (pc s) = Some ir"
    using assms by (auto simp: vp64_step_def vd_i_def with_read_def split: option.splits)
  with assms obtain op where op: "opcode_of (unat (ir AND 255)) = Some op"
      "exec h op ir (s\<lparr>pc := pc s + 2\<rparr>) = Faulted (BadRegister n)"
    by (auto simp: vp64_step_def vd_i_def with_read_def split: option.splits)
  then have "third_register op"
    using exec_reg_safe [of op h ir "s\<lparr>pc := pc s + 2\<rparr>"] by (auto simp: reg_safe_def)
  with ir op show ?thesis by blast
qed

section \<open>The theorems at work\<close>

theorem division_spec_witness:
  "let s = (vm0 Map.empty)\<lparr>regs := [- 7, 0, 2]\<rparr>; s' = vp_div_rrr 1 0 2 s;
       n = reg s 0; d = reg s 2; q = reg s' 0; r = reg s' 1
    in q * d + r = n
     \<and> (d \<noteq> 0 \<longrightarrow> \<bar>sint r\<bar> < \<bar>sint d\<bar> \<and> (r = 0 \<or> sgn (sint r) = sgn (sint n)))
     \<and> (d = 0 \<longrightarrow> q = 0) \<and> s' = s\<lparr>regs := (regs s)[0 := q, 1 := r]\<rparr>"
  using division_spec [of 1 0 "(vm0 Map.empty)\<lparr>regs := [- 7, 0, 2]\<rparr>" 2]
  by (simp only: Let_def) simp

theorem compare_and_branch_witness:
  "let s = vm0 (code_mem 0 [0x20C, 0x474]) in
    vp64_cr 12 0 2 = [0x20C] \<and> vp64_branch 1 116 6 6 = Some ([0x474], 6) \<and>
    vp64_run host0 2 s = Running (s\<lparr>compare1 := 0, compare2 := 0, pc := 8\<rparr>)"
proof -
  have o: "opcode_of 12 = Some (OpCr ACmp 0)" "opcode_of 116 = Some (OpB CEq 0)" by code_simp+
  have w: "vp64_cr 12 0 2 = [0x20C]" by code_simp
  have b: "vp64_branch 1 116 6 6 = Some ([0x474], 6)"
  proof -
    have "emit_offset 116 4 = 0x474" by code_simp
    then show ?thesis by (simp add: vp64_branch_def vp64_within_def)
  qed
  have c: "code_at (code_mem 0 [0x20C, 0x474]) 0 [0x20C, 0x474]" by code_simp
  have "code_at (mem (vm0 (code_mem 0 [0x20C, 0x474]))) (pc (vm0 (code_mem 0 [0x20C, 0x474])))
      (vp64_cr 12 0 2 @ [0x474])"
    unfolding w using c by (simp del: code_at.simps)
  then have "vp64_run host0 2 (vm0 (code_mem 0 [0x20C, 0x474])) = Running ((vm0 (code_mem 0 [0x20C, 0x474]))
    \<lparr>compare1 := 0, compare2 := 0, pc := 8\<rparr>)"
    by (subst compare_and_branch [OF o _ _ _ b, where r = 2 and k = 0]) (simp_all add: w)
  then show ?thesis
    unfolding Let_def using w b by blast
qed

theorem call_and_return_witness:
  "let s = (vm0 (code_mem 0 [0x48C, 0, 0, 0x9B, 0, 0, 0, 0]))\<lparr>regs := (replicate 16 0)[15 := 16]\<rparr> in
    vp64_call_jmp_p 140 6 = Some [0x48C] \<and>
    (\<exists>m. vp64_run host0 2 s = Running (s\<lparr>pc := 2, mem := m\<rparr>) \<and> dom m = dom (mem s)
       \<and> (\<forall>a. a \<notin> cells 8 8 \<longrightarrow> m a = mem s a))"
proof -
  let ?m = "code_mem 0 [0x48C, 0, 0, 0x9B, 0, 0, 0, 0]"
  let ?s = "(vm0 ?m)\<lparr>regs := (replicate 16 0)[15 := 16]\<rparr>"
  have o: "opcode_of 140 = Some (OpCall 0)" "opcode_of 155 = Some OpRet" by code_simp+
  have w: "vp64_call_jmp_p 140 6 = Some [0x48C]" by code_simp
  have c: "code_at ?m 0 [0x48C]" "code_at ?m 6 [emit_word 155 0 0]" by code_simp+
  have "load_le ?m 8 8 = Some 0" by code_simp
  then have d: "cells 8 8 \<subseteq> dom ?m" using load_le_None [of ?m 8 8] by simp
  have i: "cells 8 8 \<inter> cells 6 2 = {}" by (auto simp: cells_def lessThan_nat_numeral)
  show ?thesis
    using call_and_return [OF o w, of ?s host0] c d i w by (simp add: Let_def)
qed

lemma brk_step:
  "vp64_step host0 (vm0 (code_mem 0 [0x9D])) =
    Running ((vm0 (code_mem 0 [0x9D]))\<lparr>pc := 2, printed := [Brk 0]\<rparr>)"
proof -
  have "load_le (code_mem 0 [0x9D]) 0 2 = Some (unat (0x9D :: u16))" by code_simp
  moreover have "opcode_of (unat (scast (0x9D :: u16) AND 255 :: u64)) = Some OpBrk" by code_simp
  ultimately show ?thesis
    using step_fetched [of "vm0 (code_mem 0 [0x9D])" "0x9D" OpBrk host0]
    by (simp add: vp_brk_def vm0_def)
qed


theorem step_reads_only_witness:
  "\<exists>t. vp64_step host0 (vm0 (code_mem 0 [0x9D])) = Running t \<and> mem t = code_mem 0 [0x9D]"
proof -
  have r: "mread I16 (code_mem 0 [0x9D]) 0 = Some 0x9D" by code_simp
  have o: "opcode_of (unat ((0x9D :: u64) AND 255)) = Some OpBrk" by code_simp
  show ?thesis
    using step_reads_only [OF brk_step _ o] r brk_step by simp
qed

theorem register_files_in_bounds_witness:
  "vp64_step host0 (vm0 (code_mem 0 [0x32, 16])) = Faulted (BadRegister 16) \<and>
   (\<exists>ir op. mread I16 (code_mem 0 [0x32, 16]) 0 = Some ir \<and>
      opcode_of (unat (ir AND 255)) = Some op \<and> third_register op)"
proof -
  have f: "vp64_step host0 (vm0 (code_mem 0 [0x32, 16])) = Faulted (BadRegister 16)" by code_simp
  show ?thesis using register_files_in_bounds [OF f] f by simp
qed
end
