(* ===== verification/Mixer.thy ===== *)
theory Mixer
  imports Ieee "HOL-Library.Multiset"
begin

text \<open>
  The sound mixer, src/host/mixer.h. Its statics are the record \<open>mixer\<close>; a \<open>MixerSound *\<close> is an index
  into the array of sounds, null is \<open>None\<close>. The samples of a sound are a buffer the driver allocated:
  a pointer to floats, and \<open>buffers\<close> says which pointers are allocated and what is in them, so that a
  read past the end or after a \<open>free\<close> is \<open>None\<close>. A \<open>float\<close> is its bits. \<open>expf\<close> is the C library's.
\<close>

abbreviation MIXER_MAX_SFX :: nat where "MIXER_MAX_SFX \<equiv> 256"
abbreviation MIXER_MAX_VOICES :: nat where "MIXER_MAX_VOICES \<equiv> 32"
abbreviation MIXER_RATE :: int where "MIXER_RATE \<equiv> 44100"

type_synonym buffers = "u64 \<Rightarrow> u32 list option"

record mixer_sound =
  handle :: u32
  samples :: u64
  frames :: int

record mixer_voice =
  sfx :: "nat option"
  position :: int
  left_gain :: u32
  right_gain :: u32
  paused :: bool
  started :: u64

record mixer =
  sounds :: "mixer_sound list"  \<comment> \<open>the array, of \<open>MIXER_MAX_SFX\<close>\<close>
  sound_count :: nat
  next_handle :: u32
  voices :: "mixer_voice list"
  play_count :: u64
  limiter_gain :: u32

record libm =
  fpu_of_mixer :: fpu
  expf :: "u32 \<Rightarrow> u32"

definition no_voice :: mixer_voice where
  "no_voice = \<lparr>sfx = None, position = 0, left_gain = 0, right_gain = 0, paused = False, started = 0\<rparr>"

definition no_sound :: mixer_sound where
  "no_sound = \<lparr>handle = 0, samples = 0, frames = 0\<rparr>"

section \<open>The limiter\<close>

definition f32_one :: u32 where "f32_one = 0x3F800000"
definition f32_knee :: u32 where "f32_knee = 0x3F666666"  \<comment> \<open>\<open>0.9f\<close>\<close>

definition limit_release :: "fpu \<Rightarrow> u32" where
  "limit_release u = f32_div u f32_one (f32_mul u 0x3E800000 (f32_of_int MIXER_RATE))"

definition mixer_limiter_want :: "libm \<Rightarrow> u32 \<Rightarrow> u32" where
  "mixer_limiter_want lm peak =
     (let u = fpu_of_mixer lm
      in if fp_le (f32 peak) (f32 f32_knee) then f32_one
         else let room = f32_sub u f32_one f32_knee
              in f32_div u
                   (f32_add u f32_knee
                     (f32_mul u room
                       (f32_sub u f32_one (expf lm (f32_div u (f32_sub u f32_knee peak) room)))))
                   peak)"

section \<open>Finding, and the start\<close>

definition mixer_find :: "u32 \<Rightarrow> mixer \<Rightarrow> nat option" where
  "mixer_find h m = find (\<lambda>i. handle (sounds m ! i) = h) [0..<sound_count m]"

definition mixer_reset :: "mixer \<Rightarrow> mixer" where
  "mixer_reset m = m\<lparr>voices := replicate MIXER_MAX_VOICES no_voice, sound_count := 0,
     next_handle := 0x1000, limiter_gain := f32_one\<rparr>"

text \<open>The statics as the program starts.\<close>

definition mixer_start :: mixer where
  "mixer_start = \<lparr>sounds = replicate MIXER_MAX_SFX no_sound, sound_count = 0, next_handle = 0x1000,
     voices = replicate MIXER_MAX_VOICES no_voice, play_count = 0, limiter_gain = f32_one\<rparr>"

section \<open>Mixing\<close>

text \<open>
  One voice added in. The loop over \<open>i\<close> writes each place of the mix once, so it is a map. It reads
  \<open>2 * count\<close> floats from \<open>2 * position\<close>, \<open>None\<close> where they are not there.
\<close>

definition mix_voice ::
    "libm \<Rightarrow> buffers \<Rightarrow> mixer_sound list \<Rightarrow> int \<Rightarrow> mixer_voice \<Rightarrow> u32 list \<Rightarrow> (u32 list \<times> mixer_voice) option" where
  "mix_voice lm b ss n v mix =
     (case sfx v of None \<Rightarrow> Some (mix, v)
      | Some i \<Rightarrow>
         if paused v then Some (mix, v)
         else let left = frames (ss ! i) - position v;
                  count = (if left < n then left else n);
                  u = fpu_of_mixer lm;
                  start = nat (position v * 2);
                  gain = (\<lambda>j. if even j then left_gain v else right_gain v);
                  v' = v\<lparr>position := position v + count\<rparr>;
                  v'' = (if position v' \<ge> frames (ss ! i) then v'\<lparr>sfx := None\<rparr> else v')
              in if count \<le> 0 then Some (mix, v'')
                 else (case b (samples (ss ! i)) of None \<Rightarrow> None
                   | Some src \<Rightarrow>
                      if position v < 0 \<or> length src < start + nat (count * 2) then None
                      else Some (map (\<lambda>j. if j < nat (count * 2)
                             then f32_add u (mix ! j) (f32_mul u (src ! (start + j)) (gain j)) else mix ! j)
                             [0..<length mix], v'')))"

fun mix_voices ::
    "libm \<Rightarrow> buffers \<Rightarrow> mixer_sound list \<Rightarrow> int \<Rightarrow> mixer_voice list \<Rightarrow> u32 list \<Rightarrow> (u32 list \<times> mixer_voice list) option" where
  "mix_voices lm b ss n [] mix = Some (mix, [])"
| "mix_voices lm b ss n (v # vs) mix =
     (case mix_voice lm b ss n v mix of None \<Rightarrow> None
      | Some (mix', v') \<Rightarrow>
         (case mix_voices lm b ss n vs mix' of None \<Rightarrow> None
          | Some (mix'', vs') \<Rightarrow> Some (mix'', v' # vs')))"

text \<open>One frame limited: the new gain and the two samples.\<close>

definition frame_peak :: "u32 \<Rightarrow> u32 \<Rightarrow> u32" where
  "frame_peak l r =
     (let peak = (if fp_less (f32 l) (f32 0) then f32_neg l else l);
          peak_r = (if fp_less (f32 r) (f32 0) then f32_neg r else r)
      in if fp_less (f32 peak) (f32 peak_r) then peak_r else peak)"

definition limit_frame :: "libm \<Rightarrow> u32 \<Rightarrow> u32 \<Rightarrow> u32 \<Rightarrow> u32 \<times> u32 list" where
  "limit_frame lm g l r =
     (let u = fpu_of_mixer lm;
          want = mixer_limiter_want lm (frame_peak l r);
          g' = (if fp_less (f32 want) (f32 g) then want
                else f32_add u g (f32_mul u (f32_sub u want g) (limit_release u)))
      in (g', [f32_mul u l g', f32_mul u r g']))"

fun limit_frames :: "libm \<Rightarrow> u32 \<Rightarrow> u32 list \<Rightarrow> u32 \<times> u32 list" where
  "limit_frames lm g (l # r # mix) =
     (case limit_frame lm g l r of (g', xs) \<Rightarrow>
        (case limit_frames lm g' mix of (g'', ys) \<Rightarrow> (g'', xs @ ys)))"
| "limit_frames lm g mix = (g, mix)"

definition mixer_mix :: "libm \<Rightarrow> buffers \<Rightarrow> int \<Rightarrow> mixer \<Rightarrow> (u32 list \<times> mixer) option" where
  "mixer_mix lm b n m =
     (case mix_voices lm b (sounds m) n (voices m) (replicate (nat (2 * n)) 0) of None \<Rightarrow> None
      | Some (mix, vs) \<Rightarrow>
         (case limit_frames lm (limiter_gain m) mix of (g, out) \<Rightarrow>
            Some (out, m\<lparr>voices := vs, limiter_gain := g\<rparr>)))"

section \<open>Sounds\<close>

definition mixer_add :: "u64 \<Rightarrow> int \<Rightarrow> mixer \<Rightarrow> u32 \<times> mixer" where
  "mixer_add p n m =
     (if sound_count m \<ge> MIXER_MAX_SFX then (0, m)
      else let h = next_handle m
           in (h, m\<lparr>next_handle := h + 1,
                sounds := (sounds m)[sound_count m := \<lparr>handle = h, samples = p, frames = n\<rparr>],
                sound_count := sound_count m + 1\<rparr>))"

text \<open>The voice a sound is given: the loop of \<open>mixer_play\<close>, from voice \<open>v\<close> with \<open>best\<close> so far.\<close>

function pick_voice :: "mixer_voice list \<Rightarrow> nat \<Rightarrow> nat \<Rightarrow> nat" where
  "pick_voice vs best v =
     (if v \<ge> length vs then best
      else if sfx (vs ! v) = None then v
      else pick_voice vs (if started (vs ! v) < started (vs ! best) then v else best) (v + 1))"

  by pat_completeness auto
termination by (relation "measure (\<lambda>(vs, _, v). length vs - v)") auto

declare pick_voice.simps [simp del]

definition pan_gain :: "fpu \<Rightarrow> int \<Rightarrow> u32" where
  "pan_gain u k = f32_div u (f32_of_int k) (f32_of_int 255)"

definition mixer_play :: "libm \<Rightarrow> u32 \<Rightarrow> int \<Rightarrow> mixer \<Rightarrow> int \<times> mixer" where
  "mixer_play lm h pan m =
     (case mixer_find h m of None \<Rightarrow> (- 1, m)
      | Some i \<Rightarrow>
         let v = pick_voice (voices m) 0 0;
             pan = (if pan < - 255 then - 255 else pan);
             pan = (if pan > 255 then 255 else pan);
             u = fpu_of_mixer lm
         in (0, m\<lparr>voices := (voices m)[v := \<lparr>sfx = Some i, position = 0,
                 left_gain = pan_gain u (if pan > 0 then 255 - pan else 255),
                 right_gain = pan_gain u (if pan < 0 then 255 + pan else 255),
                 paused = False, started = play_count m + 1\<rparr>],
               play_count := play_count m + 1\<rparr>))"

definition change_voice :: "nat \<Rightarrow> int \<Rightarrow> mixer_voice \<Rightarrow> mixer_voice" where
  "change_voice i state v =
     (if sfx v \<noteq> Some i then v
      else if state = - 1 then v\<lparr>sfx := None\<rparr> else v\<lparr>paused := (state = 1)\<rparr>)"

definition mixer_change :: "u32 \<Rightarrow> int \<Rightarrow> mixer \<Rightarrow> int \<times> mixer" where
  "mixer_change h state m =
     (case mixer_find h m of None \<Rightarrow> (- 1, m)
      | Some i \<Rightarrow>
         (if \<exists>v \<in> set (voices m). sfx v = Some i then 0 else - 2,
          m\<lparr>voices := map (change_voice i state) (voices m)\<rparr>))"

definition remove_voice :: "nat \<Rightarrow> nat \<Rightarrow> mixer_voice \<Rightarrow> mixer_voice" where
  "remove_voice i end_i v =
     (if sfx v = Some i then v\<lparr>sfx := None\<rparr>
      else if sfx v = Some end_i then v\<lparr>sfx := Some i\<rparr> else v)"

text \<open>The pointer \<open>mixer_remove\<close> and \<open>mixer_take\<close> give back is 0 for none.\<close>

definition mixer_remove :: "u32 \<Rightarrow> mixer \<Rightarrow> u64 \<times> mixer" where
  "mixer_remove h m =
     (case mixer_find h m of None \<Rightarrow> (0, m)
      | Some i \<Rightarrow>
         let end_i = sound_count m - 1
         in (samples (sounds m ! i),
             m\<lparr>voices := map (remove_voice i end_i) (voices m),
               sounds := (sounds m)[i := sounds m ! end_i],
               sound_count := end_i\<rparr>))"

definition mixer_take :: "mixer \<Rightarrow> u64 \<times> mixer" where
  "mixer_take m =
     (let m = m\<lparr>voices := replicate MIXER_MAX_VOICES no_voice\<rparr>
      in if sound_count m = 0 then (0, m)
         else (samples (sounds m ! (sound_count m - 1)), m\<lparr>sound_count := sound_count m - 1\<rparr>))"

section \<open>The invariant\<close>

text \<open>
  A voice plays a sound that is there and is inside it, and the samples of a sound are there, as
  many as its frames say. \<open>held\<close> are the pointers the mixer keeps.
\<close>

definition live_sounds :: "mixer \<Rightarrow> mixer_sound list" where
  "live_sounds m = take (sound_count m) (sounds m)"

definition held :: "mixer \<Rightarrow> u64 multiset" where
  "held m = mset (map samples (live_sounds m))"

definition voice_ok :: "mixer \<Rightarrow> mixer_voice \<Rightarrow> bool" where
  "voice_ok m v = (case sfx v of None \<Rightarrow> True
     | Some i \<Rightarrow> i < sound_count m \<and> 0 \<le> position v \<and> position v \<le> frames (sounds m ! i))"

definition mixer_ok :: "mixer \<Rightarrow> bool" where
  "mixer_ok m \<longleftrightarrow> length (sounds m) = MIXER_MAX_SFX \<and> sound_count m \<le> MIXER_MAX_SFX
     \<and> length (voices m) = MIXER_MAX_VOICES \<and> (\<forall>v \<in> set (voices m). voice_ok m v)
     \<and> (\<forall>s \<in> set (live_sounds m). 0 \<le> frames s \<and> samples s \<noteq> 0)"

definition buffers_ok :: "buffers \<Rightarrow> mixer \<Rightarrow> bool" where
  "buffers_ok b m \<longleftrightarrow> (\<forall>s \<in> set (live_sounds m).
     \<exists>xs. b (samples s) = Some xs \<and> length xs = nat (2 * frames s))"

lemma live_nth: "i < sound_count m \<Longrightarrow> mixer_ok m \<Longrightarrow> sounds m ! i \<in> set (live_sounds m)"
  unfolding live_sounds_def mixer_ok_def in_set_conv_nth by (intro exI [of _ i]) simp

lemma voice_ok_none [simp]: "sfx v = None \<Longrightarrow> voice_ok m v"
  by (simp add: voice_ok_def)

lemma mixer_findD:
  "mixer_find h m = Some i \<Longrightarrow> i < sound_count m \<and> handle (sounds m ! i) = h"
  by (auto simp: mixer_find_def find_Some_iff)

lemma mixer_find_None:
  "mixer_find h m = None \<longleftrightarrow> (\<forall>i < sound_count m. handle (sounds m ! i) \<noteq> h)"
  by (auto simp: mixer_find_def find_None_iff)

lemma mixer_ok_start: "mixer_ok mixer_start"
  by (simp add: mixer_ok_def mixer_start_def live_sounds_def no_voice_def)

lemma mixer_ok_reset: "mixer_ok m \<Longrightarrow> mixer_ok (mixer_reset m)"
  by (simp add: mixer_ok_def mixer_reset_def live_sounds_def no_voice_def)

lemma mixer_ok_add:
  assumes "mixer_ok m" "0 \<le> n" "p \<noteq> 0"
  shows "mixer_ok (snd (mixer_add p n m))"
proof (cases "sound_count m \<ge> MIXER_MAX_SFX")
  case False
  have "voice_ok (snd (mixer_add p n m)) v" if "v \<in> set (voices m)" for v
  proof -
    have "voice_ok m v" using assms(1) that by (simp add: mixer_ok_def)
    then show ?thesis
      using False by (auto simp: voice_ok_def mixer_add_def Let_def split: option.splits)
  qed
  then show ?thesis
    using assms False
    by (auto simp: mixer_ok_def mixer_add_def Let_def live_sounds_def take_Suc_conv_app_nth)
qed (use assms in \<open>simp add: mixer_add_def\<close>)

lemma pick_voice_less: "vs \<noteq> [] \<Longrightarrow> best < length vs \<Longrightarrow> pick_voice vs best v < length vs"
  by (induction vs best v rule: pick_voice.induct) (subst pick_voice.simps, simp)

lemma mixer_update [simp]:
  "voice_ok (m\<lparr>voices := vs\<rparr>) = voice_ok m" "voice_ok (m\<lparr>play_count := k\<rparr>) = voice_ok m"
  "voice_ok (m\<lparr>limiter_gain := g\<rparr>) = voice_ok m" "live_sounds (m\<lparr>voices := vs\<rparr>) = live_sounds m"
  "live_sounds (m\<lparr>play_count := k\<rparr>) = live_sounds m" "live_sounds (m\<lparr>limiter_gain := g\<rparr>) = live_sounds m"
  "mixer_ok (m\<lparr>play_count := k\<rparr>) = mixer_ok m" "mixer_ok (m\<lparr>limiter_gain := g\<rparr>) = mixer_ok m"
  by (auto simp: voice_ok_def live_sounds_def mixer_ok_def fun_eq_iff split: option.splits)

lemma mixer_ok_voices:
  "mixer_ok m \<Longrightarrow> length vs = MIXER_MAX_VOICES \<Longrightarrow> \<forall>v \<in> set vs. voice_ok m v
    \<Longrightarrow> mixer_ok (m\<lparr>voices := vs\<rparr>)"
  by (simp add: mixer_ok_def)

lemma mixer_ok_play:
  assumes "mixer_ok m"
  shows "mixer_ok (snd (mixer_play lm h pan m))"
proof (cases "mixer_find h m")
  case (Some i)
  have i: "i < sound_count m" using mixer_findD [OF Some] by simp
  then have "0 \<le> frames (sounds m ! i)"
    using live_nth [OF i assms] assms by (simp add: mixer_ok_def)
  then have "voice_ok m \<lparr>sfx = Some i, position = 0, left_gain = l, right_gain = r,
      paused = False, started = t\<rparr>" for l r t
    using i by (simp add: voice_ok_def)
  moreover have "length (voices m) = MIXER_MAX_VOICES" "\<forall>v \<in> set (voices m). voice_ok m v"
    using assms by (simp_all add: mixer_ok_def)
  ultimately show ?thesis
    unfolding mixer_play_def Some Let_def option.case snd_conv mixer_update
    by (intro mixer_ok_voices [OF assms]) (auto dest!: set_update_subset_insert [THEN subsetD])
qed (use assms in \<open>simp add: mixer_play_def\<close>)

lemma mixer_ok_change:
  assumes "mixer_ok m"
  shows "mixer_ok (snd (mixer_change h state m))"
proof -
  have "voice_ok m (change_voice i state v)" if "voice_ok m v" for i v
    using that by (auto simp: change_voice_def voice_ok_def)
  then show ?thesis
    using assms by (auto simp: mixer_change_def mixer_ok_def split: option.split)
qed

lemma mixer_ok_take:
  assumes "mixer_ok m"
  shows "mixer_ok (snd (mixer_take m))"
proof -
  have "s \<in> set (take (sound_count m) (sounds m))" if "s \<in> set (take (sound_count m - 1) (sounds m))" for s
    using that set_take_subset_set_take [of "sound_count m - 1" "sound_count m" "sounds m"] by auto
  with assms show ?thesis
    by (auto simp: mixer_take_def mixer_ok_def live_sounds_def Let_def no_voice_def)
qed

text \<open>An array kept packed by a swap with its end loses the one element.\<close>

lemma mset_swap_remove:
  assumes "i < k" "k \<le> length xs"
  shows "mset (take k xs) = add_mset (xs ! i) (mset (take (k - 1) (xs[i := xs ! (k - 1)])))"
proof -
  have k: "take k xs = take (k - 1) xs @ [xs ! (k - 1)]"
    using assms take_Suc_conv_app_nth [of "k - 1" xs] by simp
  show ?thesis
  proof (cases "i = k - 1")
    case True
    then show ?thesis unfolding k by simp
  next
    case False
    then have i: "i < length (take (k - 1) xs)" using assms by simp
    then have "xs ! i \<in># mset (take (k - 1) xs)"
      by (metis nth_mem nth_take set_mset_mset length_take min_less_iff_conj)
    then show ?thesis
      unfolding k using i by (simp add: take_update_swap mset_update)
  qed
qed

lemma live_remove:
  assumes "mixer_find h m = Some i" "mixer_ok m"
  shows "mset (live_sounds m) = add_mset (sounds m ! i) (mset (live_sounds (snd (mixer_remove h m))))"
proof -
  have "i < sound_count m" "sound_count m \<le> length (sounds m)"
    using mixer_findD [OF assms(1)] assms(2) by (simp_all add: mixer_ok_def)
  then show ?thesis
    using mset_swap_remove by (simp add: mixer_remove_def assms(1) live_sounds_def Let_def)
qed

lemma mixer_ok_remove:
  assumes "mixer_ok m"
  shows "mixer_ok (snd (mixer_remove h m))"
proof (cases "mixer_find h m")
  case (Some i)
  let ?m = "snd (mixer_remove h m)"
  have i: "i < sound_count m" "sound_count m \<le> length (sounds m)"
    using mixer_findD [OF Some] assms by (simp_all add: mixer_ok_def)
  have "set (live_sounds ?m) \<subseteq> set (live_sounds m)"
    using live_remove [OF Some assms] by (metis set_mset_mset set_mset_add_mset_insert subset_insertI)
  moreover have "voice_ok ?m (remove_voice i (sound_count m - 1) v)" if "voice_ok m v" for v
    using that i
    by (auto simp: voice_ok_def remove_voice_def mixer_remove_def Some Let_def nth_list_update
        split: option.splits)
  ultimately show ?thesis
    using assms by (auto simp: mixer_ok_def mixer_remove_def Some Let_def)
qed (use assms in \<open>simp add: mixer_remove_def\<close>)

section \<open>The sounds as a map\<close>

text \<open>What the users of the mixer see: a handle is a sound or is not.\<close>

definition sound_of :: "mixer \<Rightarrow> u32 \<Rightarrow> mixer_sound option" where
  "sound_of m h = map_option (\<lambda>i. sounds m ! i) (mixer_find h m)"

definition handles_ok :: "mixer \<Rightarrow> bool" where
  "handles_ok m \<longleftrightarrow> distinct (map handle (live_sounds m))
     \<and> (\<forall>s \<in> set (live_sounds m). 0 < handle s \<and> handle s < next_handle m) \<and> 0 < next_handle m"

lemma sound_of_Some:
  assumes "mixer_ok m" "distinct (map handle (live_sounds m))"
  shows "sound_of m h = Some s \<longleftrightarrow> s \<in> set (live_sounds m) \<and> handle s = h"
proof
  assume "sound_of m h = Some s"
  then obtain i where i: "mixer_find h m = Some i" "s = sounds m ! i" by (auto simp: sound_of_def)
  then show "s \<in> set (live_sounds m) \<and> handle s = h"
    using mixer_findD [OF i(1)] live_nth assms(1) by simp
next
  assume s: "s \<in> set (live_sounds m) \<and> handle s = h"
  then obtain j where j: "j < sound_count m" "s = sounds m ! j"
    by (auto simp: live_sounds_def in_set_conv_nth)
  then obtain i where i: "mixer_find h m = Some i"
    using s mixer_find_None [of h m] by (cases "mixer_find h m") auto
  have "sounds m ! i = s"
    using mixer_findD [OF i] live_nth [OF _ assms(1)] s assms(2) by (auto simp: distinct_map inj_on_def)
  then show "sound_of m h = Some s" using i by (simp add: sound_of_def)
qed

lemma sound_of_None:
  assumes "mixer_ok m" "distinct (map handle (live_sounds m))"
  shows "sound_of m h = None \<longleftrightarrow> (\<forall>s \<in> set (live_sounds m). handle s \<noteq> h)"
  using sound_of_Some [OF assms, of h] by (cases "sound_of m h") auto

lemma sound_of_eqI:
  assumes "mixer_ok m" "distinct (map handle (live_sounds m))"
    "\<And>h s. f h = Some s \<longleftrightarrow> s \<in> set (live_sounds m) \<and> handle s = h"
  shows "sound_of m = f"
proof
  fix h show "sound_of m h = f h"
    using sound_of_Some [OF assms(1,2), of h] assms(3) [of h]
    by (cases "sound_of m h"; cases "f h") auto
qed

lemma live_add:
  "mixer_ok m \<Longrightarrow> sound_count m < MIXER_MAX_SFX \<Longrightarrow>
   live_sounds (snd (mixer_add p n m)) = live_sounds m @ [\<lparr>handle = next_handle m, samples = p, frames = n\<rparr>]"
  by (simp add: mixer_add_def Let_def live_sounds_def mixer_ok_def take_Suc_conv_app_nth)

lemma handles_ok_add:
  assumes "mixer_ok m" "handles_ok m" "next_handle m \<noteq> - 1"
  shows "handles_ok (snd (mixer_add p n m))"
proof (cases "sound_count m < MIXER_MAX_SFX")
  case True
  have "next_handle m < next_handle m + 1"
    using assms(3) by (rule word_less_plus_1)
  then show ?thesis
    using assms(2) live_add [OF assms(1) True, of p n] True
    by (auto simp: handles_ok_def mixer_add_def Let_def)
qed (use assms in \<open>simp add: mixer_add_def\<close>)

lemma handles_ok_remove:
  assumes "mixer_ok m" "handles_ok m"
  shows "handles_ok (snd (mixer_remove h m))"
proof (cases "mixer_find h m")
  case (Some i)
  let ?m = "snd (mixer_remove h m)"
  have "mset (map handle (live_sounds m)) = add_mset h (mset (map handle (live_sounds ?m)))"
    using live_remove [OF Some assms(1)] mixer_findD [OF Some] by simp
  then have "distinct (map handle (live_sounds ?m))"
    using assms(2) by (metis handles_ok_def distinct.simps(2) mset.simps(2) mset_eq_imp_distinct_iff)
  moreover have "set (live_sounds ?m) \<subseteq> set (live_sounds m)"
    using live_remove [OF Some assms(1)] by (metis set_mset_mset set_mset_add_mset_insert subset_insertI)
  moreover have "next_handle ?m = next_handle m" by (simp add: mixer_remove_def Some Let_def)
  ultimately show ?thesis using assms(2) by (auto simp: handles_ok_def)
qed (use assms in \<open>simp add: mixer_remove_def\<close>)

text \<open>a sound added is the one its handle names, and no other handle changes.\<close>

theorem mixer_add_map:
  assumes "mixer_ok m" "handles_ok m" "sound_count m < MIXER_MAX_SFX" "0 \<le> n" "p \<noteq> 0"
  shows "fst (mixer_add p n m) \<noteq> 0 \<and> sound_of m (fst (mixer_add p n m)) = None \<and>
    sound_of (snd (mixer_add p n m)) = (sound_of m)(fst (mixer_add p n m) \<mapsto>
      \<lparr>handle = fst (mixer_add p n m), samples = p, frames = n\<rparr>)"
proof -
  let ?m = "snd (mixer_add p n m)" and ?h = "next_handle m"
  have h: "fst (mixer_add p n m) = ?h" using assms(3) by (simp add: mixer_add_def Let_def)
  have d: "distinct (map handle (live_sounds m))" using assms(2) by (simp add: handles_ok_def)
  have fresh: "\<forall>s \<in> set (live_sounds m). handle s \<noteq> ?h" using assms(2) by (auto simp: handles_ok_def)
  have d': "distinct (map handle (live_sounds ?m))"
    unfolding live_add [OF assms(1,3)] using d fresh by auto
  have "sound_of ?m = (sound_of m)(?h \<mapsto> \<lparr>handle = ?h, samples = p, frames = n\<rparr>)"
    using fresh
    by (intro sound_of_eqI [OF mixer_ok_add [OF assms(1,4,5)] d'])
      (auto simp: live_add [OF assms(1,3)] sound_of_Some [OF assms(1) d])
  then show ?thesis
    using h fresh sound_of_None [OF assms(1) d] assms(2) by (auto simp: handles_ok_def)
qed

text \<open>a sound removed is forgotten and no other is, and its samples are what is handed back.\<close>

theorem mixer_remove_map:
  assumes "mixer_ok m" "handles_ok m"
  shows "sound_of (snd (mixer_remove h m)) = (sound_of m)(h := None) \<and>
    fst (mixer_remove h m) = (case sound_of m h of None \<Rightarrow> 0 | Some s \<Rightarrow> samples s)"
proof (cases "mixer_find h m")
  case None
  then show ?thesis by (auto simp: mixer_remove_def sound_of_def)
next
  case (Some i)
  let ?m = "snd (mixer_remove h m)" and ?s = "sounds m ! i"
  have d: "distinct (map handle (live_sounds m))" using assms(2) by (simp add: handles_ok_def)
  have d': "distinct (map handle (live_sounds ?m))"
    using handles_ok_remove [OF assms] by (simp add: handles_ok_def)
  have hs: "handle ?s = h" using mixer_findD [OF Some] by simp
  have l: "mset (live_sounds m) = add_mset ?s (mset (live_sounds ?m))"
    by (rule live_remove [OF Some assms(1)])
  then have "mset (map handle (live_sounds m)) = add_mset h (mset (map handle (live_sounds ?m)))"
    using hs by simp
  then have "h \<notin> handle ` set (live_sounds ?m)"
    using d by (metis distinct.simps(2) list.set_map mset.simps(2) mset_eq_imp_distinct_iff)
  then have n: "\<And>s. s \<in> set (live_sounds ?m) \<Longrightarrow> handle s \<noteq> h" by blast
  have "set (live_sounds m) = insert ?s (set (live_sounds ?m))"
    using l by (metis set_mset_mset set_mset_add_mset_insert)
  with n have "sound_of ?m = (sound_of m)(h := None)"
    using hs
    by (intro sound_of_eqI [OF mixer_ok_remove [OF assms(1)] d'])
      (auto simp: sound_of_Some [OF assms(1) d])
  then show ?thesis
    using Some by (simp add: mixer_remove_def Let_def sound_of_def)
qed

definition voice_sound :: "mixer \<Rightarrow> mixer_voice \<Rightarrow> mixer_sound option" where
  "voice_sound m v = map_option (\<lambda>i. sounds m ! i) (sfx v)"


section \<open>The limiter at rest\<close>

text \<open>The logarithm of a numeral, for arithmetic on given floats.\<close>

lemma floorlog_num: "floorlog 2 (numeral k) = floorlog 2 (numeral k div 2) + 1"
  by (subst compute_floorlog) simp
lemma floorlog_one: "floorlog 2 (Suc 0) = 1"
  by (simp add: compute_floorlog)

lemmas float_eval = floorlog_num floorlog_one Let_def
lemma f32_44100: "f32_of_int 44100 = 0x472C4400"
  by (simp add: f32_of_int_def fp_of_int_def fp_pack_def binary32_def float_eval)
lemma f32_quarter_rate: "f32_mul u 0x3E800000 0x472C4400 = 0x462C4400"
  by (simp add: f32_mul_def f32_lift_def f32_def fp_pack_def binary32_def float_eval)
lemma limit_release_bits: "limit_release u = 0x38BE37C6"
  unfolding limit_release_def f32_44100 f32_quarter_rate f32_one_def
  by (simp add: f32_div_def f32_lift_def f32_def fp_pack_def binary32_def float_eval)
lemma f32_sub_one_one: "f32_sub u 0x3F800000 0x3F800000 = 0"
  by (simp add: f32_sub_def f32_lift_def f32_def binary32_def signed_nat_def Let_def)
lemma f32_mul_zero_release: "f32_mul u 0 0x38BE37C6 = 0"
  by (simp add: f32_mul_def f32_lift_def f32_def fp_pack_def binary32_def)
lemma f32_add_one_zero: "f32_add u 0x3F800000 0 = 0x3F800000"
proof -
  have "fp_pack (8, 23) False (2 ^ 23 * 2 ^ 126) (- 23 - int 126) False = 0x3F800000"
    using fp_unpack_one by (intro fp_pack_unpack) (simp_all add: binary32_def)
  then show ?thesis
    by (simp add: f32_add_def f32_lift_def f32_def binary32_def signed_nat_def)
qed
lemma limiter_at_rest: "f32_add u f32_one (f32_mul u (f32_sub u f32_one f32_one) (limit_release u)) = f32_one"
  unfolding limit_release_bits f32_one_def f32_sub_one_one f32_mul_zero_release f32_add_one_zero ..

fun quiet :: "u32 list \<Rightarrow> bool" where
  "quiet (l # r # mix) \<longleftrightarrow> f32 l \<noteq> NaN \<and> f32 r \<noteq> NaN
     \<and> fp_le (f32 (frame_peak l r)) (f32 f32_knee) \<and> quiet mix"
| "quiet mix = True"

lemma limit_frame_quiet:
  assumes "f32 l \<noteq> NaN" "f32 r \<noteq> NaN" "fp_le (f32 (frame_peak l r)) (f32 f32_knee)"
  shows "limit_frame lm f32_one l r = (f32_one, [l, r])"
proof -
  have "\<not> fp_less (f32 f32_one) (f32 f32_one)"
    by (cases "f32 f32_one") auto
  then show ?thesis
    using assms f32_mul_one
    by (simp add: limit_frame_def mixer_limiter_want_def limiter_at_rest Let_def)
      (simp add: f32_one_def f32_mul_one)
qed

lemma limit_frames_quiet: "quiet mix \<Longrightarrow> limit_frames lm f32_one mix = (f32_one, mix)"
  by (induction lm f32_one mix rule: limit_frames.induct) (simp_all add: limit_frame_quiet)

text \<open>
  with the limiter at rest a mix that is nowhere over the knee is what the device is fed, to the
  bit, and the limiter stays at rest.
\<close>

theorem quiet_mix_unchanged:
  assumes "mix_voices lm b (sounds m) n (voices m) (replicate (nat (2 * n)) 0) = Some (mix, vs)"
    "limiter_gain m = f32_one" "quiet mix"
  shows "mixer_mix lm b n m = Some (mix, m\<lparr>voices := vs, limiter_gain := f32_one\<rparr>)"
  using assms limit_frames_quiet by (simp add: mixer_mix_def)

section \<open>Mixing stays inside the samples\<close>

lemma mix_voice_some:
  assumes "voice_ok m v" "mixer_ok m" "buffers_ok b m"
  shows "\<exists>mix' v'. mix_voice lm b (sounds m) n v mix = Some (mix', v')
    \<and> length mix' = length mix \<and> (0 \<le> n \<longrightarrow> voice_ok m v')"
proof (cases "sfx v")
  case (Some i)
  let ?s = "sounds m ! i"
  have i: "i < sound_count m" "0 \<le> position v" "position v \<le> frames ?s"
    using assms(1) Some by (simp_all add: voice_ok_def)
  obtain xs where xs: "b (samples ?s) = Some xs" "length xs = nat (2 * frames ?s)"
    using assms(3) live_nth [OF i(1) assms(2)] by (auto simp: buffers_ok_def)
  let ?count = "if frames ?s - position v < n then frames ?s - position v else n"
  have "nat (position v * 2) + nat (?count * 2) \<le> length xs" if "0 < ?count"
    unfolding xs(2) using i that by (auto split: if_splits)
  then show ?thesis
    using Some xs i by (auto simp: mix_voice_def Let_def voice_ok_def not_le)
qed (simp add: mix_voice_def)

lemma mix_voices_some:
  assumes "\<forall>v \<in> set vs. voice_ok m v" "mixer_ok m" "buffers_ok b m" "0 \<le> n"
  shows "\<exists>mix' vs'. mix_voices lm b (sounds m) n vs mix = Some (mix', vs')
    \<and> length mix' = length mix \<and> length vs' = length vs \<and> (\<forall>v \<in> set vs'. voice_ok m v)"
  using assms(1)
proof (induction vs arbitrary: mix)
  case (Cons v vs)
  obtain mix1 v' where 1: "mix_voice lm b (sounds m) n v mix = Some (mix1, v')"
    "length mix1 = length mix" "voice_ok m v'"
    using mix_voice_some [OF _ assms(2,3), of v lm n mix] Cons.prems assms(4) by auto
  obtain mix2 vs' where "mix_voices lm b (sounds m) n vs mix1 = Some (mix2, vs')"
    "length mix2 = length mix1" "length vs' = length vs" "\<forall>v \<in> set vs'. voice_ok m v"
    using Cons.IH [of mix1] Cons.prems by auto
  with 1 show ?case by auto
qed simp

lemma limit_frames_length: "length (snd (limit_frames lm g mix)) = length mix"
  by (induction lm g mix rule: limit_frames.induct)
    (auto simp: limit_frame_def Let_def split: prod.splits)

lemma mixer_mix_mem:
  assumes "mixer_ok m" "buffers_ok b m" "0 \<le> n"
  shows "\<exists>out m'. mixer_mix lm b n m = Some (out, m') \<and> length out = nat (2 * n)
    \<and> mixer_ok m' \<and> live_sounds m' = live_sounds m"
proof -
  obtain mix vs where v: "mix_voices lm b (sounds m) n (voices m) (replicate (nat (2 * n)) 0) = Some (mix, vs)"
    "length mix = nat (2 * n)" "length vs = MIXER_MAX_VOICES" "\<forall>v \<in> set vs. voice_ok m v"
    using mix_voices_some [of "voices m" m b n lm "replicate (nat (2 * n)) 0"] assms
    by (auto simp: mixer_ok_def)
  then show ?thesis
    using mixer_ok_voices [OF assms(1) v(3,4)] limit_frames_length [of lm "limiter_gain m" mix]
    by (auto simp: mixer_mix_def split: prod.split)
qed

text \<open>
  the mixer on the device's thread never reads past the samples of a sound or samples that are
  gone, whatever is playing, gives as many frames as asked for, and leaves the mixer in order.
\<close>

theorem mixer_mix_safe:
  assumes "mixer_ok m" "buffers_ok b m" "0 \<le> n"
  shows "\<exists>out m'. mixer_mix lm b n m = Some (out, m') \<and> length out = nat (2 * n)
    \<and> mixer_ok m' \<and> live_sounds m' = live_sounds m"
  by (rule mixer_mix_mem [OF assms])

section \<open>Playing and changing\<close>

lemma pick_voice_spec:
  assumes "best < length vs" "v \<le> length vs" "best < v \<or> v = 0 \<and> best = 0"
    "\<forall>j < v. sfx (vs ! j) \<noteq> None \<and> started (vs ! best) \<le> started (vs ! j)"
  shows "let k = pick_voice vs best v in k < length vs \<and>
    (if \<exists>j < length vs. sfx (vs ! j) = None then sfx (vs ! k) = None
     else \<forall>j < length vs. started (vs ! k) \<le> started (vs ! j))"
  using assms
proof (induction vs best v rule: pick_voice.induct)
  case (1 vs best v)
  show ?case
  proof (cases "v \<ge> length vs")
    case True
    then show ?thesis using 1 by (subst pick_voice.simps) (auto simp: Let_def)
  next
    case False
    show ?thesis
    proof (cases "sfx (vs ! v) = None")
      case True
      then have "\<exists>j < length vs. sfx (vs ! j) = None" using False not_le by blast
      then show ?thesis using False True by (subst pick_voice.simps) (simp add: Let_def)
    next
      case busy: False
      let ?b = "if started (vs ! v) < started (vs ! best) then v else best"
      have all: "\<forall>j < v + 1. sfx (vs ! j) \<noteq> None \<and> started (vs ! ?b) \<le> started (vs ! j)"
        using 1 busy by (auto simp: less_Suc_eq not_less intro: order.trans [OF less_imp_le])
      have eq: "pick_voice vs best v = pick_voice vs ?b (v + 1)"
        by (subst pick_voice.simps) (simp only: False busy if_False)
      show ?thesis
        unfolding eq by (rule "1.IH" [OF False busy _ _ _ all]) (use 1(2,3,4) False in auto)
    qed
  qed
qed

lemma pan_gain_ends: "pan_gain u 255 = f32_one" "pan_gain u 0 = 0"
proof -
  have a: "f32_of_int 255 = 0x437F0000" "f32_of_int 0 = 0"
    by (simp_all add: f32_of_int_def fp_of_int_def fp_pack_def binary32_def float_eval)
  show "pan_gain u 255 = f32_one"
    unfolding pan_gain_def a f32_one_def
    by (simp add: f32_div_def f32_lift_def f32_def fp_pack_def binary32_def float_eval)
  show "pan_gain u 0 = 0"
    unfolding pan_gain_def a
    by (simp add: f32_div_def f32_lift_def f32_def fp_pack_def binary32_def float_eval)
qed

text \<open>
  a sound is played on a free voice, or when there is none on one that has played the longest,
  from its start, and no other voice is touched.
\<close>

theorem mixer_play_voice:
  assumes "mixer_ok m" "mixer_find h m = Some i"
  shows "\<exists>k < MIXER_MAX_VOICES. \<exists>v.
    mixer_play lm h pan m = (0, m\<lparr>voices := (voices m)[k := v], play_count := play_count m + 1\<rparr>)
    \<and> sfx v = Some i \<and> position v = 0 \<and> \<not> paused v
    \<and> (if \<exists>w \<in> set (voices m). sfx w = None then sfx (voices m ! k) = None
       else \<forall>w \<in> set (voices m). started (voices m ! k) \<le> started w)
    \<and> (pan \<le> - 255 \<longrightarrow> left_gain v = f32_one \<and> right_gain v = 0)
    \<and> (pan = 0 \<longrightarrow> left_gain v = f32_one \<and> right_gain v = f32_one)
    \<and> (255 \<le> pan \<longrightarrow> left_gain v = 0 \<and> right_gain v = f32_one)"
proof -
  let ?k = "pick_voice (voices m) 0 0" and ?v = "voices (snd (mixer_play lm h pan m)) ! pick_voice (voices m) 0 0"
  have l: "length (voices m) = MIXER_MAX_VOICES" using assms(1) by (simp add: mixer_ok_def)
  have k: "?k < MIXER_MAX_VOICES" and pick: "if \<exists>w \<in> set (voices m). sfx w = None then sfx (voices m ! ?k) = None
       else \<forall>w \<in> set (voices m). started (voices m ! ?k) \<le> started w"
    using pick_voice_spec [of 0 "voices m" 0] l
    unfolding Let_def all_set_conv_all_nth ex_set_conv_ex_nth by simp_all
  show ?thesis
    by (intro exI [of _ ?k] exI [of _ ?v] conjI)
      (use k l pick pan_gain_ends in \<open>auto simp: mixer_play_def assms(2) Let_def\<close>)
qed

text \<open>Pausing, resuming and stopping reach every voice of the sound and no other.\<close>

lemma mixer_change_voices:
  assumes "mixer_find h m = Some i" "state \<in> {- 1, 0, 1}"
  shows "fst (mixer_change h state m) = (if \<exists>v \<in> set (voices m). sfx v = Some i then 0 else - 2) \<and>
    voices (snd (mixer_change h state m)) = map (\<lambda>v. if sfx v = Some i
      then (if state = - 1 then v\<lparr>sfx := None\<rparr> else v\<lparr>paused := state = 1\<rparr>) else v) (voices m)"
  by (simp add: mixer_change_def assms(1) change_voice_def)

section \<open>A keeper of samples\<close>

text \<open>
  What a driver relies on to free every buffer once: what the keeper holds grows by what is added
  and shrinks by what is handed back.
\<close>

locale sample_keeper =
  fixes keep :: "u64 \<Rightarrow> 'n \<Rightarrow> 'm \<Rightarrow> u32 \<times> 'm"
    and remove :: "u32 \<Rightarrow> 'm \<Rightarrow> u64 \<times> 'm"
    and holds :: "'m \<Rightarrow> u64 multiset"
    and inv :: "'m \<Rightarrow> bool"
  assumes keep_holds: "inv m \<Longrightarrow> keep p n m = (h, m') \<Longrightarrow>
      holds m' = (if h = 0 then holds m else add_mset p (holds m))"
    and remove_holds: "inv m \<Longrightarrow> remove h m = (p, m') \<Longrightarrow>
      holds m = (if p = 0 then holds m' else add_mset p (holds m'))"
begin

text \<open>Every buffer there is, is held by the keeper, once.\<close>

definition owns :: "(u64 \<Rightarrow> 'b option) \<Rightarrow> 'm \<Rightarrow> bool" where
  "owns b m \<longleftrightarrow> dom b = set_mset (holds m) \<and> (\<forall>p. count (holds m) p \<le> 1)"

lemma owns_keep:
  assumes "inv m" "owns b m" "b p = None" "keep p n m = (h, m')" "h \<noteq> 0"
  shows "owns (b(p \<mapsto> xs)) m'"
proof -
  have "count (holds m) p = 0"
    using assms(2,3) by (metis domIff not_in_iff owns_def)
  then show ?thesis
    using keep_holds [OF assms(1,4)] assms(2,5) by (auto simp: owns_def)
qed

lemma owns_refused:
  assumes "inv m" "owns b m" "b p = None" "keep p n m = (0, m')"
  shows "owns ((b(p \<mapsto> xs))(p := None)) m'"
proof -
  have "(b(p \<mapsto> xs))(p := None) = b" using assms(3) by (simp add: fun_upd_idem)
  then show ?thesis using keep_holds [OF assms(1,4)] assms(2) by (simp add: owns_def)
qed

lemma owns_remove:
  assumes "inv m" "owns b m" "remove h m = (p, m')"
  shows "owns (if p = 0 then b else b(p := None)) m'" "p \<noteq> 0 \<Longrightarrow> b p \<noteq> None"
proof -
  note r = remove_holds [OF assms(1,3)]
  have "count (holds m) p \<le> 1" using assms(2) by (simp add: owns_def)
  then have n: "count (holds m') p = 0" if "p \<noteq> 0" using r that by simp
  show "owns (if p = 0 then b else b(p := None)) m'"
  proof (cases "p = 0")
    case False
    have "count (holds m') q \<le> 1" for q
      using assms(2) r False unfolding owns_def by (metis count_add_mset le_SucI nle_le not_less_eq_eq)
    moreover have "dom (b(p := None)) = set_mset (holds m')"
      using assms(2) r False n by (auto simp: owns_def not_in_iff)
    ultimately show ?thesis using False by (simp add: owns_def)
  qed (use assms(2) r in \<open>simp add: owns_def\<close>)
  show "p \<noteq> 0 \<Longrightarrow> b p \<noteq> None"
    using assms(2) r by (auto simp: owns_def dom_def)
qed

end

definition keeper_ok :: "mixer \<Rightarrow> bool" where
  "keeper_ok m \<longleftrightarrow> mixer_ok m \<and> next_handle m \<noteq> 0"

interpretation mx: sample_keeper mixer_add mixer_remove held keeper_ok
proof
  fix m p n h m'
  assume a: "keeper_ok m" "mixer_add p n m = (h, m')"
  show "held m' = (if h = 0 then held m else add_mset p (held m))"
  proof (cases "sound_count m < MIXER_MAX_SFX")
    case True
    have m': "m' = snd (mixer_add p n m)" using a(2) by simp
    have "h = next_handle m" using a(2) True by (simp add: mixer_add_def Let_def)
    then show ?thesis
      unfolding m' held_def using live_add [of m p n] True a(1) by (simp add: keeper_ok_def)
  qed (use a in \<open>simp add: mixer_add_def\<close>)
next
  fix m h p m'
  assume a: "keeper_ok m" "mixer_remove h m = (p, m')"
  then have ok: "mixer_ok m" by (simp add: keeper_ok_def)
  show "held m = (if p = 0 then held m' else add_mset p (held m'))"
  proof (cases "mixer_find h m")
    case (Some i)
    have p: "p = samples (sounds m ! i)" and m': "m' = snd (mixer_remove h m)"
      using a(2) by (simp_all add: mixer_remove_def Some Let_def)
    have "p \<noteq> 0" using mixer_findD [OF Some] live_nth [OF _ ok] ok p by (simp add: mixer_ok_def)
    then show ?thesis
      using live_remove [OF Some ok] unfolding m' held_def p by simp
  qed (use a in \<open>simp add: mixer_remove_def\<close>)
qed

section \<open>The theorems at work\<close>

text \<open>A mixer with one sound of two frames, in a buffer at 8, and the same with it playing.\<close>

definition libm_id :: libm where "libm_id = \<lparr>fpu_of_mixer = fpu0, expf = \<lambda>x. x\<rparr>"
definition mixer1 :: mixer where "mixer1 = snd (mixer_add 8 2 mixer_start)"
definition mixer2 :: mixer where "mixer2 = snd (mixer_play libm_id 0x1000 0 mixer1)"

lemma handles_ok_start: "handles_ok mixer_start"
  by (simp add: handles_ok_def mixer_start_def live_sounds_def)

lemma mixer1_ok: "mixer_ok mixer1" "handles_ok mixer1" "mixer_find 0x1000 mixer1 = Some 0"
  "live_sounds mixer1 = [\<lparr>handle = 0x1000, samples = 8, frames = 2\<rparr>]" "next_handle mixer1 = 0x1001"
proof -
  have c: "sound_count mixer_start < MIXER_MAX_SFX" "next_handle mixer_start = 0x1000"
      "live_sounds mixer_start = []"
    by (simp_all add: mixer_start_def live_sounds_def)
  show "mixer_ok mixer1" unfolding mixer1_def by (intro mixer_ok_add mixer_ok_start) simp_all
  show "handles_ok mixer1"
    unfolding mixer1_def by (intro handles_ok_add mixer_ok_start handles_ok_start) (simp add: c)
  show "live_sounds mixer1 = [\<lparr>handle = 0x1000, samples = 8, frames = 2\<rparr>]"
    unfolding mixer1_def live_add [OF mixer_ok_start c(1)] by (simp add: c)
  show "next_handle mixer1 = 0x1001" by (simp add: mixer1_def mixer_add_def Let_def mixer_start_def)
  have "sound_count mixer1 = 1" "sounds mixer1 ! 0 = \<lparr>handle = 0x1000, samples = 8, frames = 2\<rparr>"
    by (simp_all add: mixer1_def mixer_add_def Let_def mixer_start_def)
  then show "mixer_find 0x1000 mixer1 = Some 0" by (simp add: mixer_find_def)
qed

theorem mixer_add_map_witness:
  "sound_of (snd (mixer_add 9 3 mixer1)) 0x1001 = Some \<lparr>handle = 0x1001, samples = 9, frames = 3\<rparr>"
proof -
  have c: "sound_count mixer1 < MIXER_MAX_SFX" by (simp add: mixer1_def mixer_add_def Let_def mixer_start_def)
  then have "fst (mixer_add 9 3 mixer1) = 0x1001" using mixer1_ok(5) by (simp add: mixer_add_def Let_def)
  then show ?thesis using mixer_add_map [OF mixer1_ok(1,2) c, of 3 9] by simp
qed

theorem mixer_remove_map_witness:
  "sound_of (snd (mixer_remove 0x1000 mixer1)) 0x1000 = None \<and> fst (mixer_remove 0x1000 mixer1) = 8"
proof -
  have "sound_of mixer1 0x1000 = Some \<lparr>handle = 0x1000, samples = 8, frames = 2\<rparr>"
    using sound_of_Some [OF mixer1_ok(1), of "0x1000"] mixer1_ok(2,4) by (simp add: handles_ok_def)
  then show ?thesis using mixer_remove_map [OF mixer1_ok(1,2), of "0x1000"] by simp
qed

lemma mixer2_ok: "mixer_ok mixer2" "mixer_find 0x1000 mixer2 = Some 0"
proof -
  show "mixer_ok mixer2" unfolding mixer2_def by (rule mixer_ok_play [OF mixer1_ok(1)])
  have "mixer_find h (m\<lparr>voices := vs, play_count := k\<rparr>) = mixer_find h m" for h m vs k
    by (simp add: mixer_find_def)
  then show "mixer_find 0x1000 mixer2 = Some 0"
    by (simp add: mixer2_def mixer_play_def mixer1_ok(3) Let_def)
qed


theorem mixer_play_voice_witness:
  "\<exists>k v. mixer_play libm_id 0x1000 0 mixer1 =
      (0, mixer1\<lparr>voices := (voices mixer1)[k := v], play_count := play_count mixer1 + 1\<rparr>)
    \<and> sfx v = Some 0 \<and> left_gain v = f32_one \<and> right_gain v = f32_one"
  using mixer_play_voice [OF mixer1_ok(1,3), of libm_id 0] by auto

theorem mixer_mix_safe_witness:
  "\<exists>out m'. mixer_mix libm_id ((\<lambda>_. None)(8 \<mapsto> [0, 0, 0, 0])) 3 mixer2 = Some (out, m')
    \<and> length out = nat (2 * 3) \<and> mixer_ok m' \<and> live_sounds m' = live_sounds mixer2"
proof (rule mixer_mix_safe [OF mixer2_ok(1)])
  have "live_sounds mixer2 = live_sounds mixer1"
    by (simp add: mixer2_def mixer_play_def mixer1_ok Let_def)
  then show "buffers_ok ((\<lambda>_. None)(8 \<mapsto> [0, 0, 0, 0])) mixer2"
    by (simp add: buffers_ok_def mixer1_ok)
qed simp

theorem quiet_mix_unchanged_witness:
  "\<exists>vs. mixer_mix libm_id (\<lambda>_. None) 1 mixer_start =
    Some ([0, 0], mixer_start\<lparr>voices := vs, limiter_gain := f32_one\<rparr>)"
proof -
  have "mix_voices libm_id (\<lambda>_. None) ss n (replicate k no_voice) mix = Some (mix, replicate k no_voice)"
    for ss n k mix by (induction k) (simp_all add: mix_voice_def no_voice_def)
  then have v: "mix_voices libm_id (\<lambda>_. None) (sounds mixer_start) 1 (voices mixer_start) (replicate (nat (2 * 1)) 0)
      = Some ([0, 0], replicate MIXER_MAX_VOICES no_voice)"
    by (simp add: mixer_start_def numeral_2_eq_2)
  moreover have "quiet [0, 0]"
  proof -
    have "f32 0 = Fin False 0 (- 149)" "f32 f32_knee = Fin False 15099494 (- 24)"
      by (simp_all add: f32_def f32_knee_def binary32_def)
    then show ?thesis
      by (simp add: frame_peak_def fp_le_def fin_scaled_def signed_nat_def)
  qed
  ultimately show ?thesis
    using quiet_mix_unchanged [OF v] by (auto simp: mixer_start_def)
qed

end
