(* ===== verification/Wav.thy ===== *)
theory Wav
  imports Mixer Ieee_Real
begin

text \<open>
  The reader of wav files, src/host/wav.h: the walk over the chunks, the samples of each kind, and
  the line drawn between samples to make another rate the rate of the mix. A file is the list of its
  bytes, \<open>size\<close> its length, an \<open>int\<close> of the code is an integer cut to 32 bits where the code casts to
  one, and \<open>len\<close>, a \<open>uint32_t\<close>, is a word. The walk can fail to end, so it is given a number of turns.
\<close>

section \<open>Bytes\<close>

definition int32 :: "int \<Rightarrow> int" where "int32 k = sint (word_of_int k :: 32 word)"

definition u32_cat :: "u8 \<Rightarrow> u8 \<Rightarrow> u8 \<Rightarrow> u8 \<Rightarrow> u32" where
  "u32_cat a b c d = ucast a OR push_bit 8 (ucast b) OR push_bit 16 (ucast c) OR push_bit 24 (ucast d)"

text \<open>Reads of the file at a place, \<open>None\<close> past its end.\<close>

definition byte_at :: "u8 list \<Rightarrow> int \<Rightarrow> u8 option" where
  "byte_at f p = (if 0 \<le> p \<and> p < int (length f) then Some (f ! nat p) else None)"

definition bytes_at :: "u8 list \<Rightarrow> int \<Rightarrow> nat \<Rightarrow> u8 list option" where
  "bytes_at f p n = (if 0 \<le> p \<and> p + int n \<le> int (length f) then Some (take n (drop (nat p) f)) else None)"

fun wav_u32 :: "u8 list \<Rightarrow> u32" where
  "wav_u32 (a # b # c # d # _) = u32_cat a b c d"
| "wav_u32 _ = 0"

fun wav_u16 :: "u8 list \<Rightarrow> int" where
  "wav_u16 (a # b # _) = uint a + 256 * uint b"
| "wav_u16 _ = 0"

section \<open>One sample, as -1.0 to 1.0\<close>

fun wav_sample :: "fpu \<Rightarrow> u8 list \<Rightarrow> int \<Rightarrow> int \<Rightarrow> u32" where
  "wav_sample u p format bits =
     (if bits = 8 then f32_div u (f32_of_int (uint (p ! 0) - 128)) (f32_of_int 128)
      else if bits = 16 then
        f32_div u (f32_of_int (sint (ucast (p ! 0) OR push_bit 8 (ucast (p ! 1)) :: 16 word))) (f32_of_int 32768)
      else if bits = 24 then
        f32_div u (f32_of_int (sint (u32_cat 0 (p ! 0) (p ! 1) (p ! 2)))) (f32_of_int 2147483648)
      else if bits = 32 then
        (if format = 3 then wav_u32 p
         else f32_div u (f32_of_int (sint (wav_u32 p))) (f32_of_int 2147483648))
      else 0)"

section \<open>The chunks\<close>

record wav_info =
  w_format :: int
  w_channels :: int
  w_bits :: int
  w_rate :: u32
  w_data :: "int option"  \<comment> \<open>where the body of the data chunk is\<close>
  w_data_len :: u32

definition wav_info0 :: wav_info where
  "wav_info0 = \<lparr>w_format = 0, w_channels = 0, w_bits = 0, w_rate = 0, w_data = None, w_data_len = 0\<rparr>"

abbreviation tag :: "string \<Rightarrow> u8 list" where
  "tag s \<equiv> map (\<lambda>c. of_char c) s"

text \<open>What a chunk at \<open>p\<close> of length \<open>len\<close> adds to what is known, \<open>body\<close> being the file from \<open>p + 8\<close>.\<close>

definition wav_chunk :: "u8 list \<Rightarrow> int \<Rightarrow> u32 \<Rightarrow> wav_info \<Rightarrow> wav_info" where
  "wav_chunk f p len w =
     (let body = drop (nat p + 8) f; name = take 4 (drop (nat p) f) in
      if name = tag ''fmt '' \<and> 16 \<le> len then
        let format = wav_u16 body
        in w\<lparr>w_format := (if format = 0xfffe \<and> 26 \<le> len then wav_u16 (drop 24 body) else format),
             w_channels := wav_u16 (drop 2 body), w_rate := wav_u32 (drop 4 body),
             w_bits := wav_u16 (drop 14 body)\<rparr>
      else if name = tag ''data'' then w\<lparr>w_data := Some (p + 8), w_data_len := len\<rparr>
      else w)"

definition wav_len :: "u8 list \<Rightarrow> int \<Rightarrow> u32" where
  "wav_len f p =
     (let len = wav_u32 (drop (nat p + 4) f); size = int (length f)
      in if uint len > size - p - 8 then word_of_int (size - p - 8) else len)"

text \<open>The step to the next chunk is worked out in 32 bits and then added to a \<open>long\<close>.\<close>

definition wav_next :: "u32 \<Rightarrow> int \<Rightarrow> int" where
  "wav_next len p = p + uint (8 + len + (len AND 1))"

fun wav_scan :: "nat \<Rightarrow> u8 list \<Rightarrow> int \<Rightarrow> wav_info \<Rightarrow> wav_info option" where
  "wav_scan turns f p w =
     (if p + 8 \<le> int (length f) then
        (case turns of 0 \<Rightarrow> None
         | Suc n \<Rightarrow> (let len = wav_len f p in wav_scan n f (wav_next len p) (wav_chunk f p len w)))
      else Some w)"

declare wav_scan.simps [simp del]

section \<open>The file\<close>

definition wav_known :: "wav_info \<Rightarrow> bool" where
  "wav_known w = ((w_format w = 1 \<and> (w_bits w = 8 \<or> w_bits w = 16 \<or> w_bits w = 24 \<or> w_bits w = 32))
     \<or> (w_format w = 3 \<and> w_bits w = 32))"

text \<open>The C++ cast of a \<open>double\<close> to \<open>int\<close>, of one that is inside an \<open>int\<close>.\<close>

definition f64_to_int :: "u64 \<Rightarrow> int" where
  "f64_to_int a = (case f64 a of Fin s m e \<Rightarrow> fin_trunc s m e | _ \<Rightarrow> 0)"

definition wav_pos :: "fpu \<Rightarrow> u32 \<Rightarrow> int \<Rightarrow> u64" where
  "wav_pos u rate i = f64_div u (f64_mul u (f64_of_int i) (f64_of_int (uint rate))) (f64_of_int MIXER_RATE)"

definition lerp :: "fpu \<Rightarrow> u32 \<Rightarrow> u32 \<Rightarrow> u32 \<Rightarrow> u32" where
  "lerp u a b t = f32_add u a (f32_mul u (f32_sub u b a) t)"

text \<open>One frame made, \<open>None\<close> if a byte it reads is not in the file.\<close>

definition wav_frame :: "fpu \<Rightarrow> u8 list \<Rightarrow> wav_info \<Rightarrow> int \<Rightarrow> int \<Rightarrow> int \<Rightarrow> u32 list option" where
  "wav_frame u f w data src_frames i =
     (let bytes = w_bits w div 8; channels = w_channels w; right = (if channels > 1 then 1 else 0);
          pos = wav_pos u (w_rate w) i; a = f64_to_int pos;
          b = (if a + 1 < src_frames then a + 1 else a);
          t = f64_to_f32 u (f64_sub u pos (f64_of_int a));
          pa = data + a * bytes * channels; pb = data + b * bytes * channels;
          rd = (\<lambda>p. map_option (\<lambda>xs. wav_sample u xs (w_format w) (w_bits w)) (bytes_at f p (nat bytes)))
      in case (rd pa, rd pb, rd (pa + right * bytes), rd (pb + right * bytes)) of
           (Some la, Some lb, Some ra, Some rb) \<Rightarrow> Some [lerp u la lb t, lerp u ra rb t]
         | _ \<Rightarrow> None)"

fun wav_frames :: "fpu \<Rightarrow> u8 list \<Rightarrow> wav_info \<Rightarrow> int \<Rightarrow> int \<Rightarrow> nat list \<Rightarrow> u32 list option" where
  "wav_frames u f w data src_frames [] = Some []"
| "wav_frames u f w data src_frames (i # is) =
     (case wav_frame u f w data src_frames (int i) of None \<Rightarrow> None
      | Some xs \<Rightarrow> (case wav_frames u f w data src_frames is of None \<Rightarrow> None
         | Some ys \<Rightarrow> Some (xs @ ys)))"

datatype wav_error = Unreadable | NotWav | NotKnown | NoFrames | NoMemory

datatype wav_result = Loaded "u32 list" int | Refused wav_error | BadAccess | Unending

text \<open>The frames there are in the file, and the frames there are at the rate of the mix.\<close>

definition wav_src_frames :: "wav_info \<Rightarrow> int" where
  "wav_src_frames w = int32 (uint (w_data_len w div word_of_int (w_bits w div 8 * w_channels w)))"

definition wav_out_frames :: "wav_info \<Rightarrow> int" where
  "wav_out_frames w = int32 ((wav_src_frames w * MIXER_RATE) sdiv uint (w_rate w))"

text \<open>
  \<open>wav_load\<close> on what \<open>fopen\<close> and \<open>fread\<close> gave, with \<open>mem_ok\<close> whether there is memory for the samples.
  \<open>turns\<close> bounds the walk.
\<close>

definition wav_load :: "fpu \<Rightarrow> nat \<Rightarrow> u8 list option \<Rightarrow> bool \<Rightarrow> wav_result" where
  "wav_load u turns file mem_ok =
     (case file of None \<Rightarrow> Refused Unreadable
      | Some f \<Rightarrow>
         if length f < 12 then Refused NotWav
         else if take 4 f \<noteq> tag ''RIFF'' \<or> take 4 (drop 8 f) \<noteq> tag ''WAVE'' then Refused NotWav
         else (case wav_scan turns f 12 wav_info0 of None \<Rightarrow> Unending
           | Some w \<Rightarrow>
              (case w_data w of None \<Rightarrow> Refused NotKnown
               | Some data \<Rightarrow>
                  if \<not> wav_known w \<or> w_channels w < 1 \<or> w_rate w < 1 then Refused NotKnown
                  else
                    let src_frames = wav_src_frames w; frames = wav_out_frames w
                    in if src_frames < 1 \<or> frames < 1 then Refused NoFrames
                       else if \<not> mem_ok then Refused NoMemory
                       else (case wav_frames u f w data src_frames [0..<nat frames] of
                               None \<Rightarrow> BadAccess
                             | Some out \<Rightarrow> Loaded out frames))))"

section \<open>The walk ends, on files of up to 4 GiB\<close>

lemma uint_byte: "uint (b :: u8) \<le> 255"
  using uint_bounded [of b] by simp

lemma wav_u16_bounds: "0 \<le> wav_u16 xs" "wav_u16 xs \<le> 65535"
proof -
  have "wav_u16 xs = 0 \<or> (\<exists>a b. wav_u16 xs = uint (a :: u8) + 256 * uint (b :: u8))"
    by (cases xs rule: wav_u16.cases) auto
  moreover have "0 \<le> uint a" "uint a \<le> 255" for a :: u8 using uint_byte by simp_all
  ultimately show "0 \<le> wav_u16 xs" "wav_u16 xs \<le> 65535"
    by (smt (verit))+
qed

lemma wav_len_bound:
  assumes "0 \<le> p" "p + 8 \<le> int (length f)"
  shows "uint (wav_len f p) \<le> int (length f) - p - 8"
proof -
  let ?l = "wav_u32 (drop (nat p + 4) f)"
  have lt: "uint ?l < 2 ^ 32" using uint_bounded [of ?l] by simp
  have w: "uint (word_of_int k :: u32) = k" if "0 \<le> k" "k < 2 ^ 32" for k
    using that by (simp add: uint_word_of_int)
  show ?thesis
  proof (cases "uint ?l > int (length f) - p - 8")
    case True
    then have "wav_len f p = word_of_int (int (length f) - p - 8)"
      by (simp only: wav_len_def Let_def if_True)
    moreover have "uint (word_of_int (int (length f) - p - 8) :: u32) = int (length f) - p - 8"
      by (rule w) (use assms True lt in linarith)+
    ultimately show ?thesis by (simp only: order.refl)
  qed (simp add: wav_len_def Let_def)
qed

lemma wav_next_more:
  assumes "uint len + 10 \<le> 2 ^ 32"
  shows "p + 8 \<le> wav_next len p"
proof -
  have "len AND 1 = 0 \<or> len AND 1 = (1 :: u32)"
    by (simp add: and_one_eq mod2_eq_if)
  then have "uint (len AND 1) \<le> 1" by auto
  moreover have "0 \<le> uint (len AND 1)" "0 \<le> uint len" by simp_all
  ultimately have "uint (8 + len + (len AND 1)) = 8 + uint len + uint (len AND 1)"
    using assms by (simp add: uint_word_ariths)
  then show ?thesis by (simp add: wav_next_def)
qed

lemma wav_scan_ends:
  assumes "int (length f) \<le> 2 ^ 32" "12 \<le> p" "int (length f) - p \<le> 8 * int turns"
  shows "\<exists>w'. wav_scan turns f p w = Some w'"
  using assms(2,3)
proof (induction turns arbitrary: p w)
  case 0
  then show ?case by (simp add: wav_scan.simps)
next
  case (Suc n)
  show ?case
  proof (cases "p + 8 \<le> int (length f)")
    case True
    have "uint (wav_len f p) + 10 \<le> 2 ^ 32"
      using wav_len_bound [OF _ True] Suc.prems assms(1) by simp
    then have "p + 8 \<le> wav_next (wav_len f p) p" by (rule wav_next_more)
    then show ?thesis
      using Suc True by (subst wav_scan.simps) (simp add: Let_def)
  qed (simp add: wav_scan.simps)
qed

text \<open>
  but a chunk that says it is 0xFFFFFFF8 bytes long, in a file that has them, takes the walk no
  further, however many turns it is given: the step to the next chunk is 0 in 32 bits.
\<close>

theorem wav_scan_hangs:
  assumes "0 \<le> p" "p + 8 + 0xFFFFFFF8 \<le> int (length f)" "wav_u32 (drop (nat p + 4) f) = 0xFFFFFFF8"
  shows "wav_scan turns f p w = None"
proof (induction turns arbitrary: w)
  case (Suc n)
  have "wav_len f p = 0xFFFFFFF8" using assms by (simp add: wav_len_def Let_def)
  then have "wav_next (wav_len f p) p = p" by (simp add: wav_next_def)
  then show ?case using Suc assms(2) by (subst wav_scan.simps) (simp add: Let_def)
qed (use assms(2) in \<open>simp add: wav_scan.simps\<close>)

section \<open>Every read is of the file\<close>

lemma wav_scan_data:
  assumes "wav_scan turns f p w = Some w'" "0 \<le> p"
    "\<forall>d. w_data w = Some d \<longrightarrow> 0 \<le> d \<and> d + uint (w_data_len w) \<le> int (length f)"
    "0 \<le> w_channels w \<and> w_channels w \<le> 65535"
  shows "(\<forall>d. w_data w' = Some d \<longrightarrow> 0 \<le> d \<and> d + uint (w_data_len w') \<le> int (length f))
    \<and> 0 \<le> w_channels w' \<and> w_channels w' \<le> 65535"
  using assms
proof (induction turns arbitrary: p w)
  case 0
  then show ?case by (auto simp: wav_scan.simps split: if_splits)
next
  case (Suc n)
  show ?case
  proof (cases "p + 8 \<le> int (length f)")
    case True
    let ?l = "wav_len f p"
    have r: "wav_scan n f (wav_next ?l p) (wav_chunk f p ?l w) = Some w'"
      using Suc.prems(1) True by (subst (asm) wav_scan.simps) (simp add: Let_def)
    have l: "uint ?l \<le> int (length f) - p - 8" using wav_len_bound [OF Suc.prems(2) True] .
    have nx: "0 \<le> wav_next ?l p" using Suc.prems(2) by (simp add: wav_next_def)
    show ?thesis
      by (rule Suc.IH [OF r nx])
        (use Suc.prems(2,3,4) l wav_u16_bounds in \<open>auto simp: wav_chunk_def Let_def\<close>)
  next
    case False
    then show ?thesis using Suc.prems by (subst (asm) wav_scan.simps) auto
  qed
qed

text \<open>Where a frame falls in the file: the arithmetic in \<open>double\<close> gives the exact whole part.\<close>

lemma wav_pos_floor:
  assumes "i < 2 ^ 53" "i * unat rate < 2 ^ 31 * 44100"
  shows "f64_to_int (wav_pos u rate (int i)) = int (i * unat rate div 44100)"
proof -
  let ?A = "i * unat rate"
  have r: "unat rate < 2 ^ 53" using unsigned_less [where ?'a = nat, of rate] by simp
  have "f64_is (f64_of_int (uint rate)) (real (unat rate))"
    using f64_of_nat_is [OF r] by (simp add: unsigned_of_nat)
  then have m: "f64_is (f64_mul u (f64_of_int (int i)) (f64_of_int (uint rate))) (real ?A)"
    using assms(2) by (intro f64_mul_is f64_of_nat_is assms(1)) simp_all
  have "real ?A < real (2 ^ 31 * 44100)" using assms(2) by (simp only: of_nat_less_iff)
  then have "real ?A / real 44100 < 2 ^ 31" by simp
  then obtain y where y: "f64_is (wav_pos u rate (int i)) y" "real (?A div 44100) \<le> y"
      "y \<le> real ?A / real 44100 + 2 powr (real 31 - 53)"
    using f64_div_near [OF m f64_of_nat_is [of 44100], of 31 u] by (auto simp: wav_pos_def)
  have "?A = 44100 * (?A div 44100) + ?A mod 44100" by simp
  moreover have "?A mod 44100 \<le> 44099" by simp
  ultimately have "?A \<le> 44100 * (?A div 44100) + 44099" by linarith
  then have "real ?A \<le> real (44100 * (?A div 44100) + 44099)" by (simp only: of_nat_le_iff)
  moreover have "2 powr (real 31 - 53) = 1 / 2 ^ 22" by (simp add: powr_minus_divide flip: powr_realpow)
  ultimately have "y < real (?A div 44100) + 1" using y(3) by simp
  with y(2) have "\<lfloor>y\<rfloor> = int (?A div 44100)" by (simp add: floor_unique)
  moreover have "0 \<le> y" using y(2) by (meson of_nat_0_le_iff order.trans)
  moreover obtain q e where "f64 (wav_pos u rate (int i)) = Fin False q e" "fin_real False q e = y"
    using y(1) by (auto simp: f64_is_def)
  ultimately show ?thesis
    by (simp add: f64_to_int_def fin_trunc_real real_trunc_def)
qed

lemma int32_le: "0 \<le> k \<Longrightarrow> int32 k \<le> k" "int32 k < 2 ^ 31"
proof -
  have "(k + 2 ^ 31) mod 2 ^ 32 \<le> k + 2 ^ 31" if "0 \<le> k" using that by (simp add: zmod_le_nonneg_dividend)
  then show "0 \<le> k \<Longrightarrow> int32 k \<le> k" by (simp add: int32_def int_word_sint)
  have "(k + 2 ^ 31) mod 2 ^ 32 < 2 ^ 32" by simp
  then show "int32 k < 2 ^ 31" by (simp add: int32_def int_word_sint)
qed

lemma bytes_at_some: "0 \<le> p \<Longrightarrow> p + int n \<le> int (length f) \<Longrightarrow> \<exists>xs. bytes_at f p n = Some xs"
  by (simp add: bytes_at_def)

lemma wav_frame_some:
  assumes "wav_known w" "1 \<le> w_channels w" "0 \<le> d" "1 \<le> n"
    "d + n * (w_bits w div 8) * w_channels w \<le> int (length f)" "n < 2 ^ 31"
    "i < 2 ^ 53" "int i * uint (w_rate w) < n * 44100"
  shows "\<exists>xs. wav_frame u f w d n (int i) = Some xs \<and> length xs = 2"
proof -
  let ?B = "w_bits w div 8" and ?C = "w_channels w" and ?a = "int (i * unat (w_rate w) div 44100)"
  have B: "1 \<le> ?B" using assms(1) by (auto simp: wav_known_def)
  have lt: "int (i * unat (w_rate w)) < n * 44100" using assms(8) by simp
  then have "int (i * unat (w_rate w)) < int (2 ^ 31 * 44100)" using assms(6) by simp
  then have "i * unat (w_rate w) < 2 ^ 31 * 44100" by (simp only: of_nat_less_iff)
  from wav_pos_floor [OF assms(7) this]
  have a: "f64_to_int (wav_pos u (w_rate w) (int i)) = ?a" .
  have an: "?a < n" using lt by (simp add: zdiv_int div_less_iff_less_mult)
  have rd: "\<exists>xs. bytes_at f (d + k * ?B * ?C + r * ?B) (nat ?B) = Some xs"
    if k: "0 \<le> k" "k < n" and r: "0 \<le> r" "r < ?C" for k r
  proof (rule bytes_at_some)
    have BC: "0 \<le> ?B * ?C" using B assms(2) by simp
    show "0 \<le> d + k * ?B * ?C + r * ?B" using assms(3) k r B BC by (simp add: mult.assoc)
    have "k * (?B * ?C) + ?B * ?C \<le> n * (?B * ?C)"
      using mult_right_mono [of "k + 1" n "?B * ?C"] k BC by (simp add: algebra_simps)
    moreover have "r * ?B + ?B \<le> ?B * ?C"
      using mult_right_mono [of "r + 1" ?C ?B] r B by (simp add: algebra_simps)
    ultimately show "d + k * ?B * ?C + r * ?B + int (nat ?B) \<le> int (length f)"
      using assms(5) B by (simp add: mult.assoc)
  qed
  let ?b = "if ?a + 1 < n then ?a + 1 else ?a" and ?r = "if ?C > 1 then 1 else 0 :: int"
  have b: "0 \<le> ?b" "?b < n" using an by auto
  have r: "0 \<le> ?r" "?r < ?C" using assms(2) by auto
  obtain x1 x2 x3 x4 where
    "bytes_at f (d + ?a * ?B * ?C + 0 * ?B) (nat ?B) = Some x1"
    "bytes_at f (d + ?b * ?B * ?C + 0 * ?B) (nat ?B) = Some x2"
    "bytes_at f (d + ?a * ?B * ?C + ?r * ?B) (nat ?B) = Some x3"
    "bytes_at f (d + ?b * ?B * ?C + ?r * ?B) (nat ?B) = Some x4"
    using rd [of ?a 0] rd [of ?b 0] rd [of ?a ?r] rd [of ?b ?r] an b r assms(2) by auto
  then show ?thesis
    unfolding wav_frame_def a Let_def by (simp only: mult_zero_left add_0_right option.map prod.case option.case) simp
qed

lemma wav_frames_some:
  assumes "\<And>i. i \<in> set is \<Longrightarrow> \<exists>xs. wav_frame u f w d n (int i) = Some xs \<and> length xs = 2"
  shows "\<exists>out. wav_frames u f w d n is = Some out \<and> length out = 2 * length is"
  using assms
proof (induction "is")
  case (Cons i js)
  obtain xs where "wav_frame u f w d n (int i) = Some xs" "length xs = 2" using Cons.prems by auto
  moreover obtain out where "wav_frames u f w d n js = Some out" "length out = 2 * length js"
    using Cons.IH Cons.prems by auto
  ultimately show ?case by simp
qed simp

lemma wav_info0_ok:
  "\<forall>d. w_data wav_info0 = Some d \<longrightarrow> 0 \<le> d \<and> d + uint (w_data_len wav_info0) \<le> k"
  "0 \<le> w_channels wav_info0 \<and> w_channels wav_info0 \<le> 65535"
  by (simp_all add: wav_info0_def)

lemma wav_frames_load:
  assumes "wav_scan turns f 12 wav_info0 = Some w" "w_data w = Some d" "wav_known w" "1 \<le> w_channels w"
    "w_rate w \<noteq> 0" "1 \<le> wav_src_frames w" "1 \<le> wav_out_frames w"
  shows "\<exists>out. wav_frames u f w d (wav_src_frames w) [0..<nat (wav_out_frames w)] = Some out
    \<and> length out = nat (2 * wav_out_frames w)"
proof -
  let ?BC = "w_bits w div 8 * w_channels w" and ?R = "uint (w_rate w)"
  define n where n_eq: "n = wav_src_frames w"
  define k where k_eq: "k = wav_out_frames w"
  note n_def = n_eq [unfolded wav_src_frames_def]
  note k_def = k_eq [unfolded wav_out_frames_def, folded n_eq]
  have n1: "1 \<le> n" "1 \<le> k" using assms(6,7) by (simp_all add: n_eq k_eq)
  have d: "0 \<le> d" "d + uint (w_data_len w) \<le> int (length f)" and c: "w_channels w \<le> 65535"
    using wav_scan_data [OF assms(1) _ wav_info0_ok] assms(2) by simp_all
  have B: "1 \<le> w_bits w div 8" "w_bits w div 8 \<le> 4" using assms(3) by (auto simp: wav_known_def)
  then have BC: "1 \<le> ?BC" "?BC < 2 ^ 32"
    using assms(4) c mult_mono [of 1 "w_bits w div 8" 1 "w_channels w"]
      mult_mono [of "w_bits w div 8" 4 "w_channels w" 65535] by simp_all
  have ub: "uint (word_of_int ?BC :: u32) = ?BC" using BC by (simp add: uint_word_of_int del: of_int_mult)
  have "n \<le> uint (w_data_len w) div ?BC"
    using int32_le(1) [of "uint (w_data_len w) div ?BC"] BC ub
    by (simp add: n_def uint_div pos_imp_zdiv_nonneg_iff)
  then have "n * ?BC \<le> uint (w_data_len w)"
    using int_div_mult_le [of ?BC "uint (w_data_len w)"] BC
      mult_right_mono [of n "uint (w_data_len w) div ?BC" ?BC] by linarith
  then have reads: "d + n * (w_bits w div 8) * w_channels w \<le> int (length f)"
    using d by (simp add: mult.assoc)
  have "?R \<noteq> 0" using assms(5) by (simp add: unsigned_eq_0_iff)
  moreover have "0 \<le> ?R" by simp
  ultimately have R: "1 \<le> ?R" by linarith
  have sd: "(n * MIXER_RATE) sdiv ?R = n * MIXER_RATE div ?R"
    using n1 R assms(5) by (simp add: signed_divide_int_def)
  have "0 \<le> n * MIXER_RATE div ?R" using n1 R by (simp add: pos_imp_zdiv_nonneg_iff)
  then have "k \<le> n * MIXER_RATE div ?R" unfolding k_def sd by (rule int32_le(1))
  then have kR: "k * ?R \<le> n * MIXER_RATE"
    using int_div_mult_le [of ?R "n * MIXER_RATE"] R
      mult_right_mono [of k "n * MIXER_RATE div ?R" ?R] by linarith
  have n31: "n < 2 ^ 31" "k < 2 ^ 31" unfolding n_def k_def by (rule int32_le(2))+
  have fr: "\<exists>xs. wav_frame u f w d n (int i) = Some xs \<and> length xs = 2" if "i \<in> set [0..<nat k]" for i
  proof (rule wav_frame_some [OF assms(3,4) d(1) n1(1) reads n31(1)])
    have i: "int i + 1 \<le> k" using that by auto
    then show "i < 2 ^ 53" using n31(2) by simp
    have "(int i + 1) * ?R \<le> k * ?R" using i R by (intro mult_right_mono) simp_all
    then show "int i * ?R < n * 44100" using kR R by (simp add: algebra_simps)
  qed
  have "2 * nat k = nat (2 * k)" using n1 by simp
  with wav_frames_some [of "[0..<nat k]", OF fr] show ?thesis
    by (simp add: n_eq k_eq)
qed

lemma wav_load_inside:
  "case wav_load u turns src mem_ok of BadAccess \<Rightarrow> False
     | Loaded out n \<Rightarrow> 1 \<le> n \<and> length out = nat (2 * n) | _ \<Rightarrow> True"
proof (cases src)
  case (Some f)
  show ?thesis
  proof (cases "wav_scan turns f 12 wav_info0")
    case (Some w)
    show ?thesis
    proof (cases "w_data w")
      case (Some d)
      show ?thesis
        using wav_frames_load [where u = u, OF \<open>wav_scan turns f 12 wav_info0 = Some w\<close> Some]
        by (auto simp: wav_load_def \<open>src = Some f\<close> \<open>wav_scan turns f 12 wav_info0 = Some w\<close> Some Let_def
            not_less split: option.splits wav_result.splits)
    qed (auto simp: wav_load_def \<open>src = Some f\<close> \<open>wav_scan turns f 12 wav_info0 = Some w\<close>)
  qed (auto simp: wav_load_def \<open>src = Some f\<close>)
qed (simp add: wav_load_def)


text \<open>C27: a file of no more than 4 GiB is loaded or refused, the walk over its chunks ends.\<close>

theorem wav_load_ends:
  assumes "int (length f) \<le> 2 ^ 32" "length f \<le> 8 * turns"
  shows "wav_load u turns (Some f) mem_ok \<noteq> Unending"
proof -
  obtain w where w: "wav_scan turns f 12 wav_info0 = Some w"
    using wav_scan_ends [OF assms(1), of 12 turns] assms(2) by auto
  show ?thesis by (simp add: wav_load_def w Let_def split: option.split)
qed

section \<open>The theorems at work\<close>

theorem wav_load_ends_witness:
  "wav_load fpu0 2 (Some (tag ''RIFF'' @ [4, 0, 0, 0] @ tag ''WAVE'')) True \<noteq> Unending"
  by (rule wav_load_ends) simp_all

theorem wav_scan_hangs_witness: "\<exists>f. \<forall>turns. wav_scan turns f 12 wav_info0 = None"
proof -
  define n :: nat where "n = 0xFFFFFFF8"
  define f :: "u8 list" where
    "f = [82, 73, 70, 70, 0, 0, 0, 0, 87, 65, 86, 69, 0, 0, 0, 0, 0xF8, 0xFF, 0xFF, 0xFF] @ replicate n 0"
  have "int (length f) = 20 + int n" by (simp add: f_def)
  moreover have "int n = 0xFFFFFFF8" by (simp add: n_def)
  moreover have "wav_u32 (drop (nat 12 + 4) f) = 0xFFFFFFF8"
    by (simp add: f_def u32_cat_def)
  ultimately have "wav_scan turns f 12 wav_info0 = None" for turns
    by (intro wav_scan_hangs) simp_all
  then show ?thesis by blast
qed

end
