(* ===== verification/Audio.thy ===== *)
theory Audio
  imports Wav
begin

text \<open>
  The host AUDIO drivers over the mixer: src/host/audio_alsa.cpp, whose thread feeds the device,
  and src/host/audio_sdl3.cpp, whose device calls back. ALSA and SDL are libraries: what their calls
  return is an argument. \<open>malloc\<close> gives a pointer, the argument \<open>p\<close>, and \<open>free\<close> takes it out of
  \<open>bufs\<close>. The lock is held round each call to the mixer, so each is one step.
\<close>

record audio =
  opened :: bool  \<comment> \<open>\<open>pcm\<close> or \<open>stream\<close> is not null\<close>
  feeding :: bool
  mx :: mixer
  bufs :: buffers

section \<open>What the drivers share\<close>

text \<open>\<open>strrchr (path, '.')\<close>, and the two extensions taken.\<close>

fun strrchr :: "string \<Rightarrow> char \<Rightarrow> string option" where
  "strrchr [] c = None"
| "strrchr (x # xs) c = (case strrchr xs c of Some s \<Rightarrow> Some s
     | None \<Rightarrow> if x = c then Some (x # xs) else None)"

definition wav_path :: "string \<Rightarrow> bool" where
  "wav_path path = (case strrchr path CHR ''.'' of None \<Rightarrow> False
     | Some ext \<Rightarrow> ext = ''.wav'' \<or> ext = ''.WAV'')"

text \<open>\<open>while (samples = mixer_take()) free(samples)\<close>\<close>

function mixer_drain :: "mixer \<Rightarrow> buffers \<Rightarrow> mixer \<times> buffers" where
  "mixer_drain m b =
     (let p = fst (mixer_take m); m' = snd (mixer_take m)
      in if p = 0 then (m', b) else mixer_drain m' (b(p := None)))"
  by pat_completeness auto
termination
  by (relation "measure (\<lambda>(m, _). sound_count m)") (auto simp: mixer_take_def Let_def split: if_splits)

declare mixer_drain.simps [simp del]

text \<open>A buffer \<open>p\<close> of samples given to the mixer, and freed if there is no room.\<close>

definition keep_samples :: "u64 \<Rightarrow> u32 list \<Rightarrow> int \<Rightarrow> audio \<Rightarrow> u32 \<times> audio" where
  "keep_samples p xs n a =
     (let b = (bufs a)(p \<mapsto> xs); h = fst (mixer_add p n (mx a)); m = snd (mixer_add p n (mx a))
      in if h = 0 then (- 1, a\<lparr>mx := m, bufs := b(p := None)\<rparr>) else (h, a\<lparr>mx := m, bufs := b\<rparr>))"

section \<open>ALSA\<close>

definition alsa_init :: "bool \<Rightarrow> bool \<Rightarrow> bool \<Rightarrow> audio \<Rightarrow> int \<times> audio" where
  "alsa_init open_ok params_ok thread_ok a =
     (if \<not> open_ok then (- 1, a\<lparr>opened := False\<rparr>)
      else if \<not> params_ok then (- 1, a\<lparr>opened := False\<rparr>)
      else let a = a\<lparr>opened := True, mx := mixer_reset (mx a), feeding := True\<rparr>
           in if \<not> thread_ok then (- 1, a\<lparr>feeding := False, opened := False\<rparr>) else (0, a))"

definition alsa_deinit :: "audio \<Rightarrow> int \<times> audio" where
  "alsa_deinit a =
     (let a = (if opened a then a\<lparr>feeding := False, opened := False\<rparr> else a);
          r = mixer_drain (mx a) (bufs a)
      in (0, a\<lparr>mx := fst r, bufs := snd r\<rparr>))"

text \<open>\<open>None\<close> is a \<open>wav_load\<close> that does not end or reads outside the file.\<close>

definition alsa_add_sfx :: "string \<Rightarrow> wav_result \<Rightarrow> u64 \<Rightarrow> audio \<Rightarrow> (u32 \<times> audio) option" where
  "alsa_add_sfx path loaded p a =
     (if \<not> wav_path path then Some (- 1, a)
      else (case loaded of Loaded xs n \<Rightarrow> Some (keep_samples p xs n a)
            | Refused e \<Rightarrow> Some (- 1, a)
            | BadAccess \<Rightarrow> None
            | Unending \<Rightarrow> None))"

definition alsa_play_sfx :: "libm \<Rightarrow> u32 \<Rightarrow> int \<Rightarrow> audio \<Rightarrow> int \<times> audio" where
  "alsa_play_sfx lm h pan a =
     (if \<not> opened a then (- 1, a)
      else let r = mixer_play lm h pan (mx a) in (fst r, a\<lparr>mx := snd r\<rparr>))"

definition alsa_change_sfx :: "u32 \<Rightarrow> int \<Rightarrow> audio \<Rightarrow> int \<times> audio" where
  "alsa_change_sfx h state a =
     (if \<not> opened a then (- 1, a)
      else if state < - 1 \<or> state > 1 then (0, a)
      else let r = mixer_change h state (mx a) in (fst r, a\<lparr>mx := snd r\<rparr>))"

definition alsa_remove_sfx :: "u32 \<Rightarrow> audio \<Rightarrow> int \<times> audio" where
  "alsa_remove_sfx h a =
     (let r = mixer_remove h (mx a); a = a\<lparr>mx := snd r\<rparr>
      in if fst r = 0 then (- 1, a) else (0, a\<lparr>bufs := (bufs a)(fst r := None)\<rparr>))"

text \<open>The feeding thread: a turn of its loop mixes, and makes the mix 16 bit samples.\<close>

definition f32_hi :: u32 where "f32_hi = 0x46FFFE00"  \<comment> \<open>\<open>32767.0f\<close>\<close>
definition f32_lo :: u32 where "f32_lo = 0xC7000000"  \<comment> \<open>\<open>-32768.0f\<close>\<close>

definition feed_sample :: "fpu \<Rightarrow> u32 \<Rightarrow> int" where
  "feed_sample u x =
     (let s = f32_mul u x f32_hi;
          s = (if fp_less (f32 f32_hi) (f32 s) then f32_hi
               else if fp_less (f32 s) (f32 f32_lo) then f32_lo else s)
      in (case f32 s of Fin g m e \<Rightarrow> fin_trunc g m e | _ \<Rightarrow> 0))"

abbreviation FEED_FRAMES :: int where "FEED_FRAMES \<equiv> 512"

definition feed_mix :: "libm \<Rightarrow> audio \<Rightarrow> (int list \<times> audio) option" where
  "feed_mix lm a = (case mixer_mix lm (bufs a) FEED_FRAMES (mx a) of None \<Rightarrow> None
     | Some (mix, m) \<Rightarrow> Some (map (feed_sample (fpu_of_mixer lm)) mix, a\<lparr>mx := m\<rparr>))"

text \<open>
  Its writes: \<open>results\<close> is what \<open>snd_pcm_writei\<close>, and after an error \<open>snd_pcm_recover\<close>, give one
  after the other, and what is given back is the samples written.
\<close>

fun feed_write :: "int list \<Rightarrow> int list \<Rightarrow> int \<Rightarrow> int list list" where
  "feed_write [] out left = []"
| "feed_write (n # results) out left =
     (if left \<le> 0 then []
      else if n < 0 then []
      else take (nat (n * 2)) out # feed_write results (drop (nat (n * 2)) out) (left - n))"

section \<open>SDL3\<close>

text \<open>The callback: the mix in pieces of up to 1024 frames, each put on the stream.\<close>

function sdl3_mix :: "libm \<Rightarrow> int \<Rightarrow> audio \<Rightarrow> (u32 list \<times> audio) option" where
  "sdl3_mix lm wanted a =
     (if wanted \<le> 0 then Some ([], a)
      else let n = (if wanted < 1024 then wanted else 1024)
           in (case mixer_mix lm (bufs a) n (mx a) of None \<Rightarrow> None
               | Some (mix, m) \<Rightarrow>
                  (case sdl3_mix lm (wanted - n) (a\<lparr>mx := m\<rparr>) of None \<Rightarrow> None
                   | Some (rest, a') \<Rightarrow> Some (mix @ rest, a'))))"
  by pat_completeness auto
termination by (relation "measure (\<lambda>(_, n, _). nat n)") (auto split: if_splits)

declare sdl3_mix.simps [simp del]

definition sdl3_mix_callback :: "libm \<Rightarrow> int \<Rightarrow> audio \<Rightarrow> (u32 list \<times> audio) option" where
  "sdl3_mix_callback lm additional_amount a = sdl3_mix lm (additional_amount sdiv 8) a"

definition sdl3_init :: "bool \<Rightarrow> bool \<Rightarrow> audio \<Rightarrow> int \<times> audio" where
  "sdl3_init init_ok stream_ok a =
     (if \<not> init_ok then (- 1, a)
      else let a = a\<lparr>mx := mixer_reset (mx a), opened := stream_ok\<rparr>
           in if \<not> stream_ok then (- 1, a) else (0, a))"

definition sdl3_deinit :: "audio \<Rightarrow> int \<times> audio" where
  "sdl3_deinit a =
     (let a = (if opened a then a\<lparr>opened := False\<rparr> else a); r = mixer_drain (mx a) (bufs a)
      in (0, a\<lparr>mx := fst r, bufs := snd r\<rparr>))"

text \<open>\<open>loaded\<close> is whether \<open>SDL_LoadWAV\<close> read it, \<open>converted\<close> the floats of the conversion and \<open>dst_len\<close>.\<close>

definition sdl3_add_sfx :: "string \<Rightarrow> bool \<Rightarrow> (u32 list \<times> int) option \<Rightarrow> u64 \<Rightarrow> audio \<Rightarrow> u32 \<times> audio" where
  "sdl3_add_sfx path loaded converted p a =
     (if \<not> wav_path path then (- 1, a)
      else if \<not> loaded then (- 1, a)
      else (case converted of None \<Rightarrow> (- 1, a)
            | Some (xs, dst_len) \<Rightarrow> keep_samples p xs (dst_len sdiv 8) a))"

definition sdl3_play_sfx :: "libm \<Rightarrow> u32 \<Rightarrow> int \<Rightarrow> audio \<Rightarrow> int \<times> audio" where
  "sdl3_play_sfx lm h pan a =
     (if \<not> opened a then (- 1, a)
      else let r = mixer_play lm h pan (mx a) in (fst r, a\<lparr>mx := snd r\<rparr>))"

definition sdl3_change_sfx :: "u32 \<Rightarrow> int \<Rightarrow> audio \<Rightarrow> int \<times> audio" where
  "sdl3_change_sfx h state a =
     (if \<not> opened a then (- 1, a)
      else if state < - 1 \<or> state > 1 then (0, a)
      else let r = mixer_change h state (mx a) in (fst r, a\<lparr>mx := snd r\<rparr>))"

definition sdl3_remove_sfx :: "u32 \<Rightarrow> audio \<Rightarrow> int \<times> audio" where
  "sdl3_remove_sfx h a =
     (let r = mixer_remove h (mx a); a = a\<lparr>mx := snd r\<rparr>
      in if fst r = 0 then (- 1, a) else (0, a\<lparr>bufs := (bufs a)(fst r := None)\<rparr>))"

section \<open>The invariant of the drivers\<close>

text \<open>
  The mixer is in order, its samples are there, and every buffer of samples there is, is one the
  mixer holds, once: nothing leaks and nothing is freed twice.
\<close>

definition audio_ok :: "audio \<Rightarrow> bool" where
  "audio_ok a \<longleftrightarrow> keeper_ok (mx a) \<and> buffers_ok (bufs a) (mx a) \<and> mx.owns (bufs a) (mx a)"

lemma keeper_add:
  assumes "keeper_ok m" "next_handle m \<noteq> - 1" "0 \<le> n" "p \<noteq> 0"
  shows "keeper_ok (snd (mixer_add p n m))"
proof -
  have "next_handle m + 1 \<noteq> 0" using assms(2) by (metis add_eq_0_iff2)
  then show ?thesis
    using assms mixer_ok_add [of m n p] by (simp add: keeper_ok_def mixer_add_def Let_def)
qed

lemma next_handle_simps [simp]:
  "next_handle (snd (mixer_remove h m)) = next_handle m"
  "next_handle (snd (mixer_take m)) = next_handle m"
  "next_handle (snd (mixer_play lm h pan m)) = next_handle m"
  "next_handle (snd (mixer_change h state m)) = next_handle m"
  "live_sounds (snd (mixer_play lm h pan m)) = live_sounds m"
  "live_sounds (snd (mixer_change h state m)) = live_sounds m"
  by (auto simp: mixer_remove_def mixer_take_def mixer_play_def mixer_change_def Let_def
      split: option.split)

lemma audio_ok_live:
  assumes "audio_ok a" "keeper_ok m" "live_sounds m = live_sounds (mx a)"
  shows "audio_ok (a\<lparr>mx := m\<rparr>)"
  using assms by (simp add: audio_ok_def buffers_ok_def mx.owns_def held_def)

lemma audio_ok_simps [simp]:
  "audio_ok (a\<lparr>opened := x\<rparr>) = audio_ok a" "audio_ok (a\<lparr>feeding := x\<rparr>) = audio_ok a"
  by (simp_all add: audio_ok_def)

lemma keep_samples_ok:
  assumes "audio_ok a" "p \<noteq> 0" "bufs a p = None" "0 \<le> n" "length xs = nat (2 * n)"
    "next_handle (mx a) \<noteq> - 1"
  shows "audio_ok (snd (keep_samples p xs n a))"
proof -
  obtain h m where hm: "mixer_add p n (mx a) = (h, m)" by fastforce
  have k: "keeper_ok (mx a)" and ow: "mx.owns (bufs a) (mx a)" and b: "buffers_ok (bufs a) (mx a)"
    using assms(1) by (simp_all add: audio_ok_def)
  have k': "keeper_ok m" using keeper_add [OF k assms(6,4,2)] hm by simp
  show ?thesis
  proof (cases "sound_count (mx a) < MIXER_MAX_SFX")
    case True
    have h: "h = next_handle (mx a)" "h \<noteq> 0" using hm True k by (auto simp: mixer_add_def Let_def keeper_ok_def)
    have l: "live_sounds m = live_sounds (mx a) @ [\<lparr>handle = h, samples = p, frames = n\<rparr>]"
      using live_add [of "mx a" p n] hm True k h by (simp add: keeper_ok_def)
    have "p \<notin> samples ` set (live_sounds (mx a))"
      using b assms(3) by (auto simp: buffers_ok_def)
    then have "buffers_ok ((bufs a)(p \<mapsto> xs)) m"
      using b assms(5) by (auto simp: buffers_ok_def l)
    then show ?thesis
      using k' mx.owns_keep [OF k ow assms(3) hm h(2)] h(2) hm
      by (simp add: keep_samples_def Let_def audio_ok_def)
  next
    case False
    then have m: "h = 0" "m = mx a" using hm by (auto simp: mixer_add_def)
    then have "(bufs a)(p := None) = bufs a" using assms(3) by (simp add: fun_upd_idem)
    then show ?thesis using m hm assms(1) by (simp add: keep_samples_def Let_def audio_ok_def)
  qed
qed

lemma remove_samples_ok:
  assumes "audio_ok a"
  shows "audio_ok (snd (alsa_remove_sfx h a))" "snd (sdl3_remove_sfx h a) = snd (alsa_remove_sfx h a)"
proof -
  obtain p m where pm: "mixer_remove h (mx a) = (p, m)" by fastforce
  have k: "keeper_ok (mx a)" and ow: "mx.owns (bufs a) (mx a)" and b: "buffers_ok (bufs a) (mx a)"
    using assms by (simp_all add: audio_ok_def)
  have k': "keeper_ok m"
    using mixer_ok_remove [of "mx a" h] next_handle_simps(1) [of h "mx a"] k pm by (simp add: keeper_ok_def)
  note o' = mx.owns_remove [OF k ow pm]
  have "buffers_ok (if p = 0 then bufs a else (bufs a)(p := None)) m"
  proof (cases "mixer_find h (mx a)")
    case (Some i)
    have l: "mset (live_sounds (mx a)) = add_mset (sounds (mx a) ! i) (mset (live_sounds m))"
      using live_remove [OF Some] k pm by (simp add: keeper_ok_def)
    then have sub: "set (live_sounds m) \<subseteq> set (live_sounds (mx a))"
      by (metis set_mset_mset set_mset_add_mset_insert subset_insertI)
    have p: "samples s \<noteq> p" if "p \<noteq> 0" "s \<in> set (live_sounds m)" for s
    proof -
      have "samples s \<in># held m" using that(2) by (auto simp: held_def)
      moreover have "p \<notin> dom ((bufs a)(p := None))" by simp
      ultimately show ?thesis using o'(1) that(1) by (auto simp: mx.owns_def)
    qed
    show ?thesis using b sub p by (auto simp: buffers_ok_def)
  qed (use pm b in \<open>auto simp: mixer_remove_def\<close>)
  then show "audio_ok (snd (alsa_remove_sfx h a))"
    using o'(1) k' pm by (auto simp: alsa_remove_sfx_def Let_def audio_ok_def split: if_splits)
qed (simp add: alsa_remove_sfx_def sdl3_remove_sfx_def)

section \<open>Closing\<close>

text \<open>A keeper that can also be emptied, one buffer at a time.\<close>

locale sample_taker = sample_keeper keep remove holds inv
  for keep :: "u64 \<Rightarrow> 'n \<Rightarrow> 'm \<Rightarrow> u32 \<times> 'm" and remove :: "u32 \<Rightarrow> 'm \<Rightarrow> u64 \<times> 'm"
    and holds :: "'m \<Rightarrow> u64 multiset" and inv :: "'m \<Rightarrow> bool" +
  fixes take_one :: "'m \<Rightarrow> u64 \<times> 'm"
  assumes take_holds: "inv m \<Longrightarrow> take_one m = (p, m') \<Longrightarrow>
      holds m = (if p = 0 then {#} else add_mset p (holds m')) \<and> (p = 0 \<longrightarrow> holds m' = {#})"
    and take_inv: "inv m \<Longrightarrow> take_one m = (p, m') \<Longrightarrow> inv m'"
begin

lemma owns_take:
  assumes "inv m" "owns b m" "take_one m = (p, m')" "p \<noteq> 0"
  shows "owns (b(p := None)) m'"
proof -
  have h: "holds m = add_mset p (holds m')" using take_holds [OF assms(1,3)] assms(4) by simp
  have "count (holds m) p \<le> 1" using assms(2) by (simp add: owns_def)
  then have n: "count (holds m') p = 0" using h by simp
  have "count (holds m') q \<le> 1" for q
    using assms(2) h unfolding owns_def by (metis count_add_mset le_SucI nle_le not_less_eq_eq)
  then show ?thesis
    using assms(2) h n by (auto simp: owns_def not_in_iff)
qed

lemma owns_empty: "inv m \<Longrightarrow> owns b m \<Longrightarrow> take_one m = (0, m') \<Longrightarrow> b = Map.empty \<and> holds m' = {#}"
  using take_holds [of m 0 m'] by (simp add: owns_def)

end

interpretation mt: sample_taker mixer_add mixer_remove held keeper_ok mixer_take
proof
  fix m p m'
  assume a: "keeper_ok m" "mixer_take m = (p, m')"
  then have ok: "mixer_ok m" by (simp add: keeper_ok_def)
  show "keeper_ok m'"
    using mixer_ok_take [OF ok] next_handle_simps(2) [of m] a by (simp add: keeper_ok_def)
  show "held m = (if p = 0 then {#} else add_mset p (held m')) \<and> (p = 0 \<longrightarrow> held m' = {#})"
  proof (cases "sound_count m")
    case 0
    then show ?thesis using a(2) by (auto simp: mixer_take_def Let_def held_def live_sounds_def)
  next
    case (Suc k)
    have l: "live_sounds m = live_sounds m' @ [sounds m ! k]"
      using a(2) Suc ok by (auto simp: mixer_take_def Let_def live_sounds_def mixer_ok_def take_Suc_conv_app_nth)
    moreover have "p = samples (sounds m ! k)" using a(2) Suc by (simp add: mixer_take_def Let_def)
    moreover have "samples (sounds m ! k) \<noteq> 0" using l ok by (simp add: mixer_ok_def)
    ultimately show ?thesis by (simp add: held_def)
  qed
qed

lemma mixer_drain_all:
  assumes "keeper_ok m" "mx.owns b m"
  shows "snd (mixer_drain m b) = Map.empty \<and> live_sounds (fst (mixer_drain m b)) = []
    \<and> keeper_ok (fst (mixer_drain m b))"
  using assms
proof (induction m b rule: mixer_drain.induct)
  case (1 m b)
  obtain p m' where pm: "mixer_take m = (p, m')" by fastforce
  have k: "keeper_ok m'" by (rule mt.take_inv [OF 1(2) pm])
  have eq: "mixer_drain m b = (if p = 0 then (m', b) else mixer_drain m' (b(p := None)))"
    by (subst mixer_drain.simps) (simp add: pm Let_def)
  show ?case
  proof (cases "p = 0")
    case True
    then show ?thesis
      using mt.owns_empty [OF 1(2) 1(3)] pm k eq by (auto simp: held_def)
  next
    case False
    have ow: "mx.owns (b(p := None)) m'" by (rule mt.owns_take [OF 1(2,3) pm False])
    show ?thesis
      unfolding eq if_not_P [OF False]
      by (rule "1.IH" [of p m', OF _ _ False k ow]) (simp_all add: pm)
  qed
qed

lemma deinit_frees:
  assumes "audio_ok a"
  shows "let a' = snd (alsa_deinit a) in bufs a' = Map.empty \<and> live_sounds (mx a') = []
    \<and> \<not> opened a' \<and> audio_ok a'"
proof -
  let ?r = "mixer_drain (mx a) (bufs a)"
  have "snd ?r = Map.empty" "live_sounds (fst ?r) = []" "keeper_ok (fst ?r)"
    using mixer_drain_all [of "mx a" "bufs a"] assms by (simp_all add: audio_ok_def)
  then show ?thesis
    by (cases "opened a")
      (simp_all add: alsa_deinit_def Let_def audio_ok_def buffers_ok_def mx.owns_def held_def)
qed

text \<open>when the driver is closed every buffer of samples has been freed and no sound is left.\<close>

theorem alsa_deinit_frees:
  assumes "audio_ok a"
  shows "let a' = snd (alsa_deinit a) in bufs a' = Map.empty \<and> live_sounds (mx a') = []
    \<and> \<not> opened a' \<and> audio_ok a'"
  by (rule deinit_frees [OF assms])

section \<open>Feeding\<close>

lemma audio_mix_ok:
  assumes "audio_ok a" "0 \<le> n"
  shows "\<exists>out m. mixer_mix lm (bufs a) n (mx a) = Some (out, m) \<and> length out = nat (2 * n)
    \<and> audio_ok (a\<lparr>mx := m\<rparr>)"
proof -
  have k: "keeper_ok (mx a)" and b: "buffers_ok (bufs a) (mx a)" using assms(1) by (simp_all add: audio_ok_def)
  obtain out m where m: "mixer_mix lm (bufs a) n (mx a) = Some (out, m)" "length out = nat (2 * n)"
      "mixer_ok m" "live_sounds m = live_sounds (mx a)"
    using mixer_mix_mem [of "mx a" "bufs a" n lm] b assms(2) k by (auto simp: keeper_ok_def)
  have "next_handle m = next_handle (mx a)"
    using m(1) by (auto simp: mixer_mix_def split: option.splits prod.splits)
  then have "keeper_ok m" using k m(3) by (simp add: keeper_ok_def)
  then show ?thesis using m audio_ok_live [OF assms(1)] by blast
qed

lemma f32_ends:
  "f32 f32_hi = Fin False 16776704 (- 9)" "f32 f32_lo = Fin True 8388608 (- 8)"
  by (simp_all add: f32_def f32_hi_def f32_lo_def binary32_def)

lemma real_ends: "fin_real False 16776704 (- 9) = 32767" "fin_real True 8388608 (- 8) = - 32768"
proof -
  have "2 powr real_of_int (- 9) = 1 / 2 ^ 9" "2 powr real_of_int (- 8) = 1 / 2 ^ 8"
    by (simp_all add: powr_minus_divide flip: powr_realpow)
  then show "fin_real False 16776704 (- 9) = 32767" "fin_real True 8388608 (- 8) = - 32768"
    by (simp_all add: fin_real_def signed_nat_def)
qed

text \<open>whatever a float of the mix is, the device is given a 16 bit sample.\<close>

theorem feed_sample_16_bits: "- 32768 \<le> feed_sample u x \<and> feed_sample u x \<le> 32767"
proof -
  let ?s = "f32_mul u x f32_hi"
  have ends: "fin_trunc False 16776704 (- 9) = 32767" "fin_trunc True 8388608 (- 8) = - 32768"
    by (simp_all add: fin_trunc_real real_ends real_trunc_def)
  consider "fp_less (f32 f32_hi) (f32 ?s)"
    | "\<not> fp_less (f32 f32_hi) (f32 ?s)" "fp_less (f32 ?s) (f32 f32_lo)"
    | "\<not> fp_less (f32 f32_hi) (f32 ?s)" "\<not> fp_less (f32 ?s) (f32 f32_lo)" by blast
  then show ?thesis
  proof cases
    case 1
    then have "feed_sample u x = 32767" by (simp add: feed_sample_def Let_def f32_ends ends)
    then show ?thesis by simp
  next
    case 2
    then have "feed_sample u x = - 32768" by (simp add: feed_sample_def Let_def f32_ends ends)
    then show ?thesis by simp
  next
    case 3
    show ?thesis
    proof (cases "f32 ?s")
      case (Fin g m e)
      have "fin_real g m e \<le> 32767" "- 32768 \<le> fin_real g m e"
        using 3 unfolding Fin f32_ends fin_less_real real_ends by simp_all
      then have "- 32768 \<le> real_trunc (fin_real g m e)" "real_trunc (fin_real g m e) \<le> 32767"
        by (auto simp: real_trunc_def floor_le_iff le_floor_iff ceiling_le_iff le_ceiling_iff)
      then show ?thesis
        using 3 Fin by (simp add: feed_sample_def Let_def fin_trunc_real)
    qed (use 3 in \<open>simp_all add: feed_sample_def Let_def f32_ends split: if_splits\<close>)
  qed
qed

text \<open>What the feeding thread writes is the samples of the mix in their order.\<close>

lemma feed_write_prefix: "\<exists>rest. out = concat (feed_write results out left) @ rest"
proof (induction results out left rule: feed_write.induct)
  case (2 n results out left)
  show ?case
  proof (cases "left \<le> 0 \<or> n < 0")
    case False
    let ?k = "nat (n * 2)"
    obtain rest where "drop ?k out = concat (feed_write results (drop ?k out) (left - n)) @ rest"
      using 2 False by auto
    then have "out = take ?k out @ concat (feed_write results (drop ?k out) (left - n)) @ rest"
      by (metis append_take_drop_id)
    then show ?thesis using False by auto
  qed auto
qed simp

section \<open>The calls of a driver\<close>

text \<open>
  What a program may do with the ALSA driver. \<open>malloc\<close> gives a pointer that is not 0 and not
  in use; the handles run out at 2 ^ 32 sounds; the driver is opened with no sounds added before it.
\<close>

inductive alsa_step :: "libm \<Rightarrow> audio \<Rightarrow> audio \<Rightarrow> bool" for lm where
  init: "live_sounds (mx a) = [] \<Longrightarrow> alsa_step lm a (snd (alsa_init o1 o2 o3 a))"
| deinit: "alsa_step lm a (snd (alsa_deinit a))"
| add: "p \<noteq> 0 \<Longrightarrow> bufs a p = None \<Longrightarrow> next_handle (mx a) \<noteq> - 1 \<Longrightarrow>
    alsa_add_sfx path (wav_load (fpu_of_mixer lm) turns src mem_ok) p a = Some (h, a') \<Longrightarrow> alsa_step lm a a'"
| play: "alsa_step lm a (snd (alsa_play_sfx lm h pan a))"
| change: "alsa_step lm a (snd (alsa_change_sfx h state a))"
| remove: "alsa_step lm a (snd (alsa_remove_sfx h a))"
| feed: "feeding a \<Longrightarrow> feed_mix lm a = Some (out, a') \<Longrightarrow> alsa_step lm a a'"

inductive_cases alsa_stepE: "alsa_step lm a a'"

definition audio_start :: audio where
  "audio_start = \<lparr>opened = False, feeding = False, mx = mixer_start, bufs = Map.empty\<rparr>"

lemma audio_ok_start: "audio_ok audio_start"
  by (auto simp: audio_ok_def audio_start_def keeper_ok_def mixer_ok_start buffers_ok_def mx.owns_def
      held_def live_sounds_def) (simp_all add: mixer_start_def)

lemma init_ok:
  assumes "audio_ok a" "live_sounds (mx a) = []"
  shows "audio_ok (snd (alsa_init o1 o2 o3 a))"
proof -
  have "keeper_ok (mixer_reset (mx a))"
    using assms(1) mixer_ok_reset [of "mx a"] by (auto simp: audio_ok_def keeper_ok_def mixer_reset_def)
  moreover have "live_sounds (mixer_reset (mx a)) = live_sounds (mx a)"
    unfolding assms(2) by (simp add: live_sounds_def mixer_reset_def)
  ultimately have "audio_ok (a\<lparr>mx := mixer_reset (mx a)\<rparr>)" by (rule audio_ok_live [OF assms(1)])
  then show ?thesis using assms(1) by (auto simp: alsa_init_def Let_def audio_ok_def)
qed

lemma play_change_ok:
  assumes "audio_ok a"
  shows "audio_ok (snd (alsa_play_sfx lm h pan a))" "audio_ok (snd (alsa_change_sfx h state a))"
proof -
  have k: "mixer_ok (mx a)" "next_handle (mx a) \<noteq> 0" using assms by (simp_all add: audio_ok_def keeper_ok_def)
  have "keeper_ok (snd (mixer_play lm h pan (mx a)))" "keeper_ok (snd (mixer_change h state (mx a)))"
    using mixer_ok_play [OF k(1)] mixer_ok_change [OF k(1)] k(2) by (simp_all add: keeper_ok_def)
  then show "audio_ok (snd (alsa_play_sfx lm h pan a))" "audio_ok (snd (alsa_change_sfx h state a))"
    using audio_ok_live [OF assms] assms
    by (simp_all add: alsa_play_sfx_def alsa_change_sfx_def Let_def)
qed

lemma add_ok:
  assumes "audio_ok a" "p \<noteq> 0" "bufs a p = None" "next_handle (mx a) \<noteq> - 1"
    "alsa_add_sfx path (wav_load u turns src mem_ok) p a = Some (h, a')"
  shows "audio_ok a'"
proof (cases "wav_load u turns src mem_ok")
  case (Loaded xs n)
  have "1 \<le> n" "length xs = nat (2 * n)"
    using wav_load_inside [of u turns src mem_ok] Loaded by simp_all
  then have "audio_ok (snd (keep_samples p xs n a))"
    using keep_samples_ok [OF assms(1,2,3) _ _ assms(4)] by simp
  then show ?thesis using assms(1,5) Loaded by (auto simp: alsa_add_sfx_def split: if_splits)
qed (use assms(1,5) in \<open>auto simp: alsa_add_sfx_def split: if_splits\<close>)

lemma alsa_step_ok:
  assumes "alsa_step lm a a'" "audio_ok a"
  shows "audio_ok a'"
  using assms(1)
proof (cases rule: alsa_step.cases)
  case (init o1 o2 o3)
  then show ?thesis using init_ok [OF assms(2)] by simp
next
  case deinit
  then show ?thesis using deinit_frees [OF assms(2)] by (simp add: Let_def)
next
  case (add p path turns src mem_ok h)
  then show ?thesis using add_ok [OF assms(2)] by blast
next
  case (feed out)
  then show ?thesis
    using audio_mix_ok [OF assms(2), of FEED_FRAMES lm]
    by (auto simp: feed_mix_def split: option.splits)
qed (use play_change_ok remove_samples_ok(1) assms(2) in blast)+

lemma alsa_reaches_ok: "(alsa_step lm)\<^sup>*\<^sup>* a a' \<Longrightarrow> audio_ok a \<Longrightarrow> audio_ok a'"
  by (induction rule: rtranclp_induct) (auto intro: alsa_step_ok)


text \<open>SDL's callback is given just the frames it asks for, in pieces of no more than 1024.\<close>

theorem sdl3_mix_all:
  assumes "audio_ok a"
  shows "\<exists>out a'. sdl3_mix lm n a = Some (out, a') \<and> length out = nat (2 * n) \<and> audio_ok a'"
  using assms
proof (induction lm n a rule: sdl3_mix.induct)
  case (1 lm n a)
  show ?case
  proof (cases "n \<le> 0")
    case True
    then show ?thesis using 1(2) by (simp add: sdl3_mix.simps)
  next
    case False
    let ?n = "if n < 1024 then n else 1024"
    have n0: "0 \<le> ?n" using False by simp
    obtain mix m where m: "mixer_mix lm (bufs a) ?n (mx a) = Some (mix, m)" "length mix = nat (2 * ?n)"
        "audio_ok (a\<lparr>mx := m\<rparr>)"
      using audio_mix_ok [OF 1(2), of ?n lm] n0 by blast
    obtain out a' where o: "sdl3_mix lm (n - ?n) (a\<lparr>mx := m\<rparr>) = Some (out, a')"
        "length out = nat (2 * (n - ?n))" "audio_ok a'"
      using "1.IH" [OF False refl m(1) refl m(3)] by blast
    have "sdl3_mix lm n a = Some (mix @ out, a')"
      using False m(1) o(1) by (subst sdl3_mix.simps) (simp add: Let_def)
    then show ?thesis using m(2) o(2,3) False by auto
  qed
qed

section \<open>SDL_mixer\<close>

text \<open>
  src/host/audio_sdl.cpp, which leaves the mixing to the library SDL_mixer and keeps a table of the
  chunks it has loaded. What the library is asked to do is the list of calls given back.
\<close>

record sound_effect =
  fx_handle :: u32
  fx_chunk :: u64

record sdl_audio =
  fx_table :: "sound_effect list"
  fx_count :: nat
  fx_next :: u32

datatype mix_call = MixPause int | MixResume int | MixHalt int | MixSetPanning int int int
  | MixFreeChunk u64

definition fx_find :: "u32 \<Rightarrow> sdl_audio \<Rightarrow> nat option" where
  "fx_find h t = find (\<lambda>i. fx_handle (fx_table t ! i) = h) [0..<fx_count t]"

definition sdl_init :: "bool \<Rightarrow> bool \<Rightarrow> sdl_audio \<Rightarrow> int \<times> sdl_audio" where
  "sdl_init init_ok open_ok t =
     (if \<not> init_ok then (- 1, t) else if \<not> open_ok then (- 1, t)
      else (0, t\<lparr>fx_count := 0, fx_next := 0x1000\<rparr>))"

definition sdl_deinit :: "sdl_audio \<Rightarrow> mix_call list \<times> sdl_audio" where
  "sdl_deinit t = (map (\<lambda>i. MixFreeChunk (fx_chunk (fx_table t ! i))) [0..<fx_count t], t\<lparr>fx_count := 0\<rparr>)"

definition sdl_add_sfx :: "string \<Rightarrow> u64 \<Rightarrow> sdl_audio \<Rightarrow> u32 \<times> sdl_audio" where
  "sdl_add_sfx path chunk t =
     (if \<not> wav_path path then (- 1, t)
      else if fx_count t \<ge> 256 then (- 1, t)
      else if chunk = 0 then (- 1, t)
      else (fx_next t, t\<lparr>fx_next := fx_next t + 1,
              fx_table := (fx_table t)[fx_count t := \<lparr>fx_handle = fx_next t, fx_chunk = chunk\<rparr>],
              fx_count := fx_count t + 1\<rparr>))"

definition sdl_play_sfx :: "int \<Rightarrow> u32 \<Rightarrow> int \<Rightarrow> sdl_audio \<Rightarrow> int \<times> mix_call list" where
  "sdl_play_sfx channel h pan t =
     (case fx_find h t of None \<Rightarrow> (- 1, [])
      | Some i \<Rightarrow>
         let pan = (if pan < - 255 then - 255 else pan); pan = (if pan > 255 then 255 else pan)
         in (0, if channel \<ge> 0 then [MixSetPanning channel (if pan > 0 then 255 - pan else 255)
                                      (if pan < 0 then 255 + pan else 255)] else []))"

text \<open>\<open>playing\<close> is what \<open>Mix_Playing(-1)\<close> gives.\<close>

definition sdl_change_sfx :: "int \<Rightarrow> u32 \<Rightarrow> int \<Rightarrow> sdl_audio \<Rightarrow> int \<times> mix_call list" where
  "sdl_change_sfx playing h state t =
     (case fx_find h t of None \<Rightarrow> (- 1, [])
      | Some i \<Rightarrow>
         if playing = - 1 then (- 2, [])
         else (0, if state = 1 then [MixPause playing] else if state = 0 then [MixResume playing]
                  else if state = - 1 then [MixHalt playing] else []))"

definition sdl_remove_sfx :: "u32 \<Rightarrow> sdl_audio \<Rightarrow> int \<times> mix_call list \<times> sdl_audio" where
  "sdl_remove_sfx h t =
     (case fx_find h t of None \<Rightarrow> (- 1, [], t)
      | Some i \<Rightarrow> (0, [MixFreeChunk (fx_chunk (fx_table t ! i))],
          t\<lparr>fx_table := (fx_table t)[i := fx_table t ! (fx_count t - 1)], fx_count := fx_count t - 1\<rparr>))"

text \<open>
  with SDL_mixer a change of a sound does not look at which sound it is: for any two handles
  that are known the library is asked for the very same thing, on the channel whose number is the
  number of channels that play.
\<close>

theorem sdl_change_ignores_handle:
  assumes "fx_find h t = Some i" "fx_find h' t = Some j" "0 \<le> playing"
  shows "sdl_change_sfx playing h state t = sdl_change_sfx playing h' state t
    \<and> (state = 1 \<longrightarrow> snd (sdl_change_sfx playing h state t) = [MixPause playing])"
  using assms by (simp add: sdl_change_sfx_def)

text \<open>Removing a sound frees its chunk and keeps the others, as the mixer does.\<close>

lemma sdl_remove_keeps:
  assumes "fx_find h t = Some i" "fx_count t \<le> length (fx_table t)"
  shows "mset (map fx_chunk (take (fx_count t) (fx_table t))) =
    add_mset (fx_chunk (fx_table t ! i))
      (mset (map fx_chunk (take (fx_count (snd (snd (sdl_remove_sfx h t))))
        (fx_table (snd (snd (sdl_remove_sfx h t)))))))"
proof -
  have "i < fx_count t" using assms(1) by (auto simp: fx_find_def find_Some_iff)
  then show ?thesis
    using mset_swap_remove [of i "fx_count t" "fx_table t"] assms by (simp add: sdl_remove_sfx_def)
qed

section \<open>The theorems at work\<close>

definition libm0 :: libm where "libm0 = \<lparr>fpu_of_mixer = fpu0, expf = \<lambda>_. 0\<rparr>"

theorem alsa_deinit_frees_witness:
  "let a' = snd (alsa_deinit audio_start) in bufs a' = Map.empty \<and> live_sounds (mx a') = []
    \<and> \<not> opened a' \<and> audio_ok a'"
  by (rule alsa_deinit_frees [OF audio_ok_start])


theorem sdl3_mix_all_witness:
  "\<exists>out a'. sdl3_mix libm0 1500 audio_start = Some (out, a') \<and> length out = nat (2 * 1500) \<and> audio_ok a'"
  by (rule sdl3_mix_all [OF audio_ok_start])

theorem sdl_change_ignores_handle_witness:
  "let t = \<lparr>fx_table = [\<lparr>fx_handle = 1, fx_chunk = 8\<rparr>, \<lparr>fx_handle = 2, fx_chunk = 9\<rparr>],
      fx_count = 2, fx_next = 3\<rparr> in
    sdl_change_sfx 1 1 1 t = sdl_change_sfx 1 2 1 t \<and> snd (sdl_change_sfx 1 1 1 t) = [MixPause 1]"
proof -
  let ?t = "\<lparr>fx_table = [\<lparr>fx_handle = 1, fx_chunk = 8\<rparr>, \<lparr>fx_handle = 2, fx_chunk = 9\<rparr>],
      fx_count = 2, fx_next = 3\<rparr>"
  have "fx_find 1 ?t = Some 0" "fx_find 2 ?t = Some 1"
    by (simp_all add: fx_find_def numeral_2_eq_2)
  note r = sdl_change_ignores_handle [OF this, of 1 1]
  show ?thesis unfolding Let_def
  proof (rule conjI)
    show "sdl_change_sfx 1 1 1 ?t = sdl_change_sfx 1 2 1 ?t" using r by simp
    show "snd (sdl_change_sfx 1 1 1 ?t) = [MixPause 1]" using r by (metis zero_le_one)
  qed
qed

end
