(* ===== verification/Net.thy ===== *)
theory Net
  imports Prelude "HOL-Library.Multiset"
begin

text \<open>
  The network driver, \<^verbatim>\<open>src/src/host/net.cpp\<close>: a table of 256 slots, one for each handle, and
  for each connect under way a thread that resolves the name and connects.

  The functions the Lisp side calls come from one thread and are each one step here; a worker
  runs beside them, so each of its reads and writes of the table is a step of its own and the
  two are interleaved in any order. The sockets the process holds open are part of the state,
  with a mark \<open>stray\<close> that is set when a descriptor that is not open is closed. What the system
  answers, a new socket, whether it is bound, how many bytes were taken, is an argument of the
  operation that asks.
\<close>

section \<open>Slots\<close>

datatype sock_state = SOCK_FREE | SOCK_RESOLVING | SOCK_CONNECTING | SOCK_CONNECTED
  | SOCK_LISTENING | SOCK_UDP | SOCK_FAILED

record net_slot =
  slot_fd :: int
  slot_state :: sock_state
  slot_host :: "u8 list"
  slot_port :: u32
  slot_cancelled :: bool

definition SOCK_INVALID :: int where "SOCK_INVALID = - 1"

definition MAX_NET_HANDLES :: nat where "MAX_NET_HANDLES = 256"

definition empty_slot :: net_slot where
  "empty_slot = \<lparr>slot_fd = 0, slot_state = SOCK_FREE, slot_host = replicate 256 0,
     slot_port = 0, slot_cancelled = False\<rparr>"

text \<open>What \<open>connect\<close> answers: done, on its way (\<open>EINPROGRESS\<close>), or an error.\<close>

datatype conn = Conn_done | Conn_in_progress | Conn_error

text \<open>
  Where a worker is in \<open>resolve_and_connect_worker\<close>: about to ask for the addresses; about to
  look whether it was cancelled, with the number of addresses found, if any; trying the
  addresses that are left, with what the last try gave; about to look whether it was cancelled
  a second time; about to store the descriptor; about to store the state; about to store a
  final state; done.
\<close>

datatype worker = W_resolve | W_check "nat option" | W_try nat conn | W_check2 int conn
  | W_store_fd int conn | W_store_state int conn | W_final sock_state | W_done

record net =
  slots :: "net_slot list"
  net_initialized :: bool
  workers :: "(nat \<times> worker) list"
  open_fds :: "int list"
  stray :: bool

definition net_start :: net where
  "net_start = \<lparr>slots = replicate MAX_NET_HANDLES empty_slot, net_initialized = False,
     workers = [], open_fds = [], stray = False\<rparr>"

text \<open>Closing -1 is refused by the system and changes nothing.\<close>

definition close_fd :: "int \<Rightarrow> net \<Rightarrow> net" where
  "close_fd f n = (if f \<in> set (open_fds n) then n\<lparr>open_fds := remove1 f (open_fds n)\<rparr>
     else if f = SOCK_INVALID then n else n\<lparr>stray := True\<rparr>)"

text \<open>The system gave a socket, or -1.\<close>

definition new_fd :: "int \<Rightarrow> net \<Rightarrow> net" where
  "new_fd f n = (if f = SOCK_INVALID then n else n\<lparr>open_fds := f # open_fds n\<rparr>)"

definition upd_slot :: "nat \<Rightarrow> (net_slot \<Rightarrow> net_slot) \<Rightarrow> net \<Rightarrow> net" where
  "upd_slot h g n = n\<lparr>slots := (slots n)[h := g (slots n ! h)]\<rparr>"

section \<open>Starting, stopping, and taking a slot\<close>

definition host_net_init :: "net \<Rightarrow> net" where
  "host_net_init n = (if net_initialized n then n
     else n\<lparr>slots := map (\<lambda>s. s\<lparr>slot_fd := SOCK_INVALID, slot_state := SOCK_FREE,
              slot_cancelled := False\<rparr>) (slots n), net_initialized := True\<rparr>)"

text \<open>The first free slot of \<open>ss\<close>, whose first one has the index \<open>i\<close>.\<close>

fun free_slot :: "nat \<Rightarrow> net_slot list \<Rightarrow> nat option" where
  "free_slot i [] = None"
| "free_slot i (s # ss) = (if slot_state s = SOCK_FREE then Some i else free_slot (Suc i) ss)"

definition alloc_slot :: "int \<Rightarrow> sock_state \<Rightarrow> net \<Rightarrow> nat \<times> net" where
  "alloc_slot f st n =
     (let n = host_net_init n in
      case free_slot 1 (tl (slots n)) of
        Some i \<Rightarrow> (i, upd_slot i (\<lambda>s. s\<lparr>slot_fd := f, slot_state := st, slot_cancelled := False\<rparr>) n)
      | None \<Rightarrow> (0, if f \<noteq> SOCK_INVALID then close_fd f n else n))"

definition deinit_slot :: "nat \<Rightarrow> net \<Rightarrow> net" where
  "deinit_slot i n =
     (if slot_state (slots n ! i) = SOCK_FREE then n
      else if slot_state (slots n ! i) = SOCK_RESOLVING then upd_slot i (\<lambda>s. s\<lparr>slot_cancelled := True\<rparr>) n
      else upd_slot i (\<lambda>s. s\<lparr>slot_state := SOCK_FREE, slot_fd := SOCK_INVALID\<rparr>)
             (close_fd (slot_fd (slots n ! i)) n))"

fun deinit_slots :: "nat list \<Rightarrow> net \<Rightarrow> net" where
  "deinit_slots [] n = n"
| "deinit_slots (i # is) n = deinit_slots is (deinit_slot i n)"

definition host_net_deinit :: "net \<Rightarrow> net" where
  "host_net_deinit n = (if net_initialized n
     then (deinit_slots [1..<MAX_NET_HANDLES] n)\<lparr>net_initialized := False\<rparr> else n)"

section \<open>Connecting\<close>

text \<open>
  \<open>strncpy\<close> of \<open>m\<close> bytes from a string: the bytes before its end, filled up with zeros. The
  string may be given with what follows its closing zero, which is not copied.
\<close>

definition c_str :: "u8 list \<Rightarrow> u8 list" where
  "c_str bs = takeWhile (\<lambda>b. b \<noteq> 0) bs"

definition strncpy :: "nat \<Rightarrow> u8 list \<Rightarrow> u8 list" where
  "strncpy m bs = take m (c_str bs) @ replicate (m - length (c_str bs)) 0"

definition copy_host :: "u8 list option \<Rightarrow> u8 list \<Rightarrow> u8 list" where
  "copy_host host old = (strncpy 255 (case host of Some h \<Rightarrow> h | None \<Rightarrow> []) @ drop 255 old)[255 := 0]"

definition start_resolve_thread :: "bool \<Rightarrow> nat \<Rightarrow> net \<Rightarrow> net" where
  "start_resolve_thread created h n =
     (if created then n\<lparr>workers := workers n @ [(h, W_resolve)]\<rparr>
      else upd_slot h (\<lambda>s. s\<lparr>slot_state := SOCK_FAILED\<rparr>) n)"

definition host_net_connect :: "bool \<Rightarrow> u8 list option \<Rightarrow> u32 \<Rightarrow> net \<Rightarrow> nat \<times> net" where
  "host_net_connect created host port n =
     (case alloc_slot SOCK_INVALID SOCK_RESOLVING n of (h, n) \<Rightarrow>
      if h = 0 then (0, n)
      else (h, start_resolve_thread created h
             (upd_slot h (\<lambda>s. s\<lparr>slot_port := port, slot_cancelled := False,
                slot_host := copy_host host (slot_host s)\<rparr>) n)))"

text \<open>
  One step of the worker of slot \<open>h\<close>. What the system answers at this step is \<open>addrs\<close>, the
  addresses of the name or none, and \<open>sock\<close> and \<open>con\<close>, the socket and the connect of the
  address that is tried. A try that gives no socket leaves the last connect's answer; one that
  neither connects nor is on its way closes its socket.
\<close>

fun worker_step :: "nat option \<Rightarrow> int \<Rightarrow> conn \<Rightarrow> nat \<Rightarrow> worker \<Rightarrow> net \<Rightarrow> worker \<times> net" where
  "worker_step addrs sock con h W_resolve n = (W_check addrs, n)"
| "worker_step addrs sock con h (W_check found) n =
     (if slot_cancelled (slots n ! h) then (W_final SOCK_FREE, n)
      else case found of
        None \<Rightarrow> (W_final SOCK_FAILED, n)
      | Some k \<Rightarrow> (if k = 0 then (W_final SOCK_FAILED, n) else (W_try k Conn_error, n)))"
| "worker_step addrs sock con h (W_try k r) n =
     (if k = 0 then (W_check2 SOCK_INVALID r, n)
      else if sock = SOCK_INVALID then (W_try (k - 1) r, n)
      else if con = Conn_error then (W_try (k - 1) con, close_fd sock (new_fd sock n))
      else (W_check2 sock con, new_fd sock n))"
| "worker_step addrs sock con h (W_check2 f r) n =
     (if slot_cancelled (slots n ! h)
      then (W_final SOCK_FREE, if f \<noteq> SOCK_INVALID then close_fd f n else n)
      else if f = SOCK_INVALID then (W_final SOCK_FAILED, n)
      else (W_store_fd f r, n))"
| "worker_step addrs sock con h (W_store_fd f r) n =
     (W_store_state f r, upd_slot h (\<lambda>s. s\<lparr>slot_fd := f\<rparr>) n)"
| "worker_step addrs sock con h (W_store_state f r) n =
     (W_done, upd_slot h (\<lambda>s. s\<lparr>slot_state := if r = Conn_done then SOCK_CONNECTED else SOCK_CONNECTING\<rparr>) n)"
| "worker_step addrs sock con h (W_final st) n = (W_done, upd_slot h (\<lambda>s. s\<lparr>slot_state := st\<rparr>) n)"
| "worker_step addrs sock con h W_done n = (W_done, n)"

text \<open>The worker at place \<open>k\<close> of the threads makes its step.\<close>

definition run_worker :: "nat option \<Rightarrow> int \<Rightarrow> conn \<Rightarrow> nat \<Rightarrow> net \<Rightarrow> net" where
  "run_worker addrs sock con k n =
     (case workers n ! k of (h, w) \<Rightarrow>
      case worker_step addrs sock con h w n of (w', n') \<Rightarrow>
      n'\<lparr>workers := (workers n')[k := (h, w')]\<rparr>)"

section \<open>Listening and taking calls\<close>

definition host_net_listen :: "int \<Rightarrow> bool \<Rightarrow> bool \<Rightarrow> net \<Rightarrow> nat \<times> net" where
  "host_net_listen sock bound listening n =
     (let n = host_net_init n in
      if sock = SOCK_INVALID then (0, n)
      else let n = new_fd sock n in
        if \<not> bound then (0, close_fd sock n)
        else if \<not> listening then (0, close_fd sock n)
        else alloc_slot sock SOCK_LISTENING n)"

definition handle_in :: "sock_state \<Rightarrow> u32 \<Rightarrow> net \<Rightarrow> bool" where
  "handle_in st h n \<longleftrightarrow> \<not> (h = 0 \<or> MAX_NET_HANDLES \<le> unat h \<or> slot_state (slots n ! unat h) \<noteq> st)"

definition host_net_accept :: "int \<Rightarrow> u32 \<Rightarrow> net \<Rightarrow> nat \<times> net" where
  "host_net_accept client h n =
     (if \<not> handle_in SOCK_LISTENING h n then (0, n)
      else if client = SOCK_INVALID then (0, n)
      else alloc_slot client SOCK_CONNECTED (new_fd client n))"

section \<open>Sending and receiving\<close>

text \<open>
  The system answers with a 64 bit count, or a negative value and an error number; the code
  keeps the low 32 bits. \<open>again\<close> is an error number of \<open>EAGAIN\<close> or \<open>EWOULDBLOCK\<close>. The length
  given to the system is cast to \<open>int\<close> and widened again. The first component of the result is
  the descriptor and length the system was given, if it was asked at all.
\<close>

definition io_len :: "u64 \<Rightarrow> u64" where
  "io_len len = scast (ucast len :: u32)"

definition io_int :: "u64 \<Rightarrow> u32" where
  "io_int r = ucast r"

definition host_net_send :: "u64 \<Rightarrow> bool \<Rightarrow> u32 \<Rightarrow> u64 \<Rightarrow> net \<Rightarrow> (int \<times> u64) option \<times> u64" where
  "host_net_send r again h len n =
     (if \<not> handle_in SOCK_CONNECTED h n then (None, - 1)
      else (Some (slot_fd (slots n ! unat h), io_len len),
        if 0 \<le> sint (io_int r) then scast (io_int r)
        else if again then 0 else - 1))"

definition host_net_recv :: "u64 \<Rightarrow> bool \<Rightarrow> u32 \<Rightarrow> u64 \<Rightarrow> net \<Rightarrow> (int \<times> u64) option \<times> u64" where
  "host_net_recv r again h max_len n =
     (if \<not> handle_in SOCK_CONNECTED h n then (None, - 1)
      else (Some (slot_fd (slots n ! unat h), io_len max_len),
        if 0 < sint (io_int r) then scast (io_int r)
        else if io_int r = 0 then - 1
        else if again then 0 else - 1))"

definition host_net_close :: "u32 \<Rightarrow> net \<Rightarrow> u64 \<times> net" where
  "host_net_close h n =
     (if h = 0 \<or> MAX_NET_HANDLES \<le> unat h \<or> slot_state (slots n ! unat h) = SOCK_FREE then (- 1, n)
      else if slot_state (slots n ! unat h) = SOCK_RESOLVING
      then (0, upd_slot (unat h) (\<lambda>s. s\<lparr>slot_cancelled := True\<rparr>) n)
      else (0, upd_slot (unat h) (\<lambda>s. s\<lparr>slot_fd := SOCK_INVALID, slot_state := SOCK_FREE\<rparr>)
                 (close_fd (slot_fd (slots n ! unat h)) n)))"

text \<open>
  \<open>ret\<close> is what \<open>poll\<close> answers, \<open>so_err\<close> the pending error of the socket, and the three flags say
  whether the events found have one of \<open>POLLERR\<close>, \<open>POLLHUP\<close> and \<open>POLLNVAL\<close>, have \<open>POLLIN\<close>, have
  \<open>POLLOUT\<close>.
\<close>

definition host_net_poll :: "int \<Rightarrow> int \<Rightarrow> bool \<Rightarrow> bool \<Rightarrow> bool \<Rightarrow> u32 \<Rightarrow> net \<Rightarrow> u64 \<times> net" where
  "host_net_poll ret so_err err inp out h n =
     (if h = 0 \<or> MAX_NET_HANDLES \<le> unat h \<or> slot_state (slots n ! unat h) = SOCK_FREE then (4, n)
      else if slot_state (slots n ! unat h) = SOCK_RESOLVING then (0, n)
      else if slot_state (slots n ! unat h) = SOCK_FAILED then (4, n)
      else if ret \<le> 0 then (0, n)
      else if so_err \<noteq> 0 then (4, n)
      else ((if err then 4 else 0) OR (if inp then 1 else 0) OR (if out then 2 else 0),
        if out \<and> slot_state (slots n ! unat h) = SOCK_CONNECTING
        then upd_slot (unat h) (\<lambda>s. s\<lparr>slot_state := SOCK_CONNECTED\<rparr>) n else n))"

definition host_net_udp_bind :: "int \<Rightarrow> bool \<Rightarrow> net \<Rightarrow> nat \<times> net" where
  "host_net_udp_bind sock bound n =
     (let n = host_net_init n in
      if sock = SOCK_INVALID then (0, n)
      else let n = new_fd sock n in
        if \<not> bound then (0, close_fd sock n)
        else alloc_slot sock SOCK_UDP n)"

definition host_net_udp_send :: "bool \<Rightarrow> u64 \<Rightarrow> bool \<Rightarrow> u32 \<Rightarrow> u64 \<Rightarrow> net \<Rightarrow> (int \<times> u64) option \<times> u64" where
  "host_net_udp_send numeric r again h len n =
     (if \<not> handle_in SOCK_UDP h n then (None, - 1)
      else if \<not> numeric then (None, - 1)
      else (Some (slot_fd (slots n ! unat h), io_len len),
        if 0 \<le> sint (io_int r) then scast (io_int r)
        else if again then 0 else - 1))"

definition host_net_udp_recv :: "u64 \<Rightarrow> bool \<Rightarrow> u32 \<Rightarrow> u64 \<Rightarrow> net \<Rightarrow> (int \<times> u64) option \<times> u64" where
  "host_net_udp_recv r again h max_len n =
     (if \<not> handle_in SOCK_UDP h n then (None, - 1)
      else (Some (slot_fd (slots n ! unat h), io_len max_len),
        if 0 < sint (io_int r) then scast (io_int r)
        else if io_int r = 0 then 0
        else if again then 0 else - 1))"

section \<open>Steps\<close>

text \<open>
  The calls and the steps of the workers in any order. A socket the system gives is none that
  is open. The driver is stopped with no worker under way; what happens otherwise is the
  subject of \<open>deinit_revives\<close> below.
\<close>

definition fresh_fd :: "int \<Rightarrow> net \<Rightarrow> bool" where
  "fresh_fd f n \<longleftrightarrow> f = SOCK_INVALID \<or> f \<notin> set (open_fds n)"

definition idle :: "net \<Rightarrow> bool" where
  "idle n \<longleftrightarrow> list_all (\<lambda>(h, w). w = W_done) (workers n)"

inductive net_step :: "net \<Rightarrow> net \<Rightarrow> bool" where
  init: "net_step n (host_net_init n)"
| deinit: "idle n \<Longrightarrow> net_step n (host_net_deinit n)"
| connect: "net_step n (snd (host_net_connect created host port n))"
| listen: "fresh_fd sock n \<Longrightarrow> net_step n (snd (host_net_listen sock bound listening n))"
| accept: "fresh_fd client n \<Longrightarrow> net_step n (snd (host_net_accept client h n))"
| close: "net_step n (snd (host_net_close h n))"
| poll: "net_step n (snd (host_net_poll ret so_err err inp out h n))"
| udp_bind: "fresh_fd sock n \<Longrightarrow> net_step n (snd (host_net_udp_bind sock bound n))"
| worker: "fresh_fd sock n \<Longrightarrow> k < length (workers n) \<Longrightarrow> net_step n (run_worker addrs sock con k n)"

definition net_reaches :: "net \<Rightarrow> net \<Rightarrow> bool" where
  "net_reaches = net_step\<^sup>*\<^sup>*"

section \<open>Who holds which socket\<close>

definition slot_holds :: "net_slot \<Rightarrow> int list" where
  "slot_holds s = (if slot_state s \<in> {SOCK_FREE, SOCK_RESOLVING, SOCK_FAILED} then [] else [slot_fd s])"

fun worker_holds :: "worker \<Rightarrow> int list" where
  "worker_holds (W_check2 f r) = (if f = SOCK_INVALID then [] else [f])"
| "worker_holds (W_store_fd f r) = [f]"
| "worker_holds (W_store_state f r) = [f]"
| "worker_holds w = []"

definition held_by :: "('a \<Rightarrow> int list) \<Rightarrow> 'a list \<Rightarrow> int multiset" where
  "held_by f xs = mset (concat (map f xs))"

text \<open>Every open socket is held once: by a slot, by a worker, or by the call under way (\<open>fs\<close>).\<close>

definition fds_ok :: "int list \<Rightarrow> net \<Rightarrow> bool" where
  "fds_ok fs n \<longleftrightarrow> mset (open_fds n) =
       held_by slot_holds (slots n) + held_by (worker_holds \<circ> snd) (workers n) + mset fs
     \<and> distinct (open_fds n) \<and> SOCK_INVALID \<notin> set (open_fds n) \<and> \<not> stray n"

text \<open>
  The table and the workers agree: a slot is resolving while a worker runs for it, and no two
  run for one slot.
\<close>

definition worker_ok :: "net \<Rightarrow> nat \<times> worker \<Rightarrow> bool" where
  "worker_ok n hw \<longleftrightarrow> (case hw of (h, w) \<Rightarrow> 0 < h \<and> h < MAX_NET_HANDLES \<and> (w \<noteq> W_done \<longrightarrow>
     slot_state (slots n ! h) = SOCK_RESOLVING \<and>
     slot_fd (slots n ! h) = (case w of W_store_state f r \<Rightarrow> f | _ \<Rightarrow> SOCK_INVALID) \<and>
     (\<forall>st. w = W_final st \<longrightarrow> st = SOCK_FREE \<or> st = SOCK_FAILED) \<and>
     (\<forall>f r. w = W_store_fd f r \<longrightarrow> f \<noteq> SOCK_INVALID)))"

definition table_ok :: "net \<Rightarrow> bool" where
  "table_ok n \<longleftrightarrow> length (slots n) = MAX_NET_HANDLES \<and> slot_state (slots n ! 0) = SOCK_FREE
     \<and> (\<forall>hw \<in> set (workers n). worker_ok n hw)
     \<and> (\<forall>i < MAX_NET_HANDLES. slot_state (slots n ! i) = SOCK_RESOLVING \<longrightarrow>
           (\<exists>w. (i, w) \<in> set (workers n) \<and> w \<noteq> W_done))
     \<and> (\<forall>j < length (workers n). \<forall>k < length (workers n). fst (workers n ! j) = fst (workers n ! k)
           \<and> snd (workers n ! j) \<noteq> W_done \<and> snd (workers n ! k) \<noteq> W_done \<longrightarrow> j = k)
     \<and> (\<forall>i < MAX_NET_HANDLES. slot_state (slots n ! i) = SOCK_FAILED \<longrightarrow> slot_fd (slots n ! i) = SOCK_INVALID)
     \<and> (\<not> net_initialized n \<longrightarrow> (\<forall>i < MAX_NET_HANDLES. slot_state (slots n ! i) = SOCK_FREE))"

definition net_ok :: "net \<Rightarrow> bool" where
  "net_ok n \<longleftrightarrow> table_ok n \<and> fds_ok [] n"

lemma held_update:
  "i < length xs \<Longrightarrow> held_by f (xs[i := x]) + mset (f (xs ! i)) = held_by f xs + mset (f x)"
  unfolding held_by_def by (induction xs arbitrary: i) (auto split: nat.splits simp: ac_simps)

lemma held_update_same: "i < length xs \<Longrightarrow> f x = f (xs ! i) \<Longrightarrow> held_by f (xs[i := x]) = held_by f xs"
  using held_update [of i xs f x] by simp

lemma held_append [simp]: "held_by f (xs @ ys) = held_by f xs + held_by f ys"
  by (simp add: held_by_def)

lemma held_single [simp]: "held_by f [x] = mset (f x)" "held_by f [] = {#}"
  by (simp_all add: held_by_def)

lemma upd_slot_simps [simp]:
  "slots (upd_slot h g n) = (slots n)[h := g (slots n ! h)]"
  "net_initialized (upd_slot h g n) = net_initialized n" "workers (upd_slot h g n) = workers n"
  "open_fds (upd_slot h g n) = open_fds n" "stray (upd_slot h g n) = stray n"
  by (simp_all add: upd_slot_def)

lemma close_fd_simps [simp]:
  "slots (close_fd f n) = slots n" "net_initialized (close_fd f n) = net_initialized n"
  "workers (close_fd f n) = workers n"
  by (simp_all add: close_fd_def)

lemma new_fd_simps [simp]:
  "slots (new_fd f n) = slots n" "net_initialized (new_fd f n) = net_initialized n"
  "workers (new_fd f n) = workers n" "stray (new_fd f n) = stray n"
  by (simp_all add: new_fd_def)

lemma table_ok_fds [simp]: "table_ok (close_fd f n) = table_ok n" "table_ok (new_fd f n) = table_ok n"
  by (simp_all add: table_ok_def worker_ok_def)

lemma fds_new: "fds_ok fs n \<Longrightarrow> fresh_fd f n \<Longrightarrow> f \<noteq> SOCK_INVALID \<Longrightarrow> fds_ok (f # fs) (new_fd f n)"
  by (simp add: fds_ok_def new_fd_def fresh_fd_def)

lemma fds_close: "fds_ok (f # fs) n \<Longrightarrow> fds_ok fs (close_fd f n)"
proof -
  assume ok: "fds_ok (f # fs) n"
  then have f: "f \<in> set (open_fds n)"
    unfolding fds_ok_def by (metis list.set_intros(1) set_mset_mset union_iff)
  with ok show ?thesis
    by (auto simp: fds_ok_def close_fd_def)
qed

text \<open>What a slot held is the call's to hold once the slot is free, and the other way round.\<close>

lemma fds_slot:
  assumes "fds_ok fs n" "h < length (slots n)"
    and "mset (slot_holds (slots n ! h)) + mset fs = mset (slot_holds (g (slots n ! h))) + mset fs'"
  shows "fds_ok fs' (upd_slot h g n)"
proof -
  have "held_by slot_holds (slots (upd_slot h g n)) + mset (slot_holds (slots n ! h))
      = held_by slot_holds (slots n) + mset (slot_holds (g (slots n ! h)))"
    using held_update [OF assms(2)] by simp
  then have "held_by slot_holds (slots (upd_slot h g n)) + mset fs' + mset (slot_holds (slots n ! h))
      = held_by slot_holds (slots n) + mset fs + mset (slot_holds (slots n ! h))"
    using assms(3) by (metis (no_types, lifting) add.assoc add.commute)
  then have "held_by slot_holds (slots (upd_slot h g n)) + mset fs'
      = held_by slot_holds (slots n) + mset fs"
    by simp
  then show ?thesis
    using assms(1) unfolding fds_ok_def by (simp add: ac_simps)
qed

lemma fds_worker:
  assumes "fds_ok fs n" "k < length (workers n)"
    and "mset (worker_holds (snd (workers n ! k))) + mset fs = mset (worker_holds w) + mset fs'"
  shows "fds_ok fs' (n\<lparr>workers := (workers n)[k := (h, w)]\<rparr>)"
proof -
  let ?f = "worker_holds \<circ> snd" and ?ws = "(workers n)[k := (h, w)]"
  have "held_by ?f ?ws + mset (?f (workers n ! k)) = held_by ?f (workers n) + mset (worker_holds w)"
    using held_update [OF assms(2), of ?f "(h, w)"] by simp
  then have "held_by ?f ?ws + mset fs' + mset (?f (workers n ! k))
      = held_by ?f (workers n) + mset fs + mset (?f (workers n ! k))"
    using assms(3) by (metis (no_types, lifting) add.assoc add.commute comp_apply)
  then have "held_by ?f ?ws + mset fs' = held_by ?f (workers n) + mset fs"
    by simp
  then show ?thesis
    using assms(1) unfolding fds_ok_def by (simp add: ac_simps)
qed

section \<open>The calls keep the table and the sockets in order\<close>

lemma free_slot_Some: "free_slot i ss = Some j \<Longrightarrow> i \<le> j \<and> j < i + length ss \<and> slot_state (ss ! (j - i)) = SOCK_FREE"
  by (induction i ss rule: free_slot.induct) (auto split: if_splits simp: nth_Cons' Suc_diff_le)

lemma free_slot_None: "free_slot i ss = None \<longleftrightarrow> (\<forall>s \<in> set ss. slot_state s \<noteq> SOCK_FREE)"
  by (induction i ss rule: free_slot.induct) auto

lemma table_ok_length: "table_ok n \<Longrightarrow> length (slots n) = MAX_NET_HANDLES"
  by (simp add: table_ok_def)

lemma upd_slot_id: "h < length (slots n) \<Longrightarrow> upd_slot h (\<lambda>s. s) n = n"
  by (simp add: upd_slot_def)

lemma live_worker:
  "table_ok n \<Longrightarrow> (h, w) \<in> set (workers n) \<Longrightarrow> w \<noteq> W_done \<Longrightarrow>
     0 < h \<and> h < MAX_NET_HANDLES \<and> slot_state (slots n ! h) = SOCK_RESOLVING \<and> net_initialized n \<and>
     slot_fd (slots n ! h) = (case w of W_store_state f r \<Rightarrow> f | _ \<Rightarrow> SOCK_INVALID) \<and>
     (\<forall>st. w = W_final st \<longrightarrow> st = SOCK_FREE \<or> st = SOCK_FAILED) \<and>
     (\<forall>f r. w = W_store_fd f r \<longrightarrow> f \<noteq> SOCK_INVALID)"
  unfolding table_ok_def worker_ok_def by fastforce

lemma table_slot:
  assumes "table_ok n" "0 < h" "h < MAX_NET_HANDLES"
    and "slot_state (slots n ! h) \<noteq> SOCK_RESOLVING" "slot_state (g (slots n ! h)) \<noteq> SOCK_RESOLVING"
    and "slot_state (g (slots n ! h)) = SOCK_FAILED \<Longrightarrow> slot_fd (g (slots n ! h)) = SOCK_INVALID"
    and "net_initialized n \<or> slot_state (g (slots n ! h)) = SOCK_FREE"
  shows "table_ok (upd_slot h g n)"
  using assms unfolding table_ok_def worker_ok_def
  by (auto simp: nth_list_update split: prod.splits)

lemma table_same:
  assumes "table_ok n" "slot_state (g (slots n ! h)) = slot_state (slots n ! h)"
    and "slot_fd (g (slots n ! h)) = slot_fd (slots n ! h)"
  shows "table_ok (upd_slot h g n)"
proof (cases "h < length (slots n)")
  case True
  have "slot_state ((slots n)[h := g (slots n ! h)] ! i) = slot_state (slots n ! i)"
    "slot_fd ((slots n)[h := g (slots n ! h)] ! i) = slot_fd (slots n ! i)" for i
    using True assms(2,3) by (auto simp: nth_list_update)
  then show ?thesis
    using assms(1) unfolding table_ok_def worker_ok_def by simp
next
  case False
  then have "upd_slot h g n = n" by (simp add: upd_slot_def list_update_beyond)
  then show ?thesis using assms(1) by simp
qed

lemma table_worker:
  assumes ok: "table_ok n" and k: "k < length (workers n)" "workers n ! k = (h, w)" "w \<noteq> W_done"
    and go: "w' \<noteq> W_done \<Longrightarrow> slot_state (g (slots n ! h)) = SOCK_RESOLVING \<and>
        slot_fd (g (slots n ! h)) = (case w' of W_store_state f r \<Rightarrow> f | _ \<Rightarrow> SOCK_INVALID) \<and>
        (\<forall>st. w' = W_final st \<longrightarrow> st = SOCK_FREE \<or> st = SOCK_FAILED) \<and>
        (\<forall>f r. w' = W_store_fd f r \<longrightarrow> f \<noteq> SOCK_INVALID)"
    and over: "w' = W_done \<Longrightarrow> slot_state (g (slots n ! h)) \<noteq> SOCK_RESOLVING \<and>
        (slot_state (g (slots n ! h)) = SOCK_FAILED \<longrightarrow> slot_fd (g (slots n ! h)) = SOCK_INVALID)"
  shows "table_ok ((upd_slot h g n)\<lparr>workers := (workers n)[k := (h, w')]\<rparr>)" (is "table_ok ?n")
proof -
  have h: "0 < h" "h < length (slots n)" "net_initialized n" "length (slots n) = MAX_NET_HANDLES"
    using live_worker [OF ok, of h w] k nth_mem [of k "workers n"] table_ok_length [OF ok] by auto
  have other: "fst (workers n ! j) \<noteq> h" if "j < length (workers n)" "j \<noteq> k" "snd (workers n ! j) \<noteq> W_done" for j
    using ok k that unfolding table_ok_def by fastforce
  have ws: "worker_ok ?n (workers ?n ! j)" if "j < length (workers n)" for j
  proof (cases "j = k")
    case True
    then show ?thesis using k h go by (simp add: worker_ok_def)
  next
    case False
    have "worker_ok n (workers n ! j)" using ok that by (simp add: table_ok_def)
    then show ?thesis
      using other [OF that False] False that by (auto simp: worker_ok_def split: prod.splits)
  qed
  have live: "\<exists>u. (i, u) \<in> set (workers ?n) \<and> u \<noteq> W_done"
    if i: "i < MAX_NET_HANDLES" "slot_state (slots ?n ! i) = SOCK_RESOLVING" for i
  proof (cases "i = h")
    case True
    then have "w' \<noteq> W_done" using i h over by auto
    then show ?thesis
      using True k(1) by (auto intro!: exI [of _ w'] simp: set_update_memI)
  next
    case False
    then obtain u where u: "(i, u) \<in> set (workers n)" "u \<noteq> W_done"
    proof -
      have "slot_state (slots n ! i) = SOCK_RESOLVING" using i False by simp
      then show ?thesis using ok i(1) that unfolding table_ok_def by blast
    qed
    then obtain j where "j < length (workers n)" "workers n ! j = (i, u)" by (auto simp: in_set_conv_nth)
    then have "j < length (workers ?n)" "workers ?n ! j = (i, u)" using False k by (auto simp: nth_list_update)
    then show ?thesis using u(2) by (metis nth_mem)
  qed
  have one: "i = j" if "i < length (workers n)" "j < length (workers n)"
    "fst (workers ?n ! i) = fst (workers ?n ! j)" "snd (workers ?n ! i) \<noteq> W_done"
    "snd (workers ?n ! j) \<noteq> W_done" for i j
  proof (cases "i = k \<or> j = k")
    case True
    then show ?thesis
      using that other k by (fastforce simp: nth_list_update split: if_splits)
  next
    case False
    then show ?thesis using ok that unfolding table_ok_def by simp
  qed
  have failed: "slot_fd (slots ?n ! i) = SOCK_INVALID"
    if "i < MAX_NET_HANDLES" "slot_state (slots ?n ! i) = SOCK_FAILED" for i
  proof (cases "i = h")
    case True
    then show ?thesis using that h go over by (cases "w' = W_done") auto
  next
    case False
    then show ?thesis using ok that unfolding table_ok_def by auto
  qed
  have "slot_state (slots ?n ! 0) = SOCK_FREE" "length (slots ?n) = MAX_NET_HANDLES" "net_initialized ?n"
    using ok h unfolding table_ok_def by simp_all
  then show ?thesis
    unfolding table_ok_def using ws live one failed
    by (simp add: all_set_conv_all_nth del: upd_slot_simps(1))
qed

lemma init_simps [simp]:
  "net_initialized (host_net_init n)" "length (slots (host_net_init n)) = length (slots n)"
  "open_fds (host_net_init n) = open_fds n" "workers (host_net_init n) = workers n"
  "stray (host_net_init n) = stray n"
  by (simp_all add: host_net_init_def)

lemma table_init: "table_ok n \<Longrightarrow> table_ok (host_net_init n)"
  by (cases "net_initialized n") (auto simp: table_ok_def worker_ok_def host_net_init_def MAX_NET_HANDLES_def)

lemma held_none: "\<forall>x \<in> set xs. f x = [] \<Longrightarrow> held_by f xs = {#}"
  by (induction xs) (auto simp: held_by_def)

lemma slots_init:
  assumes "table_ok n" shows "held_by slot_holds (slots (host_net_init n)) = held_by slot_holds (slots n)"
proof (cases "net_initialized n")
  case False
  then have "\<forall>s \<in> set (slots n). slot_state s = SOCK_FREE"
    using assms by (simp add: table_ok_def all_set_conv_all_nth)
  then show ?thesis
    using False by (auto simp: host_net_init_def slot_holds_def held_none)
qed (simp add: host_net_init_def)

lemma fds_init: "table_ok n \<Longrightarrow> fds_ok fs n \<Longrightarrow> fds_ok fs (host_net_init n)"
  by (simp add: fds_ok_def slots_init)

lemma fresh_init [simp]: "fresh_fd f (host_net_init n) = fresh_fd f n"
  by (simp add: fresh_fd_def)

lemma free_slot_found:
  "length ss = MAX_NET_HANDLES \<Longrightarrow> free_slot 1 (tl ss) = Some i \<Longrightarrow>
     0 < i \<and> i < MAX_NET_HANDLES \<and> slot_state (ss ! i) = SOCK_FREE"
  by (drule free_slot_Some) (cases ss; auto simp: nth_Cons' MAX_NET_HANDLES_def)

lemma alloc_ok:
  assumes n: "table_ok n" "fds_ok (f # fs) n" and f: "f \<noteq> SOCK_INVALID"
    and st: "st \<notin> {SOCK_FREE, SOCK_RESOLVING, SOCK_FAILED}"
  shows "table_ok (snd (alloc_slot f st n)) \<and> fds_ok fs (snd (alloc_slot f st n))"
proof -
  let ?n = "host_net_init n"
  have n': "table_ok ?n" "fds_ok (f # fs) ?n" "length (slots ?n) = MAX_NET_HANDLES"
    using n by (simp_all add: table_init fds_init table_ok_length)
  show ?thesis
  proof (cases "free_slot 1 (tl (slots ?n))")
    case None
    then show ?thesis using n' f by (simp add: alloc_slot_def Let_def fds_close)
  next
    case (Some i)
    then show ?thesis
      using n' st free_slot_found [OF n'(3) Some]
      by (auto simp: alloc_slot_def Let_def slot_holds_def intro!: table_slot fds_slot)
  qed
qed

text \<open>Closing a slot that holds a socket, in the two orders of \<open>host_net_close\<close> and \<open>host_net_deinit\<close>.\<close>

lemma free_held:
  assumes "fds_ok [] n" "h < length (slots n)" "slot_holds (slots n ! h) = [slot_fd (slots n ! h)]"
    and "slot_holds (g (slots n ! h)) = []"
  shows "fds_ok [] (upd_slot h g (close_fd (slot_fd (slots n ! h)) n))"
proof -
  have "upd_slot h g (close_fd f n) = close_fd f (upd_slot h g n)" for f
    by (simp add: upd_slot_def close_fd_def)
  moreover have "fds_ok [slot_fd (slots n ! h)] (upd_slot h g n)"
    using assms by (auto intro: fds_slot)
  ultimately show ?thesis by (simp add: fds_close)
qed

lemma deinit_slot_ok:
  assumes "table_ok n" "fds_ok [] n" "0 < i" "i < MAX_NET_HANDLES"
  shows "table_ok (deinit_slot i n) \<and> fds_ok [] (deinit_slot i n)"
proof (cases "slot_state (slots n ! i)")
  case SOCK_RESOLVING
  then show ?thesis
    using assms by (auto simp: deinit_slot_def slot_holds_def table_ok_length intro!: table_same fds_slot [where fs = "[]"])
next
  case SOCK_FAILED
  then have "slot_fd (slots n ! i) = SOCK_INVALID" "SOCK_INVALID \<notin> set (open_fds n)"
    using assms by (auto simp: table_ok_def fds_ok_def)
  then have "close_fd (slot_fd (slots n ! i)) n = n" by (simp add: close_fd_def)
  then show ?thesis
    using SOCK_FAILED assms
    by (auto simp: deinit_slot_def slot_holds_def table_ok_length intro!: table_slot fds_slot [where fs = "[]"])
qed (use assms in \<open>auto simp: deinit_slot_def table_ok_length
       slot_holds_def intro!: table_slot free_held\<close>)

lemma deinit_slots_ok:
  "table_ok n \<Longrightarrow> fds_ok [] n \<Longrightarrow> \<forall>i \<in> set is. 0 < i \<and> i < MAX_NET_HANDLES \<Longrightarrow>
     table_ok (deinit_slots is n) \<and> fds_ok [] (deinit_slots is n)"
  by (induction "is" n rule: deinit_slots.induct) (simp_all add: deinit_slot_ok)

lemma deinit_slot_keeps:
  "slot_state (slots (deinit_slot i n) ! j) =
     (if j = i \<and> i < length (slots n) \<and> slot_state (slots n ! i) \<noteq> SOCK_RESOLVING then SOCK_FREE
      else slot_state (slots n ! j))"
  "length (slots (deinit_slot i n)) = length (slots n)" "workers (deinit_slot i n) = workers n"
  by (cases "i < length (slots n)"; auto simp: deinit_slot_def nth_list_update list_update_beyond)+

lemma deinit_slots_keep:
  "slot_state (slots (deinit_slots is n) ! j) =
     (if j \<in> set is \<and> j < length (slots n) \<and> slot_state (slots n ! j) \<noteq> SOCK_RESOLVING then SOCK_FREE
      else slot_state (slots n ! j))"
  "workers (deinit_slots is n) = workers n"
  by (induction "is" n rule: deinit_slots.induct) (simp_all add: deinit_slot_keeps)

lemma idle_not_resolving:
  "table_ok n \<Longrightarrow> idle n \<Longrightarrow> i < MAX_NET_HANDLES \<Longrightarrow> slot_state (slots n ! i) \<noteq> SOCK_RESOLVING"
  by (fastforce simp: table_ok_def idle_def list_all_iff)

lemma net_deinit_ok:
  assumes "net_ok n" "idle n"
  shows "net_ok (host_net_deinit n)"
proof (cases "net_initialized n")
  case True
  let ?n = "deinit_slots [1..<MAX_NET_HANDLES] n"
  have ok: "table_ok ?n" "fds_ok [] ?n"
    using deinit_slots_ok [of n] assms(1) by (simp_all add: net_ok_def)
  have "slot_state (slots ?n ! i) = SOCK_FREE" if "i < MAX_NET_HANDLES" for i
    using idle_not_resolving [OF _ assms(2) that] assms(1) that
    by (cases "i = 0") (auto simp: deinit_slots_keep table_ok_def net_ok_def)
  then show ?thesis
    using ok True unfolding net_ok_def host_net_deinit_def table_ok_def fds_ok_def worker_ok_def by simp
qed (use assms in \<open>simp add: host_net_deinit_def net_ok_def\<close>)

lemma table_thread:
  assumes ok: "table_ok n" and h: "0 < h" "h < MAX_NET_HANDLES" "slot_state (slots n ! h) = SOCK_FREE"
    and n: "net_initialized n" "ws = workers n" and g: "slot_state (g (slots n ! h)) = SOCK_RESOLVING"
    "slot_fd (g (slots n ! h)) = SOCK_INVALID"
  shows "table_ok ((upd_slot h g n)\<lparr>workers := ws @ [(h, W_resolve)]\<rparr>)"
proof -
  have other: "fst hw \<noteq> h \<or> snd hw = W_done" if "hw \<in> set (workers n)" for hw
    using live_worker [OF ok, of "fst hw" "snd hw"] that h(3) by (cases "snd hw = W_done") auto
  have "worker_ok (n\<lparr>slots := (slots n)[h := g (slots n ! h)], workers := ws\<rparr>) hw" if "hw \<in> set (workers n)" for hw ws
    using ok that other [OF that] unfolding table_ok_def worker_ok_def by (auto split: prod.splits)
  then show ?thesis
    using ok h n g other unfolding table_ok_def
    by (auto simp: worker_ok_def nth_append nth_list_update upd_slot_def less_Suc_eq)
qed

lemma fds_thread:
  "fds_ok fs n \<Longrightarrow> ws = workers n \<Longrightarrow> fds_ok fs (n\<lparr>workers := ws @ [(h, W_resolve)]\<rparr>)"
  by (simp add: fds_ok_def)

lemma connect_ok:
  assumes "net_ok n" shows "net_ok (snd (host_net_connect created host port n))"
proof -
  let ?n = "host_net_init n"
  have n: "table_ok ?n" "fds_ok [] ?n" "length (slots ?n) = MAX_NET_HANDLES"
    using assms by (simp_all add: net_ok_def table_init fds_init table_ok_length)
  show ?thesis
  proof (cases "free_slot 1 (tl (slots ?n))")
    case None
    then show ?thesis
      using n by (simp add: host_net_connect_def alloc_slot_def Let_def net_ok_def)
  next
    case (Some i)
    note i = free_slot_found [OF n(3) Some]
    have f: "fds_ok [] (upd_slot i g ?n)" if "slot_holds (g (slots ?n ! i)) = []" for g
      using n i that by (auto simp: slot_holds_def intro!: fds_slot [where fs = "[]"])
    have two: "upd_slot i g' (upd_slot i g ?n) = upd_slot i (g' \<circ> g) ?n" for g g'
      using i n(3) by (simp add: upd_slot_def)
    show ?thesis
      using n i Some f
      by (simp add: host_net_connect_def alloc_slot_def Let_def start_resolve_thread_def two net_ok_def)
         (auto intro!: table_slot table_thread fds_thread simp: slot_holds_def)
  qed
qed

lemma close_ok:
  assumes "net_ok n" shows "net_ok (snd (host_net_close h n))"
proof (cases "h = 0 \<or> MAX_NET_HANDLES \<le> unat h")
  case False
  then have h: "0 < unat h" "unat h < MAX_NET_HANDLES" by (simp_all add: unat_gt_0)
  have n: "table_ok n" "fds_ok [] n" using assms by (simp_all add: net_ok_def)
  have "net_ok (deinit_slot (unat h) n)"
    using deinit_slot_ok [OF n h] by (simp add: net_ok_def)
  moreover have "upd_slot i (\<lambda>s. s\<lparr>slot_fd := SOCK_INVALID, slot_state := SOCK_FREE\<rparr>) m =
      upd_slot i (\<lambda>s. s\<lparr>slot_state := SOCK_FREE, slot_fd := SOCK_INVALID\<rparr>) m" for i m
    by (cases "slots m ! i") (simp add: upd_slot_def)
  ultimately show ?thesis
    using False assms by (auto simp: host_net_close_def deinit_slot_def)
qed (use assms in \<open>auto simp: host_net_close_def\<close>)

lemma poll_ok:
  assumes "net_ok n" shows "net_ok (snd (host_net_poll ret so_err err inp out h n))"
proof -
  have "net_ok (upd_slot (unat h) (\<lambda>s. s\<lparr>slot_state := SOCK_CONNECTED\<rparr>) n)"
    if "h \<noteq> 0" "unat h < MAX_NET_HANDLES" "slot_state (slots n ! unat h) = SOCK_CONNECTING"
  proof -
    have "0 < unat h" "net_initialized n"
      using that assms by (auto simp: unat_gt_0 net_ok_def table_ok_def)
    then show ?thesis
      using assms that unfolding net_ok_def
      by (auto simp: slot_holds_def table_ok_length intro!: table_slot fds_slot [where fs = "[]"])
  qed
  then show ?thesis using assms by (auto simp: host_net_poll_def not_le)
qed

lemma socket_ok:
  assumes "net_ok n" "fresh_fd f n" "f \<noteq> SOCK_INVALID" "st \<notin> {SOCK_FREE, SOCK_RESOLVING, SOCK_FAILED}"
  shows "net_ok (snd (alloc_slot f st (new_fd f n)))" "net_ok (close_fd f (new_fd f n))"
  using assms fds_new [of "[]" n f] by (simp_all add: net_ok_def alloc_ok fds_close)

lemma net_init_ok: "net_ok n \<Longrightarrow> net_ok (host_net_init n)"
  by (simp add: net_ok_def table_init fds_init)

lemma calls_ok:
  assumes "net_ok n" "fresh_fd f n"
  shows "net_ok (snd (host_net_listen f bound listening n))" "net_ok (snd (host_net_udp_bind f bound n))"
    "net_ok (snd (host_net_accept f h n))"
  using assms socket_ok [OF net_init_ok [OF assms(1)]] socket_ok [OF assms(1)] net_init_ok
  by (auto simp: host_net_listen_def host_net_udp_bind_def host_net_accept_def Let_def)

section \<open>The workers keep them in order\<close>

text \<open>A step that leaves the slot as it is, and one that ends the worker or stores the descriptor.\<close>

lemma worker_moves:
  assumes "table_ok n" "fds_ok fs n" "k < length (workers n)" "workers n ! k = (h, w)" "w \<noteq> W_done"
    and "w' \<noteq> W_done" "\<forall>f r. w \<noteq> W_store_state f r" "\<forall>f r. w' \<noteq> W_store_state f r"
    and "\<forall>st. w' = W_final st \<longrightarrow> st = SOCK_FREE \<or> st = SOCK_FAILED"
    and "\<forall>f r. w' = W_store_fd f r \<longrightarrow> f \<noteq> SOCK_INVALID"
    and "mset (worker_holds w) + mset fs = mset (worker_holds w') + mset fs'"
  shows "table_ok (n\<lparr>workers := (workers n)[k := (h, w')]\<rparr>)
    \<and> fds_ok fs' (n\<lparr>workers := (workers n)[k := (h, w')]\<rparr>)"
proof -
  have l: "0 < h" "h < length (slots n)" "slot_state (slots n ! h) = SOCK_RESOLVING"
    "slot_fd (slots n ! h) = SOCK_INVALID"
    using live_worker [OF assms(1), of h w] nth_mem [OF assms(3)] assms(4,5,7) table_ok_length [OF assms(1)]
    by (auto split: worker.splits)
  have "(case w' of W_store_state f r \<Rightarrow> f | _ \<Rightarrow> SOCK_INVALID) = SOCK_INVALID"
    using assms(8) by (cases w') auto
  then have "table_ok ((upd_slot h (\<lambda>s. s) n)\<lparr>workers := (workers n)[k := (h, w')]\<rparr>)"
    using l assms by (intro table_worker) auto
  then have "table_ok (n\<lparr>workers := (workers n)[k := (h, w')]\<rparr>)"
    using l(2) by (simp add: upd_slot_id)
  then show ?thesis
    using assms(4,11) fds_worker [OF assms(2,3), of w' fs' h] by simp
qed

lemma upd_slot_workers: "upd_slot h g (n\<lparr>workers := ws\<rparr>) = (upd_slot h g n)\<lparr>workers := ws\<rparr>"
  by (cases n) (simp add: upd_slot_def)

lemma worker_ends:
  assumes "table_ok n" "fds_ok [] n" "k < length (workers n)" "workers n ! k = (h, w)" "w \<noteq> W_done"
    and "slot_state (g (slots n ! h)) \<noteq> SOCK_RESOLVING"
    and "slot_state (g (slots n ! h)) = SOCK_FAILED \<Longrightarrow> slot_fd (g (slots n ! h)) = SOCK_INVALID"
    and "mset (worker_holds w) = mset (slot_holds (g (slots n ! h)))"
  shows "net_ok ((upd_slot h g n)\<lparr>workers := (workers n)[k := (h, W_done)]\<rparr>)"
proof -
  have l: "h < length (slots n)" "slot_state (slots n ! h) = SOCK_RESOLVING"
    using live_worker [OF assms(1), of h w] nth_mem [OF assms(3)] assms(4,5) table_ok_length [OF assms(1)]
    by auto
  have t: "table_ok ((upd_slot h g n)\<lparr>workers := (workers n)[k := (h, W_done)]\<rparr>)"
    using assms by (intro table_worker) auto
  have "fds_ok (slot_holds (g (slots n ! h))) (n\<lparr>workers := (workers n)[k := (h, W_done)]\<rparr>)"
    using assms(4,8) by (intro fds_worker [OF assms(2,3)]) simp
  moreover have "slot_holds (slots n ! h) = []"
    using l by (simp add: slot_holds_def)
  ultimately have "fds_ok [] (upd_slot h g (n\<lparr>workers := (workers n)[k := (h, W_done)]\<rparr>))"
    using l(1) by (intro fds_slot) simp_all
  then have "fds_ok [] ((upd_slot h g n)\<lparr>workers := (workers n)[k := (h, W_done)]\<rparr>)"
    by (simp add: upd_slot_workers)
  with t show ?thesis by (simp add: net_ok_def)
qed

lemma worker_stores_fd:
  assumes "table_ok n" "fds_ok [] n" "k < length (workers n)" "workers n ! k = (h, W_store_fd f r)"
  shows "net_ok ((upd_slot h (\<lambda>s. s\<lparr>slot_fd := f\<rparr>) n)\<lparr>workers := (workers n)[k := (h, W_store_state f r)]\<rparr>)"
proof -
  have l: "h < length (slots n)" "slot_state (slots n ! h) = SOCK_RESOLVING"
    using live_worker [OF assms(1), of h "W_store_fd f r"] nth_mem [OF assms(3)] assms(4) table_ok_length [OF assms(1)]
    by auto
  have "table_ok ((upd_slot h (\<lambda>s. s\<lparr>slot_fd := f\<rparr>) n)\<lparr>workers := (workers n)[k := (h, W_store_state f r)]\<rparr>)"
    using assms l by (intro table_worker) auto
  moreover have "fds_ok [] (n\<lparr>workers := (workers n)[k := (h, W_store_state f r)]\<rparr>)"
    using assms(4) by (intro fds_worker [OF assms(2,3)]) simp
  then have "fds_ok [] (upd_slot h (\<lambda>s. s\<lparr>slot_fd := f\<rparr>) (n\<lparr>workers := (workers n)[k := (h, W_store_state f r)]\<rparr>))"
    using l by (intro fds_slot) (simp_all add: slot_holds_def)
  then have "fds_ok [] ((upd_slot h (\<lambda>s. s\<lparr>slot_fd := f\<rparr>) n)\<lparr>workers := (workers n)[k := (h, W_store_state f r)]\<rparr>)"
    by (simp add: upd_slot_workers)
  ultimately show ?thesis by (simp add: net_ok_def)
qed

lemma run_worker_ok:
  assumes "net_ok n" "fresh_fd sock n" and k: "k < length (workers n)"
  shows "net_ok (run_worker addrs sock con k n)"
proof -
  obtain h w where hw: "workers n ! k = (h, w)" by fastforce
  have n: "table_ok n" "fds_ok [] n" using assms(1) by (simp_all add: net_ok_def)
  note live = live_worker [OF n(1), of h w]
  have in_set: "(h, w) \<in> set (workers n)" using k hw by (metis nth_mem)
  have new: "table_ok (new_fd sock n)" "fds_ok [sock] (new_fd sock n)" if "sock \<noteq> SOCK_INVALID"
    using fds_new [OF n(2) assms(2) that] n(1) by simp_all
  have move: "net_ok (n\<lparr>workers := (workers n)[k := (h, w')]\<rparr>)"
    if "w \<noteq> W_done" "w' \<noteq> W_done" "\<forall>f r. w \<noteq> W_store_state f r" "\<forall>f r. w' \<noteq> W_store_state f r"
      "\<forall>st. w' = W_final st \<longrightarrow> st = SOCK_FREE \<or> st = SOCK_FAILED"
      "\<forall>f r. w' = W_store_fd f r \<longrightarrow> f \<noteq> SOCK_INVALID" "mset (worker_holds w) = mset (worker_holds w')" for w'
    using worker_moves [OF n k hw that(1-6), of "[]"] that(7) by (simp add: net_ok_def)
  show ?thesis
  proof (cases w)
    case (W_try a r)
    have "net_ok ((new_fd sock n)\<lparr>workers := (workers n)[k := (h, W_check2 sock con)]\<rparr>)" if "sock \<noteq> SOCK_INVALID"
      using worker_moves [OF new, of k h w "W_check2 sock con" "[]"] W_try k hw that by (simp add: net_ok_def)
    moreover have "net_ok ((close_fd sock (new_fd sock n))\<lparr>workers := (workers n)[k := (h, W_try (a - 1) con)]\<rparr>)"
      if "sock \<noteq> SOCK_INVALID"
      using worker_moves [of "close_fd sock (new_fd sock n)" "[]" k h w "W_try (a - 1) con" "[]"]
        W_try k hw new [OF that] fds_close by (simp add: net_ok_def)
    ultimately show ?thesis using W_try hw move by (auto simp: run_worker_def)
  next
    case (W_check2 f r)
    have "close_fd f (n\<lparr>workers := ws\<rparr>) = (close_fd f n)\<lparr>workers := ws\<rparr>" for ws
      by (simp add: close_fd_def)
    moreover have "net_ok (close_fd f (n\<lparr>workers := (workers n)[k := (h, W_final SOCK_FREE)]\<rparr>))" if "f \<noteq> SOCK_INVALID"
      using worker_moves [OF n k hw, of "W_final SOCK_FREE" "[f]"] W_check2 that by (simp add: net_ok_def fds_close)
    ultimately show ?thesis
      using W_check2 hw move by (auto simp: run_worker_def)
  next
    case (W_store_fd f r)
    then show ?thesis using hw n k by (simp add: run_worker_def worker_stores_fd)
  next
    case (W_store_state f r)
    then show ?thesis
      using hw n k live in_set by (auto simp: run_worker_def slot_holds_def intro!: worker_ends)
  next
    case (W_final st)
    then show ?thesis
      using hw n k live in_set by (auto simp: run_worker_def slot_holds_def intro!: worker_ends)
  next
    case W_done
    then have "(workers n)[k := (h, W_done)] = workers n" using hw by (metis list_update_id)
    then show ?thesis using W_done hw assms(1) by (simp add: run_worker_def)
  qed (use hw move in \<open>auto simp: run_worker_def split: option.splits\<close>)
qed

lemma net_step_ok: "net_step n n' \<Longrightarrow> net_ok n \<Longrightarrow> net_ok n'"
  by (induction rule: net_step.induct)
     (simp_all add: net_init_ok net_deinit_ok connect_ok calls_ok close_ok poll_ok run_worker_ok)

lemma net_start_ok: "net_ok net_start"
  by (simp add: net_ok_def table_ok_def fds_ok_def net_start_def empty_slot_def held_none slot_holds_def
      MAX_NET_HANDLES_def)

lemma net_reaches_ok: "net_reaches net_start n \<Longrightarrow> net_ok n"
  unfolding net_reaches_def by (induction rule: rtranclp_induct) (simp_all add: net_start_ok net_step_ok)

lemma one_worker:
  assumes "table_ok n" "i < MAX_NET_HANDLES"
  shows "slot_state (slots n ! i) = SOCK_RESOLVING \<longleftrightarrow>
    (\<exists>!k. k < length (workers n) \<and> fst (workers n ! k) = i \<and> snd (workers n ! k) \<noteq> W_done)"
proof
  assume "slot_state (slots n ! i) = SOCK_RESOLVING"
  then obtain w where "(i, w) \<in> set (workers n)" "w \<noteq> W_done"
    using assms unfolding table_ok_def by blast
  then obtain k where "k < length (workers n)" "workers n ! k = (i, w)" by (auto simp: in_set_conv_nth)
  then show "\<exists>!k. k < length (workers n) \<and> fst (workers n ! k) = i \<and> snd (workers n ! k) \<noteq> W_done"
    using assms(1) \<open>w \<noteq> W_done\<close> by (intro ex1I [of _ k]) (simp_all add: table_ok_def)
next
  assume "\<exists>!k. k < length (workers n) \<and> fst (workers n ! k) = i \<and> snd (workers n ! k) \<noteq> W_done"
  then obtain k where "k < length (workers n)" "fst (workers n ! k) = i" "snd (workers n ! k) \<noteq> W_done" by blast
  then show "slot_state (slots n ! i) = SOCK_RESOLVING"
    using live_worker [OF assms(1), of i "snd (workers n ! k)"] nth_mem [of k "workers n"] by auto
qed


section \<open>A connect runs to its end\<close>

text \<open>The worker at place \<open>k\<close> runs alone, the system answering as listed.\<close>

fun worker_run :: "(nat option \<times> int \<times> conn) list \<Rightarrow> nat \<Rightarrow> net \<Rightarrow> net" where
  "worker_run [] k n = n"
| "worker_run ((addrs, sock, con) # as) k n = worker_run as k (run_worker addrs sock con k n)"

text \<open>How many steps a worker that has its addresses takes at most.\<close>

fun steps_left :: "worker \<Rightarrow> nat" where
  "steps_left W_done = 0"
| "steps_left (W_final st) = 1"
| "steps_left (W_store_state f r) = 1"
| "steps_left (W_store_fd f r) = 2"
| "steps_left (W_check2 f r) = 3"
| "steps_left (W_try a r) = a + 4"
| "steps_left (W_check found) = (case found of None \<Rightarrow> 2 | Some a \<Rightarrow> a + 5)"
| "steps_left W_resolve = 0"

text \<open>What the slot of a worker can come to, and what it does come to if it was cancelled.\<close>

fun final_ok :: "worker \<Rightarrow> sock_state \<Rightarrow> bool" where
  "final_ok W_done st \<longleftrightarrow> st \<noteq> SOCK_RESOLVING"
| "final_ok (W_final st') st \<longleftrightarrow> st' \<noteq> SOCK_RESOLVING"
| "final_ok w st \<longleftrightarrow> True"

fun before_check :: "worker \<Rightarrow> bool" where
  "before_check W_resolve \<longleftrightarrow> True"
| "before_check (W_check found) \<longleftrightarrow> True"
| "before_check (W_try a r) \<longleftrightarrow> True"
| "before_check (W_check2 f r) \<longleftrightarrow> True"
| "before_check w \<longleftrightarrow> False"

fun cancelling :: "worker \<Rightarrow> sock_state \<Rightarrow> bool" where
  "cancelling W_done st \<longleftrightarrow> st = SOCK_FREE"
| "cancelling (W_final st') st \<longleftrightarrow> st' = SOCK_FREE"
| "cancelling w st \<longleftrightarrow> before_check w"

lemma run_worker_at:
  assumes "k < length (workers n)" "workers n ! k = (h, w)"
  shows "workers (run_worker addrs sock con k n) ! k = (h, fst (worker_step addrs sock con h w n))"
    "length (workers (run_worker addrs sock con k n)) = length (workers n)"
    "slots (run_worker addrs sock con k n) = slots (snd (worker_step addrs sock con h w n))"
proof -
  obtain w' n' where s: "worker_step addrs sock con h w n = (w', n')" by fastforce
  moreover have "workers (snd (worker_step addrs sock con h w n)) = workers n"
    by (cases w) (auto split: option.splits)
  ultimately show "workers (run_worker addrs sock con k n) ! k = (h, fst (worker_step addrs sock con h w n))"
    "length (workers (run_worker addrs sock con k n)) = length (workers n)"
    "slots (run_worker addrs sock con k n) = slots (snd (worker_step addrs sock con h w n))"
    using assms by (simp_all add: run_worker_def)
qed

lemma worker_progress:
  assumes "h < length (slots n)" "w \<noteq> W_resolve"
  shows "steps_left (fst (worker_step addrs sock con h w n)) \<le> steps_left w - 1"
    "fst (worker_step addrs sock con h w n) \<noteq> W_resolve"
    "final_ok w (slot_state (slots n ! h)) \<Longrightarrow>
       final_ok (fst (worker_step addrs sock con h w n)) (slot_state (slots (snd (worker_step addrs sock con h w n)) ! h))"
    "length (slots (snd (worker_step addrs sock con h w n))) = length (slots n)"
  using assms by (cases w; auto split: option.splits)+

lemma worker_cancels:
  assumes "h < length (slots n)" "slot_cancelled (slots n ! h)" "cancelling w (slot_state (slots n ! h))"
  shows "cancelling (fst (worker_step addrs sock con h w n)) (slot_state (slots (snd (worker_step addrs sock con h w n)) ! h))
    \<and> slot_cancelled (slots (snd (worker_step addrs sock con h w n)) ! h)"
  using assms by (cases w) (auto split: option.splits)

lemma worker_run_done:
  "k < length (workers n) \<Longrightarrow> workers n ! k = (h, w) \<Longrightarrow> h < length (slots n) \<Longrightarrow> w \<noteq> W_resolve \<Longrightarrow>
   steps_left w \<le> length as \<Longrightarrow> final_ok w (slot_state (slots n ! h)) \<Longrightarrow>
     workers (worker_run as k n) ! k = (h, W_done) \<and> slot_state (slots (worker_run as k n) ! h) \<noteq> SOCK_RESOLVING
     \<and> (slot_cancelled (slots n ! h) \<and> cancelling w (slot_state (slots n ! h)) \<longrightarrow>
          slot_state (slots (worker_run as k n) ! h) = SOCK_FREE)"
proof (induction as arbitrary: n w)
  case Nil
  then have "w = W_done" by (cases w) (auto split: option.splits)
  with Nil show ?case by simp
next
  case (Cons a as)
  obtain addrs sock con where a: "a = (addrs, sock, con)" by (cases a)
  let ?w = "fst (worker_step addrs sock con h w n)" and ?n = "run_worker addrs sock con k n"
  note r = run_worker_at [OF Cons.prems(1,2), of addrs sock con]
  note p = worker_progress [OF Cons.prems(3,4), of addrs sock con]
  have "workers (worker_run as k ?n) ! k = (h, W_done) \<and> slot_state (slots (worker_run as k ?n) ! h) \<noteq> SOCK_RESOLVING
     \<and> (slot_cancelled (slots ?n ! h) \<and> cancelling ?w (slot_state (slots ?n ! h)) \<longrightarrow>
          slot_state (slots (worker_run as k ?n) ! h) = SOCK_FREE)"
    using Cons.prems p r by (intro Cons.IH) auto
  then show ?case
    using a r worker_cancels [OF Cons.prems(3), of w addrs sock con] by auto
qed


section \<open>Closing too late, and stopping too soon\<close>

text \<open>A handle that is closed after its thread has looked for the last time whether it was
  cancelled is answered 0, but the thread then makes it a connected slot that holds a socket.\<close>

theorem close_too_late:
  assumes "k < length (workers n)" "workers n ! k = (unat h, W_store_fd f Conn_done)" "h \<noteq> 0"
    and "unat h < MAX_NET_HANDLES" "length (slots n) = MAX_NET_HANDLES"
    and "slot_state (slots n ! unat h) = SOCK_RESOLVING"
  shows "fst (host_net_close h n) = 0
    \<and> slot_state (slots (worker_run [a, b] k (snd (host_net_close h n))) ! unat h) = SOCK_CONNECTED
    \<and> slot_fd (slots (worker_run [a, b] k (snd (host_net_close h n))) ! unat h) = f"
proof -
  let ?n = "snd (host_net_close h n)"
  have n: "?n = upd_slot (unat h) (\<lambda>s. s\<lparr>slot_cancelled := True\<rparr>) n"
    using assms by (simp add: host_net_close_def not_le)
  have "fst (host_net_close h n) = 0" using assms by (simp add: host_net_close_def not_le)
  moreover obtain a1 a2 a3 b1 b2 b3 where "a = (a1, a2, a3)" "b = (b1, b2, b3)" by (metis prod_cases3)
  ultimately show ?thesis
    using assms unfolding n by (simp add: run_worker_def)
qed

text \<open>Stopping the driver while a connect is under way and starting it again makes the slot
  free and forgets that the connect was cancelled, while its thread runs on: it connects a slot
  that nobody has asked for.\<close>

theorem deinit_revives:
  assumes "net_ok n" "k < length (workers n)" "workers n ! k = (h, W_check (Some 1))"
    and "sock \<noteq> SOCK_INVALID"
  shows "let m = host_net_init (host_net_deinit n);
             m' = worker_run (replicate 5 (None, sock, Conn_done)) k m
         in slot_state (slots m ! h) = SOCK_FREE \<and> slot_state (slots m' ! h) = SOCK_CONNECTED
            \<and> slot_fd (slots m' ! h) = sock"
proof -
  let ?m = "host_net_init (host_net_deinit n)"
  have t: "table_ok n" using assms(1) by (simp add: net_ok_def)
  have "(h, W_check (Some 1)) \<in> set (workers n)" using assms(2,3) by (metis nth_mem)
  then have l: "h < MAX_NET_HANDLES" "net_initialized n"
    using live_worker [OF t] by simp_all
  have "length (slots (deinit_slots is n)) = length (slots n)" for "is"
    by (induction "is" n rule: deinit_slots.induct) (simp_all add: deinit_slot_keeps)
  then have m: "h < length (slots ?m)" "workers ?m = workers n" "slot_state (slots ?m ! h) = SOCK_FREE"
    "\<not> slot_cancelled (slots ?m ! h)"
    using l table_ok_length [OF t]
    by (simp_all add: host_net_deinit_def host_net_init_def deinit_slots_keep)
  have "replicate 5 x = [x, x, x, x, x]" for x :: "nat option \<times> int \<times> conn"
    by (simp add: numeral_eq_Suc)
  then show ?thesis
    using m assms(2-4) by (simp add: run_worker_def new_fd_def Let_def)
qed

section \<open>Handles\<close>

text \<open>
  A table that hands out numbers: what it gives was free and is taken afterwards, nothing else
  changes, and it gives 0 only when every number is taken.
\<close>

fun alloc_all :: "('r \<Rightarrow> 't \<Rightarrow> nat \<times> 't) \<Rightarrow> 'r list \<Rightarrow> 't \<Rightarrow> nat list \<times> 't" where
  "alloc_all alloc [] t = ([], t)"
| "alloc_all alloc (r # rs) t = (case alloc r t of (h, t') \<Rightarrow>
     case alloc_all alloc rs t' of (hs, t'') \<Rightarrow> (h # hs, t''))"

locale handle_table =
  fixes alloc :: "'r \<Rightarrow> 't \<Rightarrow> nat \<times> 't" and taken :: "'t \<Rightarrow> nat \<Rightarrow> bool" and ok :: "'t \<Rightarrow> bool"
    and good :: "'r \<Rightarrow> bool" and bound :: nat
  assumes alloc_keeps_ok: "ok t \<Longrightarrow> good r \<Longrightarrow> ok (snd (alloc r t))"
    and alloc_fresh: "ok t \<Longrightarrow> good r \<Longrightarrow> fst (alloc r t) \<noteq> 0 \<Longrightarrow>
      fst (alloc r t) < bound \<and> \<not> taken t (fst (alloc r t)) \<and> taken (snd (alloc r t)) (fst (alloc r t))"
    and alloc_others: "ok t \<Longrightarrow> good r \<Longrightarrow> i \<noteq> fst (alloc r t) \<or> fst (alloc r t) = 0 \<Longrightarrow>
      taken (snd (alloc r t)) i = taken t i"
    and alloc_full: "ok t \<Longrightarrow> good r \<Longrightarrow> fst (alloc r t) = 0 \<Longrightarrow> 0 < i \<Longrightarrow> i < bound \<Longrightarrow> taken t i"
begin

lemma taken_grows: "ok t \<Longrightarrow> good r \<Longrightarrow> taken t i \<Longrightarrow> taken (snd (alloc r t)) i"
  by (metis alloc_others alloc_fresh)

lemma alloc_all_spec:
  "ok t \<Longrightarrow> list_all good rs \<Longrightarrow> alloc_all alloc rs t = (hs, t') \<Longrightarrow>
     distinct (filter (\<lambda>h. h \<noteq> 0) hs)
     \<and> (\<forall>h \<in> set hs. h \<noteq> 0 \<longrightarrow> h < bound \<and> \<not> taken t h \<and> taken t' h)
     \<and> (\<forall>i. taken t i \<longrightarrow> taken t' i)
     \<and> (0 \<in> set hs \<longrightarrow> (\<forall>i. 0 < i \<longrightarrow> i < bound \<longrightarrow> taken t' i))"
proof (induction rs arbitrary: t hs)
  case (Cons r rs)
  obtain h t1 hs1 where s: "alloc r t = (h, t1)" "alloc_all alloc rs t1 = (hs1, t')" "hs = h # hs1"
    using Cons.prems(3) by (auto split: prod.splits)
  have g: "good r" "ok t1" "list_all good rs"
    using Cons.prems alloc_keeps_ok [of t r] s by auto
  note IH = Cons.IH [OF g(2,3) s(2)]
  have grow: "taken t1 i" if "taken t i" for i
    using taken_grows [OF Cons.prems(1) g(1) that] s by simp
  have fresh: "h < bound \<and> \<not> taken t h \<and> taken t1 h" if "h \<noteq> 0"
    using alloc_fresh [OF Cons.prems(1) g(1)] s that by simp
  have full: "taken t i" if "h = 0" "0 < i" "i < bound" for i
    using alloc_full [OF Cons.prems(1) g(1), of i] s that by simp
  have "\<forall>h' \<in> set hs. h' \<noteq> 0 \<longrightarrow> h' < bound \<and> \<not> taken t h' \<and> taken t' h'"
    using IH grow fresh unfolding s(3) by (metis set_ConsD)
  moreover have "h \<noteq> 0 \<longrightarrow> h \<notin> set hs1" using IH fresh by blast
  ultimately show ?case
    using IH grow full unfolding s(3) by simp
qed simp

end

definition slot_taken :: "net \<Rightarrow> nat \<Rightarrow> bool" where
  "slot_taken n i \<longleftrightarrow> slot_state (slots (host_net_init n) ! i) \<noteq> SOCK_FREE"

lemma init_init [simp]: "host_net_init (host_net_init n) = host_net_init n"
  "net_initialized n \<Longrightarrow> host_net_init n = n"
  by (simp_all add: host_net_init_def)

lemma free_slot_full:
  "length ss = MAX_NET_HANDLES \<Longrightarrow> free_slot 1 (tl ss) = None \<Longrightarrow> 0 < i \<Longrightarrow> i < MAX_NET_HANDLES \<Longrightarrow>
     slot_state (ss ! i) \<noteq> SOCK_FREE"
  by (cases ss) (auto simp: free_slot_None all_set_conv_all_nth nth_Cons')

interpretation nh: handle_table "\<lambda>(f, st). alloc_slot f st" slot_taken
  "\<lambda>n. length (slots n) = MAX_NET_HANDLES" "\<lambda>(f, st). st \<noteq> SOCK_FREE" MAX_NET_HANDLES
proof
  fix n :: net and r :: "int \<times> sock_state" and i
  assume n: "length (slots n) = MAX_NET_HANDLES" and g: "case r of (f, st) \<Rightarrow> st \<noteq> SOCK_FREE"
  obtain f st where r: "r = (f, st)" "st \<noteq> SOCK_FREE" using g by (cases r) simp
  let ?n = "host_net_init n"
  have l: "length (slots ?n) = MAX_NET_HANDLES" using n by simp
  note found = free_slot_found [OF l] and full = free_slot_full [OF l]
  show "length (slots (snd ((case r of (f, st) \<Rightarrow> alloc_slot f st) n))) = MAX_NET_HANDLES"
    using l r by (simp add: alloc_slot_def Let_def split: option.splits)
  show "fst ((case r of (f, st) \<Rightarrow> alloc_slot f st) n) < MAX_NET_HANDLES
      \<and> \<not> slot_taken n (fst ((case r of (f, st) \<Rightarrow> alloc_slot f st) n))
      \<and> slot_taken (snd ((case r of (f, st) \<Rightarrow> alloc_slot f st) n)) (fst ((case r of (f, st) \<Rightarrow> alloc_slot f st) n))"
    if "fst ((case r of (f, st) \<Rightarrow> alloc_slot f st) n) \<noteq> 0"
    using that l r found by (auto simp: alloc_slot_def Let_def slot_taken_def split: option.splits)
  show "slot_taken (snd ((case r of (f, st) \<Rightarrow> alloc_slot f st) n)) i = slot_taken n i"
    if "i \<noteq> fst ((case r of (f, st) \<Rightarrow> alloc_slot f st) n) \<or> fst ((case r of (f, st) \<Rightarrow> alloc_slot f st) n) = 0"
    using that l r found by (auto simp: alloc_slot_def Let_def slot_taken_def split: option.splits)
  show "slot_taken n i" if "fst ((case r of (f, st) \<Rightarrow> alloc_slot f st) n) = 0" "0 < i" "i < MAX_NET_HANDLES"
    using that l r found full by (auto simp: alloc_slot_def Let_def slot_taken_def split: option.splits)
qed

text \<open>C28: Slots taken one after another are given handles that are all different, from 1 to 255,
  each of a slot that was free; a handle of 0 means that every slot is taken.\<close>

theorem net_handles:
  assumes "length (slots n) = MAX_NET_HANDLES" "list_all (\<lambda>(f, st). st \<noteq> SOCK_FREE) rs"
    and "alloc_all (\<lambda>(f, st). alloc_slot f st) rs n = (hs, n')"
  shows "distinct (filter (\<lambda>h. h \<noteq> 0) hs)
    \<and> (\<forall>h \<in> set hs. h \<noteq> 0 \<longrightarrow> h < 256 \<and> \<not> slot_taken n h \<and> slot_taken n' h)
    \<and> (0 \<in> set hs \<longrightarrow> (\<forall>i. 0 < i \<longrightarrow> i < 256 \<longrightarrow> slot_taken n' i))"
  using nh.alloc_all_spec [OF assms] by (simp add: MAX_NET_HANDLES_def)

section \<open>Names, and what reading and writing answer\<close>

text \<open>The name a connect is given is kept as a string of at most 255 bytes, its first ones,
  always closed by a zero in the 256 of the slot, and empty where no name was given.\<close>

theorem host_is_kept:
  assumes "length old = 256"
  shows "length (copy_host host old) = 256
    \<and> c_str (copy_host host old) = take 255 (case host of Some h \<Rightarrow> c_str h | None \<Rightarrow> [])"
proof -
  let ?h = "case host of Some h \<Rightarrow> h | None \<Rightarrow> []"
  have l: "length (strncpy 255 ?h) = 255" by (simp add: strncpy_def)
  have "length (drop 255 old) = 1" using assms by simp
  then obtain x where "drop 255 old = [x]" by (metis One_nat_def length_0_conv length_Suc_conv)
  then have c: "copy_host host old = strncpy 255 ?h @ [0]"
    using l by (simp add: copy_host_def list_update_append)
  then have "length (copy_host host old) = 256" using l by simp
  moreover
  have nz: "\<forall>b \<in> set (take 255 (c_str ?h)). b \<noteq> 0"
    by (auto simp: c_str_def dest!: in_set_takeD set_takeWhileD)
  have "takeWhile (\<lambda>b. b \<noteq> 0) (take 255 (c_str ?h) @ replicate m 0 @ [0]) = take 255 (c_str ?h)" for m
    using nz by (cases m) (simp_all add: takeWhile_append2)
  then have "c_str (copy_host host old) = take 255 (c_str ?h)"
    unfolding c by (simp add: c_str_def [of "_ @ _"] strncpy_def)
  ultimately show ?thesis by (cases host) (simp_all add: c_str_def)
qed

lemma io_int_small:
  assumes "r < 2 ^ 31"
  shows "sint (io_int r) = uint r" "io_int r = 0 \<longleftrightarrow> r = 0" "scast (io_int r) = r"
proof -
  have r: "uint r < 2 ^ 31" using assms by (simp add: word_less_def)
  then have u: "uint (io_int r) = uint r"
    by (simp add: io_int_def unsigned_ucast_eq unsigned_take_bit_eq take_bit_int_eq_self)
  then show s: "sint (io_int r) = uint r"
    using r order_trans [of "- (2 ^ 31)" 0 "uint r"]
    by (simp add: sint_uint signed_take_bit_int_eq_self)
  show "io_int r = 0 \<longleftrightarrow> r = 0"
    using u by (metis unsigned_0 word_uint_eqI)
  show "scast (io_int r) = r"
    using s by (simp add: scast_eq)
qed

lemma io_int_error: "sint (io_int (- 1)) = - 1" "io_int (- 1) \<noteq> 0"
proof -
  have "io_int (- 1) = - 1"
    unfolding io_int_def by (rule bit_word_eqI) (simp add: bit_unsigned_iff)
  then show "sint (io_int (- 1)) = - 1" "io_int (- 1) \<noteq> 0" by simp_all
qed

text \<open>A handle that is not that of a connected slot asks nothing of the system and answers
  -1. On a connected one the system is asked for the bytes and answers a count, which is given
  on, or an error; an end of the stream and an error are -1, and a socket that would have to
  wait is 0.\<close>

theorem send_and_recv_answer:
  "(\<not> handle_in SOCK_CONNECTED h n \<longrightarrow>
      host_net_send r again h len n = (None, - 1) \<and> host_net_recv r again h len n = (None, - 1))
   \<and> (handle_in SOCK_CONNECTED h n \<and> len < 2 ^ 31 \<and> r < 2 ^ 31 \<longrightarrow>
      host_net_send r again h len n = (Some (slot_fd (slots n ! unat h), len), r)
      \<and> host_net_recv r again h len n = (Some (slot_fd (slots n ! unat h), len), if r = 0 then - 1 else r))
   \<and> (handle_in SOCK_CONNECTED h n \<and> len < 2 ^ 31 \<longrightarrow>
      host_net_send (- 1) again h len n = (Some (slot_fd (slots n ! unat h), len), if again then 0 else - 1)
      \<and> host_net_recv (- 1) again h len n = (Some (slot_fd (slots n ! unat h), len), if again then 0 else - 1))"
proof -
  have l: "io_len len = len" if "len < 2 ^ 31"
    using io_int_small(3) [OF that] by (simp add: io_len_def io_int_def)
  have "0 < uint r \<longleftrightarrow> r \<noteq> 0" by (metis unsigned_0 word_less_def word_neq_0_conv)
  then show ?thesis
    using l io_int_small [of r] io_int_error
    by (auto simp: host_net_send_def host_net_recv_def)
qed

section \<open>Witnesses\<close>

text \<open>A connect under way, its worker having found one address.\<close>

lemma free_slot_replicate: "slot_state s = SOCK_FREE \<Longrightarrow> 0 < m \<Longrightarrow> free_slot i (replicate m s) = Some i"
  by (cases m) simp_all

lemma first_free: "free_slot 1 (tl (slots (host_net_init net_start))) = Some 1"
  by (simp add: host_net_init_def net_start_def MAX_NET_HANDLES_def map_replicate tl_replicate free_slot_replicate)

definition net1 :: net where "net1 = snd (host_net_connect True (Some [97]) 80 net_start)"

definition net2 :: net where "net2 = run_worker (Some 1) SOCK_INVALID Conn_error 0 net1"

lemma init_slot: "i < MAX_NET_HANDLES \<Longrightarrow> slots (host_net_init net_start) ! i =
    empty_slot\<lparr>slot_fd := SOCK_INVALID, slot_state := SOCK_FREE, slot_cancelled := False\<rparr>"
  by (simp add: host_net_init_def net_start_def)

lemma net1_simps:
  "net_ok net1" "workers net1 = [(1, W_resolve)]" "length (slots net1) = MAX_NET_HANDLES"
  "slot_state (slots net1 ! 1) = SOCK_RESOLVING" "open_fds net1 = []"
proof -
  show "net_ok net1" unfolding net1_def by (intro connect_ok net_start_ok)
  then show "length (slots net1) = MAX_NET_HANDLES" by (simp add: net_ok_def table_ok_length)
  have l: "Suc 0 < length (slots net_start)" by (simp add: net_start_def MAX_NET_HANDLES_def)
  show "workers net1 = [(1, W_resolve)]" "open_fds net1 = []"
    "slot_state (slots net1 ! 1) = SOCK_RESOLVING"
    using first_free l
    by (simp_all add: net1_def host_net_connect_def alloc_slot_def Let_def start_resolve_thread_def)
       (simp_all add: net_start_def)
qed

lemma net2_simps:
  "net_ok net2" "workers net2 = [(1, W_check (Some 1))]" "slots net2 = slots net1"
proof -
  show "net_ok net2"
    unfolding net2_def using net1_simps by (intro run_worker_ok) (simp_all add: fresh_fd_def)
  show "workers net2 = [(1, W_check (Some 1))]" "slots net2 = slots net1"
    using net1_simps by (simp_all add: net2_def run_worker_def)
qed



theorem deinit_revives_witness:
  "let m' = worker_run (replicate 5 (None, 7, Conn_done)) 0 (host_net_init (host_net_deinit net2))
   in slot_state (slots m' ! 1) = SOCK_CONNECTED \<and> slot_fd (slots m' ! 1) = 7"
  using deinit_revives [of net2 0 1 7] net2_simps by (simp add: Let_def SOCK_INVALID_def)

definition net3 :: net where
  "net3 = worker_run (replicate 3 (None, 7, Conn_done)) 0 net2"

lemma net1_cancelled: "\<not> slot_cancelled (slots net1 ! 1)"
  using first_free
  by (simp add: net1_def host_net_connect_def alloc_slot_def Let_def start_resolve_thread_def)
     (simp add: net_start_def MAX_NET_HANDLES_def)

lemma net3_simps:
  "workers net3 = [(1, W_store_fd 7 Conn_done)]" "slots net3 = slots net1"
  using net2_simps net1_cancelled
  by (simp_all add: net3_def run_worker_def numeral_eq_Suc new_fd_def SOCK_INVALID_def)

theorem close_too_late_witness:
  "fst (host_net_close 1 net3) = 0
   \<and> slot_state (slots (worker_run [(None, 0, Conn_done), (None, 0, Conn_done)] 0 (snd (host_net_close 1 net3))) ! 1)
       = SOCK_CONNECTED"
  using close_too_late [of 0 net3 1 7 "(None, 0, Conn_done)" "(None, 0, Conn_done)"]
    net3_simps net1_simps by (simp add: MAX_NET_HANDLES_def)

theorem net_handles_witness:
  "let hs = fst (alloc_all (\<lambda>(f, st). alloc_slot f st) [(5, SOCK_UDP), (6, SOCK_LISTENING)] net_start)
   in distinct (filter (\<lambda>h. h \<noteq> 0) hs) \<and> (\<forall>h \<in> set hs. h < 256)"
proof -
  obtain hs n' where a: "alloc_all (\<lambda>(f, st). alloc_slot f st) [(5, SOCK_UDP), (6, SOCK_LISTENING)] net_start = (hs, n')"
    by fastforce
  have "length (slots net_start) = MAX_NET_HANDLES" by (simp add: net_start_def)
  from net_handles [OF this _ a] show ?thesis unfolding a by (auto simp: Let_def)
qed

theorem host_is_kept_witness:
  "c_str (copy_host (Some [65, 66, 0, 67]) (replicate 256 9)) = [65, 66]"
  using host_is_kept [of "replicate 256 9" "Some [65, 66, 0, 67]"] by (simp add: c_str_def)

theorem send_and_recv_answer_witness:
  "host_net_recv 5 False 1 10 net1 = (None, - 1)"
  using send_and_recv_answer [of 1 net1 5 False 10] net1_simps(4) by (simp add: handle_in_def)

end
