(* ===== verification/Pixels.thy ===== *)
theory Pixels
  imports Prelude
begin

text \<open>
  What the drivers that draw into memory share, from \<^verbatim>\<open>src/src/host/gui_event.h\<close> and
  \<^verbatim>\<open>src/src/host/gui_raw.cpp\<close>: rectangles, the arithmetic on a pixel whose channels are kept in
  pairs, and the loops that walk a rectangle of a buffer by a pointer and a pointer to its end.

  A pointer into a buffer is a byte offset from its start, and a buffer a list of 32 bit pixels.
  A step of a loop that is not on a pixel of its buffer gives \<open>None\<close>.
\<close>

section \<open>Rectangles\<close>

text \<open>The fields are \<open>int32_t\<close>; a sum that does not fit wraps round.\<close>

record host_gui_rect =
  rect_x :: int
  rect_y :: int
  rect_w :: int
  rect_h :: int

definition int32_wrap :: "int \<Rightarrow> int" where "int32_wrap i = signed_take_bit 31 i"

definition uint32_wrap :: "int \<Rightarrow> int" where "uint32_wrap i = take_bit 32 i"

lemma int32_wrap_id: "- (2 ^ 31) \<le> i \<Longrightarrow> i < 2 ^ 31 \<Longrightarrow> int32_wrap i = i"
  by (simp add: int32_wrap_def signed_take_bit_int_eq_self)

lemma uint32_wrap_id: "0 \<le> i \<Longrightarrow> i < 2 ^ 32 \<Longrightarrow> uint32_wrap i = i"
  by (simp add: uint32_wrap_def take_bit_int_eq_self)

text \<open>A rectangle whose corners are 32 bit numbers.\<close>

definition rect_fits :: "host_gui_rect \<Rightarrow> bool" where
  "rect_fits r \<longleftrightarrow> - (2 ^ 31) \<le> rect_x r \<and> - (2 ^ 31) \<le> rect_y r \<and>
     rect_x r + rect_w r < 2 ^ 31 \<and> rect_y r + rect_h r < 2 ^ 31"

text \<open>Whether a place is in a rectangle of x, y, w, h, and in one kept as x, y, x1, y1.\<close>

definition in_rect :: "host_gui_rect \<Rightarrow> int \<Rightarrow> int \<Rightarrow> bool" where
  "in_rect r x y \<longleftrightarrow> rect_x r \<le> x \<and> x < rect_x r + rect_w r \<and> rect_y r \<le> y \<and> y < rect_y r + rect_h r"

definition in_span :: "host_gui_rect \<Rightarrow> int \<Rightarrow> int \<Rightarrow> bool" where
  "in_span r x y \<longleftrightarrow> rect_x r \<le> x \<and> x < rect_w r \<and> rect_y r \<le> y \<and> y < rect_h r"

text \<open>
  The clipping of \<open>host_gui_filled_box\<close> and \<open>host_gui_blit\<close>: the rectangle becomes x, y, x1, y1
  and is cut to the clip rectangle, which is kept that way.
\<close>

definition clip_rect :: "host_gui_rect \<Rightarrow> host_gui_rect \<Rightarrow> host_gui_rect option" where
  "clip_rect c r =
     (if rect_w r \<le> 0 \<or> rect_h r \<le> 0 then None
      else let x1 = int32_wrap (rect_w r + rect_x r); y1 = int32_wrap (rect_h r + rect_y r) in
        if rect_w c \<le> rect_x r \<or> rect_h c \<le> rect_y r then None
        else if x1 \<le> rect_x c \<or> y1 \<le> rect_y c then None
        else Some \<lparr>rect_x = (if rect_x c > rect_x r then rect_x c else rect_x r),
                   rect_y = (if rect_y c > rect_y r then rect_y c else rect_y r),
                   rect_w = (if x1 > rect_w c then rect_w c else x1),
                   rect_h = (if y1 > rect_h c then rect_h c else y1)\<rparr>)"

lemma clip_rect_None:
  "rect_fits r \<Longrightarrow> clip_rect c r = None \<Longrightarrow> \<not> (in_rect r x y \<and> in_span c x y)"
  by (auto simp: clip_rect_def rect_fits_def in_rect_def in_span_def int32_wrap_id Let_def split: if_splits)

lemma clip_rect_Some:
  assumes "rect_fits r" "clip_rect c r = Some k"
  shows "in_span k x y \<longleftrightarrow> in_rect r x y \<and> in_span c x y"
  using assms
  by (auto simp: clip_rect_def rect_fits_def in_rect_def in_span_def int32_wrap_id Let_def split: if_splits)

text \<open>What is left after clipping is not empty if the clip rectangle is not.\<close>

lemma clip_rect_nonempty:
  assumes "rect_fits r" "clip_rect c r = Some k" "rect_x c < rect_w c" "rect_y c < rect_h c"
  shows "rect_x k < rect_w k" "rect_y k < rect_h k"
    "rect_x c \<le> rect_x k" "rect_y c \<le> rect_y k" "rect_w k \<le> rect_w c" "rect_h k \<le> rect_h c"
    "rect_x r \<le> rect_x k" "rect_y r \<le> rect_y k" "rect_w k \<le> rect_x r + rect_w r" "rect_h k \<le> rect_y r + rect_h r"
  using assms
  by (auto simp: clip_rect_def rect_fits_def int32_wrap_id Let_def split: if_splits)

section \<open>The loops over a rectangle\<close>

definition pixel_at :: "u32 list \<Rightarrow> int \<Rightarrow> u32 option" where
  "pixel_at px p = (if 0 \<le> p \<and> p div 4 < int (length px) then Some (px ! nat (p div 4)) else None)"

text \<open>
  One line: \<open>do { ... dst++; src++ } while (dst != dst_end_line)\<close>. \<open>op\<close> is given where the
  source pointer is and the pixel that is there, and gives the pixel that is to be there; \<open>ssz\<close>
  is the size of what the source pointer points to.
\<close>

function row_loop :: "(int \<Rightarrow> u32 \<Rightarrow> u32 option) \<Rightarrow> int \<Rightarrow> int \<Rightarrow> int \<Rightarrow> int \<Rightarrow> u32 list
    \<Rightarrow> (int \<times> int \<times> u32 list) option" where
  "row_loop op ssz src dst fin px =
     (case pixel_at px dst of None \<Rightarrow> None
      | Some d \<Rightarrow> (case op src d of None \<Rightarrow> None
        | Some v \<Rightarrow> (let px = px[nat (dst div 4) := v] in
            if dst + 4 = fin then Some (src + ssz, dst + 4, px)
            else row_loop op ssz (src + ssz) (dst + 4) fin px)))"
  by pat_completeness auto

termination
  by (relation "measure (\<lambda>(op, ssz, src, dst, fin, px). nat (4 * int (length px) - dst))")
     (auto simp: pixel_at_def split: if_splits)

declare row_loop.simps [simp del]

lemma row_loop_grows:
  "row_loop op ssz src dst fin px = Some (src', dst', px') \<Longrightarrow>
     dst < dst' \<and> dst < 4 * int (length px) \<and> length px' = length px"
proof (induction op ssz src dst fin px rule: row_loop.induct)
  case (1 op ssz src dst fin px)
  from "1.prems" obtain d v where d: "pixel_at px dst = Some d" "op src d = Some v"
    by (subst (asm) row_loop.simps) (auto split: option.splits)
  then have l: "dst < 4 * int (length px)" by (auto simp: pixel_at_def split: if_splits)
  show ?case
  proof (cases "dst + 4 = fin")
    case True
    then show ?thesis using "1.prems" d l by (subst (asm) row_loop.simps) (auto simp: Let_def)
  next
    case False
    have "row_loop op ssz (src + ssz) (dst + 4) fin (px[nat (dst div 4) := v]) = Some (src', dst', px')"
      using "1.prems" d False by (subst (asm) row_loop.simps) (simp add: Let_def)
    from "1.IH" [OF d refl False this] show ?thesis using l by simp
  qed
qed

text \<open>
  The lines of a rectangle: \<open>do { line; dst += dstride; src += sstride } while (dst != dst_end)\<close>.
  The stride of the destination is an unsigned number.
\<close>

function rect_loop :: "(int \<Rightarrow> u32 \<Rightarrow> u32 option) \<Rightarrow> int \<Rightarrow> int \<Rightarrow> int \<Rightarrow> nat \<Rightarrow> int \<Rightarrow> int \<Rightarrow> int
    \<Rightarrow> u32 list \<Rightarrow> u32 list option" where
  "rect_loop op ssz line sstride dstride fin src dst px =
     (case row_loop op ssz src dst (dst + line) px of None \<Rightarrow> None
      | Some (src, dst, px) \<Rightarrow>
          if dst + int dstride = fin then Some px
          else rect_loop op ssz line sstride dstride fin (src + sstride) (dst + int dstride) px)"
  by pat_completeness auto

termination
  by (relation "measure (\<lambda>(op, ssz, line, sstride, dstride, fin, src, dst, px). nat (4 * int (length px) - dst))")
     (auto dest!: row_loop_grows)

declare rect_loop.simps [simp del]

text \<open>
  A line of \<open>n\<close> pixels from the pixel \<open>i\<close> gives each what \<open>op\<close> says and touches no other.
\<close>

definition painted :: "nat \<Rightarrow> nat \<Rightarrow> (nat \<Rightarrow> u32) \<Rightarrow> u32 list \<Rightarrow> u32 list" where
  "painted i n g px = map (\<lambda>q. if i \<le> q \<and> q < i + n then g (q - i) else px ! q) [0..<length px]"

lemma painted_length [simp]: "length (painted i n g px) = length px"
  by (simp add: painted_def)

lemma painted_nth: "q < length px \<Longrightarrow>
    painted i n g px ! q = (if i \<le> q \<and> q < i + n then g (q - i) else px ! q)"
  by (simp add: painted_def)

lemma painted_one: "i < length px \<Longrightarrow> px[i := g 0] = painted i 1 g px"
  by (rule nth_equalityI) (auto simp: painted_nth nth_list_update)

lemma painted_step:
  "i < length px \<Longrightarrow> painted (Suc i) n (g \<circ> Suc) (px[i := g 0]) = painted i (Suc n) g px"
  by (rule nth_equalityI) (auto simp: painted_nth nth_list_update Suc_diff_Suc)

lemma row_loop_spec:
  assumes "0 < n" "i + n \<le> length px" "\<And>j. j < n \<Longrightarrow> op (src + ssz * int j) (px ! (i + j)) = Some (g j)"
  shows "row_loop op ssz src (4 * int i) (4 * int (i + n)) px
    = Some (src + ssz * int n, 4 * int (i + n), painted i n g px)"
  using assms
proof (induction n arbitrary: i src px g)
  case (Suc n)
  have d: "pixel_at px (4 * int i) = Some (px ! i)" "op src (px ! i) = Some (g 0)"
    using Suc.prems(2) Suc.prems(3) [of 0] by (simp_all add: pixel_at_def)
  show ?case
  proof (cases "n = 0")
    case True
    then show ?thesis
      using d Suc.prems(2) by (subst row_loop.simps) (simp add: painted_one Let_def)
  next
    case False
    have "row_loop op ssz (src + ssz) (4 * int (Suc i)) (4 * int (Suc i + n)) (px[i := g 0])
      = Some (src + ssz + ssz * int n, 4 * int (Suc i + n), painted (Suc i) n (g \<circ> Suc) (px[i := g 0]))"
    proof (rule Suc.IH)
      fix j assume "j < n"
      then show "op (src + ssz + ssz * int j) (px[i := g 0] ! (Suc i + j)) = Some ((g \<circ> Suc) j)"
        using Suc.prems(3) [of "Suc j"] by (simp add: algebra_simps)
    qed (use False Suc.prems(2) in auto)
    then show ?thesis
      using d False Suc.prems(2)
      by (subst row_loop.simps) (simp add: painted_step Let_def algebra_simps)
  qed
qed simp

text \<open>
  A rectangle of \<open>m\<close> lines of \<open>n\<close> pixels in a buffer whose lines are \<open>w\<close> pixels apart.
\<close>

lemma rect_loop_spec:
  assumes "0 < n" "0 < m" "n \<le> w" "i + w * (m - 1) + n \<le> length px"
    and "\<And>k j. k < m \<Longrightarrow> j < n \<Longrightarrow>
      op (src + pitch * int k + ssz * int j) (px ! (i + w * k + j)) = Some (g k j)"
  shows "\<exists>px'. rect_loop op ssz (4 * int n) (pitch - ssz * int n) (4 * (w - n)) (4 * int (i + w * m))
        src (4 * int i) px = Some px' \<and> length px' = length px
      \<and> (\<forall>k < m. \<forall>j < n. px' ! (i + w * k + j) = g k j)
      \<and> (\<forall>q < length px. (\<forall>k < m. \<forall>j < n. q \<noteq> i + w * k + j) \<longrightarrow> px' ! q = px ! q)"
  using assms
proof (induction m arbitrary: i src px g)
  case (Suc m)
  let ?px = "painted i n (g 0) px"
  have row: "row_loop op ssz src (4 * int i) (4 * int i + 4 * int n) px
      = Some (src + ssz * int n, 4 * int (i + n), ?px)"
    using row_loop_spec [of n i px op src ssz "g 0"] Suc.prems(1,4) Suc.prems(5) [of 0]
    by (simp add: algebra_simps)
  have ends: "4 * int (i + n) + int (4 * (w - n)) = 4 * int (i + w)"
    using Suc.prems(3) by (simp add: of_nat_diff algebra_simps)
  have in0: "?px ! (i + j) = g 0 j" if "j < n" for j
    using that Suc.prems(4) by (simp add: painted_nth)
  have out0: "?px ! q = px ! q" if "q < length px" "\<forall>j < n. q \<noteq> i + j" for q
    using that by (auto simp: painted_nth) (metis add_diff_cancel_left' le_add_diff_inverse nat_add_left_cancel_less)
  show ?case
  proof (cases "m = 0")
    case True
    then show ?thesis
      using row ends in0 out0 by (subst rect_loop.simps) (simp add: algebra_simps)
  next
    case False
    then have le: "i + w + w * (m - 1) + n \<le> length px"
      using Suc.prems(4) by (cases m) (simp_all add: algebra_simps)
    have px: "?px ! (i + w + w * k + j) = px ! (i + w + w * k + j)" if "k < m" "j < n" for k j
    proof -
      have "w * k \<le> w * (m - 1)" using that(1) by (intro mult_le_mono2) simp
      then have "i + w + w * k + j < length px" using le that(2) by linarith
      then show ?thesis using Suc.prems(3) by (simp add: painted_nth)
    qed
    have "\<exists>px'. rect_loop op ssz (4 * int n) (pitch - ssz * int n) (4 * (w - n)) (4 * int (i + w + w * m))
        (src + pitch) (4 * int (i + w)) ?px = Some px' \<and> length px' = length ?px
      \<and> (\<forall>k < m. \<forall>j < n. px' ! (i + w + w * k + j) = (g \<circ> Suc) k j)
      \<and> (\<forall>q < length ?px. (\<forall>k < m. \<forall>j < n. q \<noteq> i + w + w * k + j) \<longrightarrow> px' ! q = ?px ! q)"
    proof (rule Suc.IH)
      fix k j assume kj: "k < m" "j < n"
      then show "op (src + pitch + pitch * int k + ssz * int j) (?px ! (i + w + w * k + j)) = Some ((g \<circ> Suc) k j)"
        using Suc.prems(5) [of "Suc k" j] px [OF kj] by (simp add: algebra_simps)
    qed (use False Suc.prems(1,3) le in auto)
    then obtain px' where IH: "rect_loop op ssz (4 * int n) (pitch - ssz * int n) (4 * (w - n))
        (4 * int (i + w + w * m)) (src + pitch) (4 * int (i + w)) ?px = Some px'"
      "length px' = length px" "\<forall>k < m. \<forall>j < n. px' ! (i + w + w * k + j) = g (Suc k) j"
      "\<forall>q < length px. (\<forall>k < m. \<forall>j < n. q \<noteq> i + w + w * k + j) \<longrightarrow> px' ! q = ?px ! q"
      by auto
    have "rect_loop op ssz (4 * int n) (pitch - ssz * int n) (4 * (w - n)) (4 * int (i + w * Suc m))
        src (4 * int i) px = Some px'"
      using row ends IH(1) False Suc.prems(1,3)
      by (subst rect_loop.simps) (simp add: algebra_simps)
    moreover have "px' ! (i + w * k + j) = g k j" if "k < Suc m" "j < n" for k j
    proof (cases k)
      case 0
      have "i + j < length px" using that(2) Suc.prems(4) by simp
      moreover have "\<forall>k < m. \<forall>j' < n. i + j \<noteq> i + w + w * k + j'" using that(2) Suc.prems(3) by auto
      ultimately show ?thesis using IH(4) in0 that(2) 0 by simp
    next
      case (Suc k')
      have "px' ! (i + w + w * k' + j) = g (Suc k') j" using IH(3) that Suc by simp
      then show ?thesis using Suc by (simp add: algebra_simps)
    qed
    moreover have "px' ! q = px ! q" if q: "q < length px" "\<forall>k < Suc m. \<forall>j < n. q \<noteq> i + w * k + j" for q
    proof -
      have "q \<noteq> i + w + w * k + j" if "k < m" "j < n" for k j
        using q(2) [rule_format, of "Suc k" j] that by (simp add: algebra_simps)
      moreover have "\<forall>j < n. q \<noteq> i + j" using q(2) [rule_format, of 0] by auto
      ultimately show ?thesis using IH(4) q(1) out0 by simp
    qed
    ultimately show ?thesis using IH(2) by blast
  qed
qed simp

section \<open>Pixels\<close>

text \<open>Channel \<open>c\<close> of a pixel: blue is 0, green 1, red 2 and alpha 3.\<close>

definition chan :: "nat \<Rightarrow> u32 \<Rightarrow> nat" where
  "chan c p = unat (take_bit 8 (drop_bit (8 * c) p))"

lemma chan_nat: "chan c p = (unat p div 256 ^ c) mod 256"
  unfolding chan_def unsigned_take_bit_eq unat_drop_bit_eq
  by (simp add: power_mult take_bit_eq_mod drop_bit_eq_div)

lemma bit_ff00ff: "bit (0xff00ff :: u32) i \<longleftrightarrow> i < 8 \<or> 16 \<le> i \<and> i < 24"
proof -
  have e: "(0xff00ff :: u32) = mask 8 OR push_bit 16 (mask 8)" by (simp add: mask_eq_exp_minus_1)
  show ?thesis unfolding e by (simp only: bit_or_iff bit_push_bit_iff bit_mask_iff) auto
qed

lemma bit_ff00: "bit (0xff00 :: u32) i \<longleftrightarrow> 8 \<le> i \<and> i < 16"
proof -
  have e: "(0xff00 :: u32) = push_bit 8 (mask 8)" by (simp add: mask_eq_exp_minus_1)
  show ?thesis unfolding e by (simp only: bit_push_bit_iff bit_mask_iff) auto
qed

lemma chan_less [simp]: "chan c p < 256" by (simp add: chan_nat)

lemma chan_le: "chan c p \<le> 255" using chan_less [of c p] by linarith

lemma unat_small: "n < 2 ^ 32 \<Longrightarrow> unat (of_nat n :: u32) = n"
  by (simp add: unat_of_nat)

lemma unat_rb: "unat (p AND 0xff00ff :: u32) = 65536 * chan 2 p + chan 0 p"
proof -
  have e: "p AND 0xff00ff = push_bit 16 (take_bit 8 (drop_bit 16 p)) OR take_bit 8 p"
    by (rule bit_word_eqI)
      (simp only: bit_and_iff bit_or_iff bit_push_bit_iff bit_take_bit_iff bit_drop_bit_eq bit_ff00ff o_apply, auto)
  have "p AND 0xff00ff = push_bit 16 (take_bit 8 (drop_bit 16 p)) + take_bit 8 p"
    unfolding e by (rule disjunctive_add [symmetric]) (auto simp: bit_push_bit_iff bit_take_bit_iff)
  then have "p AND 0xff00ff = of_nat (65536 * chan 2 p + chan 0 p)"
    by (simp add: chan_def push_bit_eq_mult mult.commute)
  then show ?thesis
    using unat_small [of "65536 * chan 2 p + chan 0 p"] chan_le [of 2 p] chan_le [of 0 p] by simp
qed

lemma unat_g: "unat (p AND 0xff00 :: u32) = 256 * chan 1 p"
proof -
  have "p AND 0xff00 = push_bit 8 (take_bit 8 (drop_bit 8 p))"
    by (rule bit_word_eqI)
      (simp only: bit_and_iff bit_push_bit_iff bit_take_bit_iff bit_drop_bit_eq bit_ff00 o_apply, auto)
  then have "p AND 0xff00 = of_nat (256 * chan 1 p)"
    by (simp add: chan_def push_bit_eq_mult mult.commute)
  then show ?thesis
    using unat_small [of "256 * chan 1 p"] chan_le [of 1 p] by simp
qed

text \<open>A pixel with no alpha, as a number.\<close>

definition rgb :: "nat \<Rightarrow> nat \<Rightarrow> nat \<Rightarrow> nat" where "rgb r g b = (r * 256 + g) * 256 + b"

text \<open>
  What every driver does to blend: red and blue are kept in one number and green in another, the
  destination is scaled by \<open>da\<close> and the source added.
\<close>

definition blend_px :: "u32 \<Rightarrow> u32 \<Rightarrow> u32 \<Rightarrow> u32 \<Rightarrow> u32" where
  "blend_px da srb sg d =
     (let dg = d AND 0xff00; drb = d AND 0xff00ff in
      ((drop_bit 8 (drb * da) AND 0xff00ff) + srb) + ((drop_bit 8 (dg * da) AND 0xff00) + sg))"

lemma pair_div: "b < 256 \<Longrightarrow> (x * 256 + b) div 256 = x" "b < 256 \<Longrightarrow> (x * 256 + b) mod 256 = (b :: nat)"
  by simp_all

lemma chan_rgb:
  assumes "unat p = rgb r g b" "r < 256" "g < 256" "b < 256"
  shows "chan 0 p = b" "chan 1 p = g" "chan 2 p = r" "chan 3 p = 0"
proof -
  have "rgb r g b div 256 = r * 256 + g" "rgb r g b mod 256 = b"
    unfolding rgb_def using assms(4) by (rule pair_div)+
  moreover have "n div 256 ^ 2 = n div 256 div 256" "n div 256 ^ 3 = n div 256 div 256 div 256" for n :: nat
    by (simp_all add: div_mult2_eq [symmetric])
  ultimately show "chan 0 p = b" "chan 1 p = g" "chan 2 p = r" "chan 3 p = 0"
    unfolding chan_nat assms(1) using assms(2,3) pair_div [of g r] by simp_all
qed

lemma unat_sum: "unat (a :: u32) + unat b < 2 ^ 32 \<Longrightarrow> unat (a + b) = unat a + unat b"
  by (simp add: unat_word_ariths)

lemma unat_prod: "unat (a :: u32) * unat b < 2 ^ 32 \<Longrightarrow> unat (a * b) = unat a * unat b"
  by (simp add: unat_word_ariths)

lemma shade_le: "x \<le> 255 \<Longrightarrow> x * a div 256 \<le> (a :: nat)"
proof -
  assume "x \<le> 255"
  then have "x * a \<le> 256 * a" by (intro mult_le_mono1) simp
  then have "x * a div 256 \<le> 256 * a div 256" by (rule div_le_mono)
  then show ?thesis by simp
qed

lemma chan_drop: "chan c (drop_bit 8 p) = (unat p div 256) div 256 ^ c mod 256"
  unfolding chan_nat unat_drop_bit_eq by (simp add: drop_bit_eq_div)

text \<open>
  With a source that has the alpha left over from \<open>da\<close> no channel runs into the next one.
\<close>

lemma blend_px_rgb:
  assumes "unat da \<le> 255" "unat srb = rgb r 0 b" "unat sg = rgb 0 g 0"
    and "r + unat da \<le> 255" "g + unat da \<le> 255" "b + unat da \<le> 255"
  shows "unat (blend_px da srb sg d) =
    rgb (chan 2 d * unat da div 256 + r) (chan 1 d * unat da div 256 + g) (chan 0 d * unat da div 256 + b)"
proof -
  let ?R = "chan 2 d" and ?G = "chan 1 d" and ?B = "chan 0 d" and ?a = "unat da"
  have "?R * ?a \<le> 255 * ?a" "?G * ?a \<le> 255 * ?a" "?B * ?a \<le> 255 * ?a"
    by (intro mult_le_mono1 chan_le)+
  then have small: "?R * ?a \<le> 65025" "?G * ?a \<le> 65025" "?B * ?a \<le> 65025"
    using assms(1) by linarith+
  have e: "(65536 * ?R + ?B) * ?a = 65536 * (?R * ?a) + ?B * ?a" "256 * ?G * ?a = 256 * (?G * ?a)"
    by (simp_all add: algebra_simps)
  have rb: "unat ((d AND 0xff00ff) * da) = 65536 * (?R * ?a) + ?B * ?a"
  proof -
    have "unat (d AND 0xff00ff) * ?a < 2 ^ 32" unfolding unat_rb e using small by simp
    then show ?thesis by (simp only: unat_prod unat_rb e)
  qed
  have g: "unat ((d AND 0xff00) * da) = 256 * (?G * ?a)"
  proof -
    have "unat (d AND 0xff00) * ?a < 2 ^ 32" unfolding unat_g e using small by (simp add: mult.commute)
    then show ?thesis by (simp only: unat_prod unat_g e)
  qed
  have "65536 * (?R * ?a) + ?B * ?a = (256 * (?R * ?a)) * 256 + ?B * ?a" by simp
  then have d1: "(65536 * (?R * ?a) + ?B * ?a) div 256 = 256 * (?R * ?a) + ?B * ?a div 256"
    by (metis add.commute div_mult_self1 zero_neq_numeral)
  have b: "?B * ?a div 256 < 256" "?R * ?a div 256 < 256" "?G * ?a div 256 < 256"
    using small by linarith+
  have "chan 0 (drop_bit 8 ((d AND 0xff00ff) * da)) = ?B * ?a div 256"
    using b(1) by (simp only: chan_drop rb d1) simp
  moreover have "chan 2 (drop_bit 8 ((d AND 0xff00ff) * da)) = ?R * ?a div 256"
  proof -
    have "n div 256 ^ 2 = n div 256 div 256" for n :: nat by (simp add: div_mult2_eq [symmetric])
    moreover have "(256 * (?R * ?a) + ?B * ?a div 256) div 256 = ?R * ?a"
      using b(1) by simp
    ultimately show ?thesis
      using b(2) by (simp only: chan_drop rb d1) simp
  qed
  moreover have "chan 1 (drop_bit 8 ((d AND 0xff00) * da)) = ?G * ?a div 256"
    using b(3) by (simp only: chan_drop g) simp
  ultimately have m: "unat (drop_bit 8 ((d AND 0xff00ff) * da) AND 0xff00ff) = rgb (?R * ?a div 256) 0 (?B * ?a div 256)"
    "unat (drop_bit 8 ((d AND 0xff00) * da) AND 0xff00) = rgb 0 (?G * ?a div 256) 0"
    unfolding unat_rb unat_g by (simp_all add: rgb_def)
  have "?R * ?a div 256 \<le> ?a" "?G * ?a div 256 \<le> ?a" "?B * ?a div 256 \<le> ?a"
    by (intro shade_le chan_le)+
  then have le: "?R * ?a div 256 + r \<le> 255" "?G * ?a div 256 + g \<le> 255" "?B * ?a div 256 + b \<le> 255"
    using assms(4-6) by linarith+
  have "unat ((drop_bit 8 ((d AND 0xff00ff) * da) AND 0xff00ff) + srb) = rgb (?R * ?a div 256 + r) 0 (?B * ?a div 256 + b)"
    using m assms(2) le by (subst unat_sum) (simp_all add: rgb_def algebra_simps)
  moreover have "unat ((drop_bit 8 ((d AND 0xff00) * da) AND 0xff00) + sg) = rgb 0 (?G * ?a div 256 + g) 0"
    using m assms(3) le by (subst unat_sum) (simp_all add: rgb_def algebra_simps)
  ultimately show ?thesis
    unfolding blend_px_def Let_def using le by (subst unat_sum) (simp_all add: rgb_def algebra_simps)
qed

text \<open>A channel made ready to be blended with an alpha.\<close>

definition premul :: "nat \<Rightarrow> nat \<Rightarrow> nat" where "premul c a = (c + 1) * a div 256"

lemma premul_le: "c \<le> 255 \<Longrightarrow> premul c a \<le> a"
proof -
  assume "c \<le> 255"
  then have "(c + 1) * a \<le> 256 * a" by (intro mult_le_mono1) simp
  then have "(c + 1) * a div 256 \<le> 256 * a div 256" by (rule div_le_mono)
  then show ?thesis by (simp add: premul_def)
qed

lemma premul_opaque: "c \<le> 255 \<Longrightarrow> premul c 255 = c"
proof -
  assume c: "c \<le> 255"
  have "(c + 1) * 255 = 256 * c + (255 - c)" using c by simp
  moreover have "(256 * c + (255 - c)) div 256 = c" using c by simp
  ultimately show ?thesis by (simp add: premul_def)
qed

lemma premul_none [simp]: "premul c 0 = 0" by (simp add: premul_def)

text \<open>
  The reference: a colour drawn with an alpha over a pixel, channel by channel.
\<close>

definition over :: "nat \<Rightarrow> nat \<Rightarrow> nat \<Rightarrow> nat \<Rightarrow> u32 \<Rightarrow> nat" where
  "over r g b a d = rgb (chan 2 d * (255 - a) div 256 + premul r a)
     (chan 1 d * (255 - a) div 256 + premul g a) (chan 0 d * (255 - a) div 256 + premul b a)"

section \<open>A rectangle of a buffer\<close>

lemma place_unique:
  assumes "y * w + x = y' * w + x'" "x < w" "x' < (w :: nat)" shows "y = y'" "x = x'"
proof -
  have "y = (y * w + x) div w" "y' = (y' * w + x') div w" "x = (y * w + x) mod w" "x' = (y' * w + x') mod w"
    using assms(2,3) by simp_all
  then show "y = y'" "x = x'" using assms(1) by simp_all
qed

lemma place_less: "x < w \<Longrightarrow> y < h \<Longrightarrow> y * w + x < w * (h :: nat)"
proof -
  assume "x < w" "y < h"
  then have "y * w + x < Suc y * w" by simp
  also have "\<dots> \<le> h * w" using \<open>y < h\<close> by (intro mult_le_mono1) simp
  finally show ?thesis by (simp add: mult.commute)
qed

text \<open>
  The loops over the part of a buffer of \<open>w\<close> by \<open>h\<close> pixels that is from (x0, y0) to (x1, y1), as
  the drivers call them: each pixel of the part is what \<open>op\<close> says, the rest is as it was.
\<close>

lemma rect_draw_nat:
  assumes "x0 < x1" "x1 \<le> w" "y0 < y1" "y1 \<le> h" "length px = w * h"
    and op: "\<And>x y. x0 \<le> x \<Longrightarrow> x < x1 \<Longrightarrow> y0 \<le> y \<Longrightarrow> y < y1 \<Longrightarrow>
      op (src + pitch * (int y - int y0) + ssz * (int x - int x0)) (px ! (y * w + x)) = Some (g x y)"
  shows "\<exists>px'. rect_loop op ssz (4 * int (x1 - x0)) (pitch - ssz * int (x1 - x0)) (4 * (w - (x1 - x0)))
        (4 * int (y0 * w + x0 + w * (y1 - y0))) src (4 * int (y0 * w + x0)) px = Some px'
      \<and> length px' = length px
      \<and> (\<forall>x < w. \<forall>y < h. px' ! (y * w + x) =
          (if x0 \<le> x \<and> x < x1 \<and> y0 \<le> y \<and> y < y1 then g x y else px ! (y * w + x)))"
proof -
  let ?i = "y0 * w + x0" and ?n = "x1 - x0" and ?m = "y1 - y0"
  have at: "?i + w * k + j = (y0 + k) * w + (x0 + j)" for k j by (simp add: algebra_simps)
  have "?i + w * (?m - 1) + (?n - 1) < w * h"
    unfolding at using assms(1-4) by (intro place_less) auto
  then have le: "?i + w * (?m - 1) + ?n \<le> length px"
    using assms(1,5) by linarith
  have "\<exists>px'. rect_loop op ssz (4 * int ?n) (pitch - ssz * int ?n) (4 * (w - ?n)) (4 * int (?i + w * ?m))
        src (4 * int ?i) px = Some px' \<and> length px' = length px
      \<and> (\<forall>k < ?m. \<forall>j < ?n. px' ! (?i + w * k + j) = g (x0 + j) (y0 + k))
      \<and> (\<forall>q < length px. (\<forall>k < ?m. \<forall>j < ?n. q \<noteq> ?i + w * k + j) \<longrightarrow> px' ! q = px ! q)"
  proof (rule rect_loop_spec)
    fix k j assume "k < ?m" "j < ?n"
    then show "op (src + pitch * int k + ssz * int j) (px ! (?i + w * k + j)) = Some (g (x0 + j) (y0 + k))"
      using op [of "x0 + j" "y0 + k"] unfolding at by simp
  qed (use assms(1-4) le in auto)
  then obtain px' where px': "rect_loop op ssz (4 * int ?n) (pitch - ssz * int ?n) (4 * (w - ?n))
        (4 * int (?i + w * ?m)) src (4 * int ?i) px = Some px'" "length px' = length px"
      "\<And>k j. k < ?m \<Longrightarrow> j < ?n \<Longrightarrow> px' ! (?i + w * k + j) = g (x0 + j) (y0 + k)"
      "\<And>q. q < length px \<Longrightarrow> \<forall>k < ?m. \<forall>j < ?n. q \<noteq> ?i + w * k + j \<Longrightarrow> px' ! q = px ! q"
    by blast
  have "px' ! (y * w + x) = (if x0 \<le> x \<and> x < x1 \<and> y0 \<le> y \<and> y < y1 then g x y else px ! (y * w + x))"
    if xy: "x < w" "y < h" for x y
  proof (cases "x0 \<le> x \<and> x < x1 \<and> y0 \<le> y \<and> y < y1")
    case True
    then have "y - y0 < ?m" "x - x0 < ?n" by linarith+
    then show ?thesis using px'(3) [of "y - y0" "x - x0"] True unfolding at by simp
  next
    case False
    have "y * w + x \<noteq> ?i + w * k + j" if kj: "k < ?m" "j < ?n" for k j
    proof
      assume "y * w + x = ?i + w * k + j"
      then have "y * w + x = (y0 + k) * w + (x0 + j)" unfolding at .
      moreover have "x0 + j < w" using kj assms(2) by simp
      ultimately have "y = y0 + k" "x = x0 + j" using place_unique xy(1) by blast+
      then show False using False kj by (simp add: less_diff_conv add.commute)
    qed
    then have "px' ! (y * w + x) = px ! (y * w + x)"
      using px'(4) place_less [OF xy] assms(5) by simp
    then show ?thesis by (simp only: False if_False)
  qed
  then show ?thesis using px'(1,2) by blast
qed

text \<open>The same, with the arithmetic of the drivers, for a buffer of less than 4 GiB.\<close>

definition span_within :: "host_gui_rect \<Rightarrow> int \<Rightarrow> int \<Rightarrow> bool" where
  "span_within k w h \<longleftrightarrow> 0 \<le> rect_x k \<and> rect_x k < rect_w k \<and> rect_w k \<le> w
     \<and> 0 \<le> rect_y k \<and> rect_y k < rect_h k \<and> rect_h k \<le> h"

lemma rect_draw:
  assumes k: "span_within k w h" and px: "length px = nat (w * h)" and small: "4 * w * h < 2 ^ 32"
    and op: "\<And>x y. in_span k x y \<Longrightarrow>
      op (src + pitch * (y - rect_y k) + ssz * (x - rect_x k)) (px ! nat (y * w + x)) = Some (g x y)"
  shows "\<exists>px'. rect_loop op ssz (uint32_wrap ((rect_w k - rect_x k) * 4)) (pitch - ssz * (rect_w k - rect_x k))
        (nat (uint32_wrap (4 * w - uint32_wrap ((rect_w k - rect_x k) * 4))))
        (uint32_wrap (rect_y k * (4 * w)) + rect_x k * 4 + uint32_wrap ((rect_h k - rect_y k) * (4 * w)))
        src (uint32_wrap (rect_y k * (4 * w)) + rect_x k * 4) px = Some px'
      \<and> length px' = length px
      \<and> (\<forall>x y. 0 \<le> x \<and> x < w \<and> 0 \<le> y \<and> y < h \<longrightarrow> px' ! nat (y * w + x) =
          (if in_span k x y then g x y else px ! nat (y * w + x)))"
proof -
  obtain x0 y0 x1 y1 w' h' :: nat where n: "rect_x k = int x0" "rect_y k = int y0" "rect_w k = int x1"
    "rect_h k = int y1" "w = int w'" "h = int h'"
    by (rule that [of "nat (rect_x k)" "nat (rect_y k)" "nat (rect_w k)" "nat (rect_h k)" "nat w" "nat h"])
      (use k in \<open>simp_all add: span_within_def\<close>)
  have le: "x0 < x1" "x1 \<le> w'" "y0 < y1" "y1 \<le> h'" using k n by (simp_all add: span_within_def)
  have at: "nat (int y * int w' + int x) = y * w' + x" for x y
    by (simp add: n nat_int_add flip: of_nat_mult of_nat_add)
  have "length px = w' * h'" using px by (simp add: n flip: of_nat_mult)
  have lim: "4 * (w' * h') < 2 ^ 32" using small n by (simp add: mult.assoc mult.commute flip: of_nat_mult)
  have "y0 * w' \<le> w' * h'" "(y1 - y0) * w' \<le> w' * h'"
    using le by (simp_all add: mult.commute mult_le_mono2)
  moreover have "x1 - x0 \<le> w' * h'" "w' \<le> w' * h'" using le by (cases h'; simp)+
  ultimately have b: "4 * (y0 * w') < 2 ^ 32" "4 * ((y1 - y0) * w') < 2 ^ 32" "4 * (x1 - x0) < 2 ^ 32" "4 * w' < 2 ^ 32"
    using lim by linarith+
  have wrap: "uint32_wrap (int m) = int m" if "m < 2 ^ 32" for m
    using that by (intro uint32_wrap_id) simp_all
  have d1: "rect_w k - rect_x k = int (x1 - x0)" and d2: "rect_h k - rect_y k = int (y1 - y0)"
    using n(1-4) le(1,3) by (simp_all add: of_nat_diff)
  have "x1 - x0 \<le> w'" using le(2) by simp
  then have d3: "4 * int w' - 4 * int (x1 - x0) = 4 * int (w' - (x1 - x0))"
    by (simp only: of_nat_diff right_diff_distrib)
  have e1: "uint32_wrap ((rect_w k - rect_x k) * 4) = 4 * int (x1 - x0)"
    using wrap [OF b(3)] by (simp add: d1 mult.commute)
  have e2: "uint32_wrap (rect_y k * (4 * w)) = 4 * int (y0 * w')"
    using wrap [OF b(1)] by (simp add: n mult.left_commute)
  have e3: "uint32_wrap ((rect_h k - rect_y k) * (4 * w)) = 4 * int ((y1 - y0) * w')"
    using wrap [OF b(2)] by (simp add: d2 n(5) mult.left_commute)
  have e4: "uint32_wrap (4 * w - 4 * int (x1 - x0)) = 4 * int (w' - (x1 - x0))"
    using wrap [of "4 * (w' - (x1 - x0))"] b(4) by (simp add: d3 n(5))
  note e = e1 e2 e3 e4
  have "\<exists>px'. rect_loop op ssz (4 * int (x1 - x0)) (pitch - ssz * int (x1 - x0)) (4 * (w' - (x1 - x0)))
        (4 * int (y0 * w' + x0 + w' * (y1 - y0))) src (4 * int (y0 * w' + x0)) px = Some px'
      \<and> length px' = length px
      \<and> (\<forall>x < w'. \<forall>y < h'. px' ! (y * w' + x) =
          (if x0 \<le> x \<and> x < x1 \<and> y0 \<le> y \<and> y < y1 then g (int x) (int y) else px ! (y * w' + x)))"
  proof (rule rect_draw_nat [OF le \<open>length px = w' * h'\<close>])
    fix x y assume "x0 \<le> x" "x < x1" "y0 \<le> y" "y < y1"
    then show "op (src + pitch * (int y - int y0) + ssz * (int x - int x0)) (px ! (y * w' + x)) = Some (g (int x) (int y))"
      using op [of "int x" "int y"] n by (simp add: in_span_def at)
  qed
  then obtain px' where px': "rect_loop op ssz (4 * int (x1 - x0)) (pitch - ssz * int (x1 - x0)) (4 * (w' - (x1 - x0)))
        (4 * int (y0 * w' + x0 + w' * (y1 - y0))) src (4 * int (y0 * w' + x0)) px = Some px'"
      "length px' = length px"
      "\<forall>x < w'. \<forall>y < h'. px' ! (y * w' + x) =
          (if x0 \<le> x \<and> x < x1 \<and> y0 \<le> y \<and> y < y1 then g (int x) (int y) else px ! (y * w' + x))"
    by blast
  have "px' ! nat (y * w + x) = (if in_span k x y then g x y else px ! nat (y * w + x))"
    if "0 \<le> x" "x < w" "0 \<le> y" "y < h" for x y
  proof -
    obtain x' y' where xy: "x = int x'" "y = int y'"
      by (rule that [of "nat x" "nat y"]) (use \<open>0 \<le> x\<close> \<open>0 \<le> y\<close> in simp_all)
    then have "x' < w'" "y' < h'" using that n(5,6) by simp_all
    then have "px' ! (y' * w' + x') =
        (if x0 \<le> x' \<and> x' < x1 \<and> y0 \<le> y' \<and> y' < y1 then g (int x') (int y') else px ! (y' * w' + x'))"
      using px'(3) by blast
    then show ?thesis by (simp add: xy n at in_span_def)
  qed
  moreover have s: "4 * int (y0 * w') + rect_x k * 4 = 4 * int (y0 * w' + x0)"
    "4 * int (y0 * w' + x0) + 4 * int ((y1 - y0) * w') = 4 * int (y0 * w' + x0 + w' * (y1 - y0))"
    unfolding n(1) by (simp_all add: algebra_simps)
  have "nat (4 * int (w' - (x1 - x0))) = 4 * (w' - (x1 - x0))" by simp
  then have "rect_loop op ssz (uint32_wrap ((rect_w k - rect_x k) * 4)) (pitch - ssz * (rect_w k - rect_x k))
        (nat (uint32_wrap (4 * w - uint32_wrap ((rect_w k - rect_x k) * 4))))
        (uint32_wrap (rect_y k * (4 * w)) + rect_x k * 4 + uint32_wrap ((rect_h k - rect_y k) * (4 * w)))
        src (uint32_wrap (rect_y k * (4 * w)) + rect_x k * 4) px = Some px'"
    unfolding e unfolding d1 s by (simp only: px'(1))
  ultimately show ?thesis using px'(2) by blast
qed

end
