(* ===== verification/Boxes.thy ===== *)
theory Boxes
  imports Pixels
begin

text \<open>
  The outline of a rectangle as both drivers draw it, out of filled boxes, and the interface it
  relies on: a filled box draws the places that are in it and have not been drawn yet.
\<close>

definition box_of :: "(host_gui_rect \<Rightarrow> 's \<Rightarrow> 's option) \<Rightarrow> host_gui_rect \<Rightarrow> 's \<Rightarrow> 's option" where
  "box_of fill rect s =
     (if rect_w rect \<le> 0 \<or> rect_h rect \<le> 0 then Some s
      else let r = rect\<lparr>rect_h := 1\<rparr> in
        case fill r s of None \<Rightarrow> None | Some s \<Rightarrow>
        if rect_h rect \<le> 1 then Some s
        else let r = r\<lparr>rect_y := int32_wrap (rect_y rect + rect_h rect - 1)\<rparr> in
          case fill r s of None \<Rightarrow> None | Some s \<Rightarrow>
          if rect_h rect \<le> 2 then Some s
          else let r = r\<lparr>rect_y := int32_wrap (rect_y rect + 1), rect_w := 1, rect_h := rect_h rect - 2\<rparr> in
            case fill r s of None \<Rightarrow> None | Some s \<Rightarrow>
            if rect_w rect \<le> 1 then Some s
            else fill (r\<lparr>rect_x := int32_wrap (rect_x rect + rect_w rect - 1)\<rparr>) s)"

definition on_border :: "host_gui_rect \<Rightarrow> int \<Rightarrow> int \<Rightarrow> bool" where
  "on_border r x y \<longleftrightarrow> in_rect r x y \<and>
     (x = rect_x r \<or> x = rect_x r + rect_w r - 1 \<or> y = rect_y r \<or> y = rect_y r + rect_h r - 1)"

text \<open>\<open>drawn s B m\<close>: \<open>m\<close> is \<open>s\<close> with the places \<open>B\<close> drawn once.\<close>

locale box_filler =
  fixes fill :: "host_gui_rect \<Rightarrow> 's \<Rightarrow> 's option"
    and ok :: "'s \<Rightarrow> bool"
    and drawn :: "'s \<Rightarrow> (int \<Rightarrow> int \<Rightarrow> bool) \<Rightarrow> 's \<Rightarrow> bool"
  assumes drawn_none: "drawn s (\<lambda>x y. False) s"
    and drawn_more: "ok s \<Longrightarrow> drawn s B m \<Longrightarrow> rect_fits r \<Longrightarrow> (\<And>x y. B x y \<Longrightarrow> \<not> in_rect r x y) \<Longrightarrow>
      \<exists>m'. fill r m = Some m' \<and> drawn s (\<lambda>x y. B x y \<or> in_rect r x y) m'"
begin

text \<open>The left and the right edge, between the top and the bottom.\<close>

lemma sides_drawn:
  assumes "ok s" "rect_fits r" "0 < rect_w r" "2 < rect_h r"
    and "drawn s (\<lambda>x y. in_rect r x y \<and> (y = rect_y r \<or> y = rect_y r + rect_h r - 1)) m"
  shows "\<exists>m'. (case fill (r\<lparr>rect_y := rect_y r + 1, rect_w := 1, rect_h := rect_h r - 2\<rparr>) m of None \<Rightarrow> None
      | Some m \<Rightarrow> if rect_w r \<le> 1 then Some m
          else fill (r\<lparr>rect_x := rect_x r + rect_w r - 1, rect_y := rect_y r + 1, rect_w := 1, rect_h := rect_h r - 2\<rparr>) m)
      = Some m' \<and> drawn s (on_border r) m'"
proof -
  let ?left = "r\<lparr>rect_y := rect_y r + 1, rect_w := 1, rect_h := rect_h r - 2\<rparr>"
  let ?right = "?left\<lparr>rect_x := rect_x r + rect_w r - 1\<rparr>"
  have fits: "rect_fits ?left" "rect_fits ?right" using assms(2-4) by (auto simp: rect_fits_def)
  have apart: "\<not> in_rect ?left x y" if "in_rect r x y \<and> (y = rect_y r \<or> y = rect_y r + rect_h r - 1)" for x y
    using that by (auto simp: in_rect_def)
  obtain m1 where m1: "fill ?left m = Some m1"
    "drawn s (\<lambda>x y. (in_rect r x y \<and> (y = rect_y r \<or> y = rect_y r + rect_h r - 1)) \<or> in_rect ?left x y) m1"
    using drawn_more [OF assms(1,5) fits(1) apart] by blast
  show ?thesis
  proof (cases "rect_w r \<le> 1")
    case True
    have "(\<lambda>x y. (in_rect r x y \<and> (y = rect_y r \<or> y = rect_y r + rect_h r - 1)) \<or> in_rect ?left x y) = on_border r"
      using True assms(3,4) by (intro ext) (auto simp: in_rect_def on_border_def)
    then show ?thesis using m1 True by simp
  next
    case False
    have apart: "\<not> in_rect ?right x y"
      if "(in_rect r x y \<and> (y = rect_y r \<or> y = rect_y r + rect_h r - 1)) \<or> in_rect ?left x y" for x y
      using that False by (auto simp: in_rect_def)
    obtain m2 where m2: "fill ?right m1 = Some m2"
      "drawn s (\<lambda>x y. ((in_rect r x y \<and> (y = rect_y r \<or> y = rect_y r + rect_h r - 1)) \<or> in_rect ?left x y) \<or> in_rect ?right x y) m2"
      using drawn_more [OF assms(1) m1(2) fits(2) apart] by blast
    have "(\<lambda>x y. ((in_rect r x y \<and> (y = rect_y r \<or> y = rect_y r + rect_h r - 1)) \<or> in_rect ?left x y) \<or> in_rect ?right x y)
        = on_border r"
      using False assms(3,4) by (intro ext) (auto simp: in_rect_def on_border_def)
    then have "drawn s (on_border r) m2" using m2(2) by simp
    then show ?thesis using m1(1) m2(1) False by (cases r) simp
  qed
qed

lemma box_drawn:
  assumes "ok s" "rect_fits r" "0 < rect_w r" "0 < rect_h r"
  shows "\<exists>m. box_of fill r s = Some m \<and> drawn s (on_border r) m"
proof -
  let ?top = "r\<lparr>rect_h := 1\<rparr>" and ?bottom = "r\<lparr>rect_y := rect_y r + rect_h r - 1, rect_h := 1\<rparr>"
  have fits: "rect_fits ?top" "rect_fits ?bottom" using assms(2-4) by (auto simp: rect_fits_def)
  have wrap: "int32_wrap (rect_y r + rect_h r - 1) = rect_y r + rect_h r - 1"
    "2 < rect_h r \<Longrightarrow> int32_wrap (rect_y r + 1) = rect_y r + 1"
    "int32_wrap (rect_x r + rect_w r - 1) = rect_x r + rect_w r - 1"
    using assms(2-4) by (simp_all add: rect_fits_def int32_wrap_id)
  obtain s1 where s1: "fill ?top s = Some s1" "drawn s (\<lambda>x y. False \<or> in_rect ?top x y) s1"
    using drawn_more [OF assms(1) drawn_none fits(1)] by blast
  show ?thesis
  proof (cases "rect_h r \<le> 1")
    case True
    have "(\<lambda>x y. False \<or> in_rect ?top x y) = on_border r"
      using True assms(4) by (intro ext) (auto simp: in_rect_def on_border_def)
    then show ?thesis using s1 True assms(3,4) by (simp add: box_of_def Let_def)
  next
    case h1: False
    have apart: "\<not> in_rect ?bottom x y" if "False \<or> in_rect ?top x y" for x y
      using that h1 by (auto simp: in_rect_def)
    obtain s2 where s2: "fill ?bottom s1 = Some s2" "drawn s (\<lambda>x y. (False \<or> in_rect ?top x y) \<or> in_rect ?bottom x y) s2"
      using drawn_more [OF assms(1) s1(2) fits(2) apart] by blast
    have ends: "(\<lambda>x y. (False \<or> in_rect ?top x y) \<or> in_rect ?bottom x y)
        = (\<lambda>x y. in_rect r x y \<and> (y = rect_y r \<or> y = rect_y r + rect_h r - 1))"
      using h1 by (intro ext) (auto simp: in_rect_def)
    show ?thesis
    proof (cases "rect_h r \<le> 2")
      case True
      have "(\<lambda>x y. in_rect r x y \<and> (y = rect_y r \<or> y = rect_y r + rect_h r - 1)) = on_border r"
        using True h1 by (intro ext) (auto simp: in_rect_def on_border_def)
      then have "drawn s (on_border r) s2" using s2(2) unfolding ends by simp
      then show ?thesis using s1(1) s2(1) True h1 assms(3) wrap by (cases r) (simp add: box_of_def Let_def)
    next
      case False
      let ?left = "r\<lparr>rect_y := rect_y r + 1, rect_w := 1, rect_h := rect_h r - 2\<rparr>"
      obtain m where m: "(case fill ?left s2 of None \<Rightarrow> None | Some m \<Rightarrow> if rect_w r \<le> 1 then Some m
            else fill (r\<lparr>rect_x := rect_x r + rect_w r - 1, rect_y := rect_y r + 1, rect_w := 1, rect_h := rect_h r - 2\<rparr>) m)
          = Some m" "drawn s (on_border r) m"
        using sides_drawn [OF assms(1-3) _ s2(2) [unfolded ends]] False by auto
      obtain s3 where "fill ?left s2 = Some s3" using m(1) by (cases "fill ?left s2") auto
      then show ?thesis
        using m s1(1) s2(1) h1 False assms(3) wrap
        by (cases r; cases "rect_w r \<le> 1") (simp_all add: box_of_def Let_def)
    qed
  qed
qed

end

end
