(* ===== verification/Raster.thy ===== *)
theory Raster
  imports Boxes
begin

text \<open>
  The driver that draws into a buffer of its own, \<^verbatim>\<open>src/src/host/gui_raw.cpp\<close>: boxes, textures of
  three kinds, the blit with clipping, and what is copied between the buffers. What SDL does to
  put the buffer in a window is left out.
\<close>

section \<open>The screen\<close>

record raw_gui =
  scr_width :: int
  scr_height :: int
  scr_stride :: int
  color_a :: u32
  color_rb :: u32
  color_g :: u32
  clip :: host_gui_rect
  screen_px :: "u32 list"
  backbuffer :: "u32 list"

text \<open>Memory that was just allocated, \<open>junk\<close> being what is in it.\<close>

definition malloc_px :: "(nat \<Rightarrow> u32) \<Rightarrow> int \<Rightarrow> u32 list" where
  "malloc_px junk bytes = map junk [0..<nat (bytes div 4)]"

definition raw_resize :: "(nat \<Rightarrow> u32) \<Rightarrow> (nat \<Rightarrow> u32) \<Rightarrow> u64 \<Rightarrow> u64 \<Rightarrow> raw_gui \<Rightarrow> raw_gui" where
  "raw_resize junk junk' w h s =
     (let width = uint (ucast w :: u32); height = uint (ucast h :: u32); stride = uint (ucast (w * 4) :: u32);
          bytes = uint32_wrap (height * stride) in
      s\<lparr>scr_width := width, scr_height := height, scr_stride := stride,
        screen_px := malloc_px junk bytes, backbuffer := malloc_px junk' bytes\<rparr>)"

definition raw_deinit :: "raw_gui \<Rightarrow> raw_gui" where
  "raw_deinit s = s\<lparr>scr_width := 0, scr_height := 0, scr_stride := 0, screen_px := [], backbuffer := []\<rparr>"

text \<open>
  A part of the back buffer goes to the screen. Both pointers move alike, so where the one is
  in its buffer the other is in its own.
\<close>

definition raw_flush :: "host_gui_rect \<Rightarrow> raw_gui \<Rightarrow> raw_gui option" where
  "raw_flush r s =
     (if rect_w r \<le> 0 \<or> rect_h r \<le> 0 then Some s
      else let dst = uint32_wrap (rect_y r * scr_stride s) + rect_x r * 4;
               src_end = dst + uint32_wrap (rect_h r * scr_stride s);
               line = uint32_wrap (rect_w r * 4);
               stride = uint32_wrap (scr_stride s - line) in
        map_option (\<lambda>px. s\<lparr>screen_px := px\<rparr>)
          (rect_loop (\<lambda>src d. pixel_at (backbuffer s) src) 4 line stride (nat stride) src_end dst dst (screen_px s)))"

section \<open>Textures\<close>

text \<open>
  The data of a texture is an array of alphas (mode 1), of pairs of an alpha and a grey (mode 2)
  or of pixels, by the mode; an element is kept here in a word that is wide enough for each.
\<close>

record texture =
  tex_w :: int
  tex_h :: int
  tex_s :: int
  tex_m :: int
  tex_rb :: u32
  tex_g :: u32
  tex_data :: "u32 list"

definition tex_unit :: "u64 \<Rightarrow> int" where
  "tex_unit m = (if m = 1 then 1 else if m = 2 then 2 else 4)"

text \<open>What is kept of a pixel.\<close>

definition tex_element :: "u64 \<Rightarrow> u32 \<Rightarrow> u32" where
  "tex_element m p =
     (if m = 1 then drop_bit 24 p
      else if m = 2 then (drop_bit 16 p AND 0xff00) OR (drop_bit 16 p AND 0xff)
      else p)"

text \<open>The loops that read a picture: its lines, \<open>do { *dst++ = ... *src++ } while (src != src_end_line)\<close>.\<close>

function grab_row :: "(u32 \<Rightarrow> u32) \<Rightarrow> u32 list \<Rightarrow> int \<Rightarrow> int \<Rightarrow> u32 list \<Rightarrow> (int \<times> u32 list) option" where
  "grab_row f px src fin out =
     (case pixel_at px src of None \<Rightarrow> None
      | Some p \<Rightarrow> if src + 4 = fin then Some (src + 4, out @ [f p])
          else grab_row f px (src + 4) fin (out @ [f p]))"
  by pat_completeness auto

termination
  by (relation "measure (\<lambda>(f, px, src, fin, out). nat (4 * int (length px) - src))")
     (auto simp: pixel_at_def split: if_splits)

declare grab_row.simps [simp del]

lemma grab_row_grows:
  "grab_row f px src fin out = Some (src', out') \<Longrightarrow> src < src' \<and> src < 4 * int (length px)"
proof (induction f px src fin out rule: grab_row.induct)
  case (1 f px src fin out)
  from "1.prems" obtain p where p: "pixel_at px src = Some p"
    by (subst (asm) grab_row.simps) (auto split: option.splits)
  then have l: "src < 4 * int (length px)" by (auto simp: pixel_at_def split: if_splits)
  show ?case
  proof (cases "src + 4 = fin")
    case True
    then show ?thesis using "1.prems" p l by (subst (asm) grab_row.simps) auto
  next
    case False
    have "grab_row f px (src + 4) fin (out @ [f p]) = Some (src', out')"
      using "1.prems" p False by (subst (asm) grab_row.simps) simp
    from "1.IH" [OF p False this] show ?thesis using l by simp
  qed
qed

function grab_rect :: "(u32 \<Rightarrow> u32) \<Rightarrow> u32 list \<Rightarrow> int \<Rightarrow> nat \<Rightarrow> int \<Rightarrow> int \<Rightarrow> u32 list \<Rightarrow> u32 list option" where
  "grab_rect f px line stride fin src out =
     (case grab_row f px src (src + line) out of None \<Rightarrow> None
      | Some (src, out) \<Rightarrow> if src + int stride = fin then Some out
          else grab_rect f px line stride fin (src + int stride) out)"
  by pat_completeness auto

termination
  by (relation "measure (\<lambda>(f, px, line, stride, fin, src, out). nat (4 * int (length px) - src))")
     (auto dest!: grab_row_grows)

declare grab_rect.simps [simp del]

text \<open>
  A texture is made of a picture of lines \<open>s\<close> bytes apart. Lines that are less than \<open>w\<close> pixels
  apart, which would take the pointer back, run off the picture here.
\<close>

definition raw_create_texture :: "u32 list \<Rightarrow> u64 \<Rightarrow> u64 \<Rightarrow> u64 \<Rightarrow> u64 \<Rightarrow> texture option" where
  "raw_create_texture src w h s m =
     map_option (\<lambda>out. \<lparr>tex_w = sint (ucast w :: u32), tex_h = sint (ucast h :: u32),
         tex_s = sint (ucast (w * word_of_int (tex_unit m)) :: u32), tex_m = sint (ucast m :: u32),
         tex_rb = push_bit 16 (0xff + 1) + (0xff + 1), tex_g = push_bit 8 (0xff + 1), tex_data = out\<rparr>)
       (grab_rect (tex_element m) src (uint (ucast (w * 4) :: u32)) (unat (s - ucast (ucast (w * 4) :: u32)))
          (uint (h * s)) 0 [])"

definition raw_set_texture_color :: "u8 \<Rightarrow> u8 \<Rightarrow> u8 \<Rightarrow> texture \<Rightarrow> texture" where
  "raw_set_texture_color r g b t =
     t\<lparr>tex_rb := push_bit 16 (ucast r + 1) + (ucast b + 1), tex_g := push_bit 8 (ucast g + 1)\<rparr>"

section \<open>Drawing\<close>

definition raw_set_clip :: "host_gui_rect \<Rightarrow> raw_gui \<Rightarrow> raw_gui" where
  "raw_set_clip r s = s\<lparr>clip := r\<lparr>rect_w := int32_wrap (rect_w r + rect_x r),
     rect_h := int32_wrap (rect_h r + rect_y r)\<rparr>\<rparr>"

definition raw_set_color :: "u8 \<Rightarrow> u8 \<Rightarrow> u8 \<Rightarrow> u8 \<Rightarrow> raw_gui \<Rightarrow> raw_gui" where
  "raw_set_color r g b a s =
     s\<lparr>color_a := ucast a,
       color_rb := push_bit 8 (((ucast r + 1) * ucast a) AND 0xff00) + drop_bit 8 ((ucast b + 1) * ucast a),
       color_g := ((ucast g + 1) * ucast a) AND 0xff00\<rparr>"

text \<open>A pixel of a filled box.\<close>

definition fill_px :: "raw_gui \<Rightarrow> u32 \<Rightarrow> u32" where
  "fill_px s d = (if color_a s = 0xff then color_rb s + color_g s
     else blend_px (0xff - color_a s) (color_rb s) (color_g s) d)"

definition raw_filled_box :: "host_gui_rect \<Rightarrow> raw_gui \<Rightarrow> raw_gui option" where
  "raw_filled_box rect s =
     (if color_a s = 0 then Some s
      else case clip_rect (clip s) rect of None \<Rightarrow> Some s
        | Some r \<Rightarrow>
          let dst = uint32_wrap (rect_y r * scr_stride s) + rect_x r * 4;
              dst_end = dst + uint32_wrap ((rect_h r - rect_y r) * scr_stride s);
              line = uint32_wrap ((rect_w r - rect_x r) * 4);
              stride = uint32_wrap (scr_stride s - line) in
          map_option (\<lambda>px. s\<lparr>backbuffer := px\<rparr>)
            (rect_loop (\<lambda>_ d. Some (fill_px s d)) 0 line 0 (nat stride) dst_end 0 dst (backbuffer s)))"

definition raw_box :: "host_gui_rect \<Rightarrow> raw_gui \<Rightarrow> raw_gui option" where
  "raw_box rect s =
     (if rect_w rect \<le> 0 \<or> rect_h rect \<le> 0 then Some s
      else let r = rect\<lparr>rect_h := 1\<rparr> in
        case raw_filled_box r s of None \<Rightarrow> None | Some s \<Rightarrow>
        if rect_h rect \<le> 1 then Some s
        else let r = r\<lparr>rect_y := int32_wrap (rect_y rect + rect_h rect - 1)\<rparr> in
          case raw_filled_box r s of None \<Rightarrow> None | Some s \<Rightarrow>
          if rect_h rect \<le> 2 then Some s
          else let r = r\<lparr>rect_y := int32_wrap (rect_y rect + 1), rect_w := 1, rect_h := rect_h rect - 2\<rparr> in
            case raw_filled_box r s of None \<Rightarrow> None | Some s \<Rightarrow>
            if rect_w rect \<le> 1 then Some s
            else raw_filled_box (r\<lparr>rect_x := int32_wrap (rect_x rect + rect_w rect - 1)\<rparr>) s)"

text \<open>A pixel under a glyph of alpha \<open>sa\<close>, under a grey one, and under a pixel of a picture.\<close>

definition glyph_px :: "u32 \<Rightarrow> u32 \<Rightarrow> u32 \<Rightarrow> u32 \<Rightarrow> u32" where
  "glyph_px rb g sa d =
     (if sa \<noteq> 0 then
        let sg = drop_bit 8 (sa * g) AND 0xff00; srb = drop_bit 8 (sa * rb) AND 0xff00ff in
        if sa \<noteq> 0xff then blend_px (0xff - sa) srb sg d else srb + sg
      else d)"

definition grey_px :: "u32 \<Rightarrow> u32 \<Rightarrow> u32 \<Rightarrow> u32 \<Rightarrow> u32" where
  "grey_px rb g sca d =
     (let sa = drop_bit 8 sca AND 0xff in
      if sa \<noteq> 0 then
        let tc = sca AND 0xff; combined_a = drop_bit 8 (sa * (tc + 1));
            sg = drop_bit 8 (combined_a * g) AND 0xff00; srb = drop_bit 8 (combined_a * rb) AND 0xff00ff in
        if sa \<noteq> 0xff then blend_px (0xff - sa) srb sg d else srb + sg
      else d)"

definition argb_px :: "u32 \<Rightarrow> u32 \<Rightarrow> u32" where
  "argb_px sa d =
     (if sa > 0xffffff then
        if sa < 0xff000000 then blend_px (0xff - drop_bit 24 sa) (sa AND 0xff00ff) (sa AND 0xff00) d
        else sa AND 0xffffff
      else d)"

text \<open>The element of a texture at a byte offset into its data.\<close>

definition texel :: "texture \<Rightarrow> int \<Rightarrow> int \<Rightarrow> u32 option" where
  "texel t unit p = (if 0 \<le> p \<and> p div unit < int (length (tex_data t))
     then Some (tex_data t ! nat (p div unit)) else None)"

text \<open>The size of an element of a texture and what it does to a pixel, by the mode.\<close>

definition blit_unit :: "texture \<Rightarrow> int" where
  "blit_unit t = (if tex_m t = 1 then 1 else if tex_m t = 2 then 2 else 4)"

definition blit_op :: "texture \<Rightarrow> u32 \<Rightarrow> u32 \<Rightarrow> u32" where
  "blit_op t = (if tex_m t = 1 then glyph_px (tex_rb t) (tex_g t)
     else if tex_m t = 2 then grey_px (tex_rb t) (tex_g t) else argb_px)"

definition raw_blit :: "texture \<Rightarrow> host_gui_rect \<Rightarrow> host_gui_rect \<Rightarrow> raw_gui \<Rightarrow> raw_gui option" where
  "raw_blit t srect drect s =
     (case clip_rect (clip s) drect of None \<Rightarrow> Some s
      | Some dr \<Rightarrow>
        let sx = (if rect_x (clip s) > rect_x drect
                  then int32_wrap (rect_x srect + (rect_x (clip s) - rect_x drect)) else rect_x srect);
            sy = (if rect_y (clip s) > rect_y drect
                  then int32_wrap (rect_y srect + (rect_y (clip s) - rect_y drect)) else rect_y srect);
            dst = uint32_wrap (rect_y dr * scr_stride s) + rect_x dr * 4;
            dst_end = dst + uint32_wrap ((rect_h dr - rect_y dr) * scr_stride s);
            unit = blit_unit t;
            src = int32_wrap (sy * tex_s t) + sx * unit;
            line = uint32_wrap ((rect_w dr - rect_x dr) * 4);
            sstride = uint32_wrap (tex_s t - (rect_w dr - rect_x dr) * unit);
            dstride = uint32_wrap (scr_stride s - line) in
        map_option (\<lambda>px. s\<lparr>backbuffer := px\<rparr>)
          (rect_loop (\<lambda>p d. map_option (\<lambda>e. blit_op t e d) (texel t unit p)) unit line sstride (nat dstride)
             dst_end src dst (backbuffer s)))"

section \<open>Reading back\<close>

text \<open>Loops that count: \<open>for (y = 0; y < h; y++) for (x = 0; x < w; x++) dst[x] = ...\<close>.\<close>

fun put_row :: "(nat \<Rightarrow> u32 option) \<Rightarrow> int \<Rightarrow> nat list \<Rightarrow> u32 list \<Rightarrow> u32 list option" where
  "put_row f dst [] px = Some px"
| "put_row f dst (x # xs) px =
     (case f x of None \<Rightarrow> None
      | Some v \<Rightarrow> if pixel_at px (dst + 4 * int x) = None then None
          else put_row f dst xs (px[nat ((dst + 4 * int x) div 4) := v]))"

fun put_rows :: "(nat \<Rightarrow> nat \<Rightarrow> u32 option) \<Rightarrow> int \<Rightarrow> nat list \<Rightarrow> nat list \<Rightarrow> u32 list \<Rightarrow> u32 list option" where
  "put_rows f stride xs [] px = Some px"
| "put_rows f stride xs (y # ys) px =
     (case put_row (f y) (int y * stride) xs px of None \<Rightarrow> None | Some px \<Rightarrow> put_rows f stride xs ys px)"

definition raw_texture_px :: "texture \<Rightarrow> nat \<Rightarrow> nat \<Rightarrow> u32 option" where
  "raw_texture_px t y x =
     (if tex_m t = 1 then
        map_option (\<lambda>a. push_bit 24 a OR push_bit 16 a OR push_bit 8 a OR a) (texel t 1 (int y * tex_s t + int x))
      else if tex_m t = 2 then
        map_option (\<lambda>p. let a = drop_bit 8 p; c = p AND 0xff in
            push_bit 24 a OR push_bit 16 c OR push_bit 8 c OR c) (texel t 2 (int y * tex_s t + 2 * int x))
      else texel t 4 (int y * tex_s t + 4 * int x))"

definition raw_read_texture :: "texture option \<Rightarrow> u32 list \<Rightarrow> u64 \<Rightarrow> u64 \<Rightarrow> u64 \<Rightarrow> (u64 \<times> u32 list) option" where
  "raw_read_texture th data w h stride =
     (case th of None \<Rightarrow> Some (0, data)
      | Some t \<Rightarrow> if word_of_int (tex_w t) \<noteq> w \<or> word_of_int (tex_h t) \<noteq> h then Some (0, data)
          else map_option (\<lambda>px. (1, px))
            (put_rows (raw_texture_px t) (uint stride) [0..<unat w] [0..<unat h] data))"

definition raw_read_screen :: "u32 list \<Rightarrow> u64 \<Rightarrow> u64 \<Rightarrow> u64 \<Rightarrow> u64 \<Rightarrow> u64 \<Rightarrow> raw_gui \<Rightarrow> (u64 \<times> u32 list) option" where
  "raw_read_screen data x y w h stride s =
     (if backbuffer s = [] \<or> sint x < 0 \<or> sint y < 0 \<or> uint (x + w) > scr_width s \<or> uint (y + h) > scr_height s
      then Some (0, data)
      else map_option (\<lambda>px. (1, px))
        (put_rows (\<lambda>j i. map_option (\<lambda>p. p OR 0xff000000)
             (pixel_at (backbuffer s) ((sint y + int j) * scr_stride s + 4 * (sint x + int i))))
           (uint stride) [0..<unat w] [0..<unat h] data))"

section \<open>Boxes\<close>

text \<open>
  The buffers are as big as the screen, which takes less than 4 GiB, and the clip rectangle is
  on the screen.
\<close>

definition raw_ok :: "raw_gui \<Rightarrow> bool" where
  "raw_ok s \<longleftrightarrow> scr_stride s = 4 * scr_width s \<and> 4 * scr_width s * scr_height s < 2 ^ 32
     \<and> length (backbuffer s) = nat (scr_width s * scr_height s)
     \<and> length (screen_px s) = nat (scr_width s * scr_height s)
     \<and> span_within (clip s) (scr_width s) (scr_height s)"

definition on_screen :: "raw_gui \<Rightarrow> int \<Rightarrow> int \<Rightarrow> bool" where
  "on_screen s x y \<longleftrightarrow> 0 \<le> x \<and> x < scr_width s \<and> 0 \<le> y \<and> y < scr_height s"

text \<open>The pixel of a buffer of the screen at a place.\<close>

definition px_of :: "raw_gui \<Rightarrow> u32 list \<Rightarrow> int \<Rightarrow> int \<Rightarrow> u32" where
  "px_of s px x y = px ! nat (y * scr_width s + x)"

lemma raw_ok_update [simp]:
  "length px = length (backbuffer s) \<Longrightarrow> raw_ok (s\<lparr>backbuffer := px\<rparr>) = raw_ok s"
  "on_screen (s\<lparr>backbuffer := px\<rparr>) = on_screen s" "px_of (s\<lparr>backbuffer := px\<rparr>) = px_of s"
  "fill_px (s\<lparr>backbuffer := px\<rparr>) = fill_px s"
  by (auto simp: raw_ok_def on_screen_def px_of_def fill_px_def fun_eq_iff)

text \<open>A clipped rectangle is a part of the screen.\<close>

lemma clipped_within:
  assumes "raw_ok s" "rect_fits r" "clip_rect (clip s) r = Some k"
  shows "span_within k (scr_width s) (scr_height s)"
  using assms(1) clip_rect_nonempty [OF assms(2,3)] unfolding raw_ok_def span_within_def by linarith

lemma filled_box_draws:
  assumes "raw_ok s" "rect_fits r"
  shows "\<exists>px. raw_filled_box r s = Some (s\<lparr>backbuffer := px\<rparr>) \<and> length px = length (backbuffer s)
    \<and> (\<forall>x y. on_screen s x y \<longrightarrow> px_of s px x y =
        (if color_a s \<noteq> 0 \<and> in_rect r x y \<and> in_span (clip s) x y
         then fill_px s (px_of s (backbuffer s) x y) else px_of s (backbuffer s) x y))"
proof (cases "color_a s = 0")
  case True
  then show ?thesis by (intro exI [of _ "backbuffer s"]) (simp add: raw_filled_box_def)
next
  case a: False
  show ?thesis
  proof (cases "clip_rect (clip s) r")
    case None
    then show ?thesis
      using clip_rect_None [OF assms(2) None]
      by (intro exI [of _ "backbuffer s"]) (auto simp: raw_filled_box_def)
  next
    case (Some k)
    note in_k = clip_rect_Some [OF assms(2) Some]
    have s: "scr_stride s = 4 * scr_width s" "length (backbuffer s) = nat (scr_width s * scr_height s)"
      "4 * scr_width s * scr_height s < 2 ^ 32"
      using assms(1) by (simp_all add: raw_ok_def)
    note rect_draw [OF clipped_within [OF assms Some] s(2,3), of "\<lambda>_ d. Some (fill_px s d)" 0 0 0
        "\<lambda>x y. fill_px s (backbuffer s ! nat (y * scr_width s + x))"]
    then show ?thesis
      using a Some by (auto simp: raw_filled_box_def Let_def s(1) in_k on_screen_def px_of_def)
  qed
qed

text \<open>A filled box changes the pixels that are in it and in the clip rectangle, each once and
  by the colour, and no others, and it never leaves the buffer.\<close>

theorem raw_filled_box_draws:
  assumes "raw_ok s" "rect_fits r"
  shows "\<exists>px. raw_filled_box r s = Some (s\<lparr>backbuffer := px\<rparr>) \<and> length px = length (backbuffer s)
    \<and> (\<forall>x y. on_screen s x y \<longrightarrow> px_of s px x y =
        (if color_a s \<noteq> 0 \<and> in_rect r x y \<and> in_span (clip s) x y
         then fill_px s (px_of s (backbuffer s) x y) else px_of s (backbuffer s) x y))"
  using assms by (rule filled_box_draws)

text \<open>What a state drawn so far shows: the places of \<open>B\<close> filled once.\<close>

definition raw_drawn :: "raw_gui \<Rightarrow> (int \<Rightarrow> int \<Rightarrow> bool) \<Rightarrow> raw_gui \<Rightarrow> bool" where
  "raw_drawn s B m \<longleftrightarrow> (\<exists>px. m = s\<lparr>backbuffer := px\<rparr> \<and> length px = length (backbuffer s)
     \<and> (\<forall>x y. on_screen s x y \<longrightarrow> px_of s px x y =
        (if color_a s \<noteq> 0 \<and> B x y \<and> in_span (clip s) x y
         then fill_px s (px_of s (backbuffer s) x y) else px_of s (backbuffer s) x y)))"

lemma raw_drawn_more:
  assumes "raw_ok s" "raw_drawn s B m" "rect_fits r" "\<And>x y. B x y \<Longrightarrow> \<not> in_rect r x y"
  shows "\<exists>m'. raw_filled_box r m = Some m' \<and> raw_drawn s (\<lambda>x y. B x y \<or> in_rect r x y) m'"
proof -
  obtain px where px: "m = s\<lparr>backbuffer := px\<rparr>" "length px = length (backbuffer s)"
    "\<And>x y. on_screen s x y \<Longrightarrow> px_of s px x y =
        (if color_a s \<noteq> 0 \<and> B x y \<and> in_span (clip s) x y
         then fill_px s (px_of s (backbuffer s) x y) else px_of s (backbuffer s) x y)"
    using assms(2) unfolding raw_drawn_def by auto
  obtain px' where px': "raw_filled_box r m = Some (m\<lparr>backbuffer := px'\<rparr>)" "length px' = length px"
    "\<And>x y. on_screen s x y \<Longrightarrow> px_of s px' x y =
        (if color_a s \<noteq> 0 \<and> in_rect r x y \<and> in_span (clip s) x y
         then fill_px s (px_of s px x y) else px_of s px x y)"
    using filled_box_draws [of m r] assms(1,3) px(1,2) by auto
  have "raw_drawn s (\<lambda>x y. B x y \<or> in_rect r x y) (m\<lparr>backbuffer := px'\<rparr>)"
    unfolding raw_drawn_def using px px' assms(4) by (intro exI [of _ px']) auto
  then show ?thesis using px'(1) by blast
qed

interpretation rb: box_filler raw_filled_box raw_ok raw_drawn
proof unfold_locales
  show "raw_drawn s (\<lambda>x y. False) s" for s
    unfolding raw_drawn_def by (intro exI [of _ "backbuffer s"]) simp
qed (rule raw_drawn_more)

lemma raw_box_of: "raw_box = box_of raw_filled_box"
  by (intro ext) (simp add: raw_box_def box_of_def)

text \<open>C22: A box draws its outline: each pixel of the border that is in the clip rectangle is filled
  once, so that a colour one can see through is as strong at the corners, and no other is.\<close>

theorem raw_box_draws:
  assumes "raw_ok s" "rect_fits r" "0 < rect_w r" "0 < rect_h r"
  shows "\<exists>px. raw_box r s = Some (s\<lparr>backbuffer := px\<rparr>) \<and> length px = length (backbuffer s)
    \<and> (\<forall>x y. on_screen s x y \<longrightarrow> px_of s px x y =
        (if color_a s \<noteq> 0 \<and> on_border r x y \<and> in_span (clip s) x y
         then fill_px s (px_of s (backbuffer s) x y) else px_of s (backbuffer s) x y))"
  using rb.box_drawn [OF assms] by (auto simp: raw_box_of raw_drawn_def)

section \<open>Blits\<close>

definition tex_ok :: "texture \<Rightarrow> bool" where
  "tex_ok t \<longleftrightarrow> tex_s t = tex_w t * blit_unit t \<and> 0 \<le> tex_w t \<and> 0 \<le> tex_h t
     \<and> tex_w t * tex_h t * 4 < 2 ^ 31 \<and> length (tex_data t) = nat (tex_w t * tex_h t)"

lemma blit_unit_cases: "blit_unit t \<in> {1, 2, 4}"
  by (simp add: blit_unit_def)

lemma int_place_less: "0 \<le> u \<Longrightarrow> u < w \<Longrightarrow> 0 \<le> v \<Longrightarrow> v < h \<Longrightarrow> v * w + u < w * (h :: int)"
proof -
  assume "0 \<le> u" "u < w" "0 \<le> v" "v < h"
  then have "(v + 1) * w \<le> h * w" by (intro mult_right_mono) simp_all
  then show ?thesis using \<open>u < w\<close> by (simp add: algebra_simps)
qed

lemma texel_at:
  assumes "tex_ok t" "0 \<le> u" "u < tex_w t" "0 \<le> v" "v < tex_h t"
  shows "texel t (blit_unit t) (v * tex_s t + u * blit_unit t) = Some (tex_data t ! nat (v * tex_w t + u))"
proof -
  have e: "v * tex_s t + u * blit_unit t = (v * tex_w t + u) * blit_unit t"
    using assms(1) by (simp add: tex_ok_def algebra_simps)
  have u: "0 < blit_unit t" using blit_unit_cases [of t] by auto
  have "v * tex_w t + u < int (length (tex_data t))"
    using int_place_less [OF assms(2-5)] assms(1) by (simp add: tex_ok_def)
  moreover have "0 \<le> v * tex_w t + u" using assms by simp
  ultimately show ?thesis unfolding texel_def e using u by simp
qed

text \<open>Where the source starts, wherever the clip rectangle cuts the destination.\<close>

lemma source_start:
  assumes "tex_ok t" "rect_fits dr" "clip_rect c dr = Some k" "rect_x c < rect_w c" "rect_y c < rect_h c"
    and "0 \<le> rect_x sr" "rect_x sr + rect_w dr \<le> tex_w t" "0 \<le> rect_y sr" "rect_y sr + rect_h dr \<le> tex_h t"
  shows "(if rect_x c > rect_x dr then int32_wrap (rect_x sr + (rect_x c - rect_x dr)) else rect_x sr)
        = rect_x sr + (rect_x k - rect_x dr)"
    "(if rect_y c > rect_y dr then int32_wrap (rect_y sr + (rect_y c - rect_y dr)) else rect_y sr)
        = rect_y sr + (rect_y k - rect_y dr)"
    "int32_wrap ((rect_y sr + (rect_y k - rect_y dr)) * tex_s t) = (rect_y sr + (rect_y k - rect_y dr)) * tex_s t"
    "uint32_wrap (tex_s t - (rect_w k - rect_x k) * blit_unit t) = tex_s t - blit_unit t * (rect_w k - rect_x k)"
proof -
  note k = clip_rect_nonempty [OF assms(2-5)]
  have kx: "rect_x k = (if rect_x c > rect_x dr then rect_x c else rect_x dr)"
    "rect_y k = (if rect_y c > rect_y dr then rect_y c else rect_y dr)"
    using assms(3) by (auto simp: clip_rect_def Let_def split: if_splits)
  have u: "1 \<le> blit_unit t" "blit_unit t \<le> 4" using blit_unit_cases [of t] by auto
  have area: "tex_w t * tex_h t * 4 < 2 ^ 31" "tex_s t = tex_w t * blit_unit t" "0 \<le> tex_w t" "0 \<le> tex_h t"
    using assms(1) by (simp_all add: tex_ok_def)
  have w: "0 < tex_w t" "0 < tex_h t" using k assms(6-9) by linarith+
  have "1 * tex_w t \<le> tex_h t * tex_w t" "1 * tex_h t \<le> tex_w t * tex_h t"
    using w by (intro mult_right_mono; simp)+
  then have small: "tex_w t * 4 < 2 ^ 31" "tex_h t * 4 < 2 ^ 31" using area(1) by (simp_all add: mult.commute)
  show "(if rect_x c > rect_x dr then int32_wrap (rect_x sr + (rect_x c - rect_x dr)) else rect_x sr)
        = rect_x sr + (rect_x k - rect_x dr)"
    "(if rect_y c > rect_y dr then int32_wrap (rect_y sr + (rect_y c - rect_y dr)) else rect_y sr)
        = rect_y sr + (rect_y k - rect_y dr)"
    using k kx small assms(6-9) by (auto intro!: int32_wrap_id)
  let ?v = "rect_y sr + (rect_y k - rect_y dr)"
  have v: "0 \<le> ?v" "?v \<le> tex_h t" using k assms(6-9) by linarith+
  have "tex_s t \<le> tex_w t * 4" unfolding area(2) using u(2) area(3) by (rule mult_left_mono)
  then have "?v * tex_s t \<le> tex_h t * (tex_w t * 4)"
    using v w area(2) u by (intro mult_mono) auto
  then have "?v * tex_s t < 2 ^ 31" using area(1) by (simp add: algebra_simps)
  moreover have "0 \<le> ?v * tex_s t" using v(1) area u by simp
  ultimately show "int32_wrap (?v * tex_s t) = ?v * tex_s t" by (intro int32_wrap_id) simp_all
  have "(rect_w k - rect_x k) * blit_unit t \<le> tex_w t * blit_unit t"
    using k u assms(6,7) by (intro mult_right_mono) auto
  moreover have "0 \<le> (rect_w k - rect_x k) * blit_unit t" using k u by simp
  ultimately show "uint32_wrap (tex_s t - (rect_w k - rect_x k) * blit_unit t) = tex_s t - blit_unit t * (rect_w k - rect_x k)"
    using area(2) \<open>tex_s t \<le> tex_w t * 4\<close> small(1)
    by (subst uint32_wrap_id) (auto simp: mult.commute)
qed

text \<open>C12: A blit of a part of a texture changes the pixels of the destination that are in the clip
  rectangle, each by the element of the texture that lies over it, and no others; it reads
  inside the texture and writes inside the buffer, whichever edges are clipped.\<close>

theorem raw_blit_draws:
  assumes "raw_ok s" "tex_ok t" "rect_fits dr"
    and "0 \<le> rect_x sr" "rect_x sr + rect_w dr \<le> tex_w t" "0 \<le> rect_y sr" "rect_y sr + rect_h dr \<le> tex_h t"
  shows "\<exists>px. raw_blit t sr dr s = Some (s\<lparr>backbuffer := px\<rparr>) \<and> length px = length (backbuffer s)
    \<and> (\<forall>x y. on_screen s x y \<longrightarrow> px_of s px x y =
        (if in_rect dr x y \<and> in_span (clip s) x y
         then blit_op t (tex_data t ! nat ((y - rect_y dr + rect_y sr) * tex_w t + (x - rect_x dr + rect_x sr)))
                (px_of s (backbuffer s) x y)
         else px_of s (backbuffer s) x y))"
proof (cases "clip_rect (clip s) dr")
  case None
  then show ?thesis
    using clip_rect_None [OF assms(3) None]
    by (intro exI [of _ "backbuffer s"]) (auto simp: raw_blit_def)
next
  case (Some k)
  note in_k = clip_rect_Some [OF assms(3) Some]
  have s: "scr_stride s = 4 * scr_width s" "length (backbuffer s) = nat (scr_width s * scr_height s)"
    "4 * scr_width s * scr_height s < 2 ^ 32" and c: "rect_x (clip s) < rect_w (clip s)" "rect_y (clip s) < rect_h (clip s)"
    using assms(1) by (simp_all add: raw_ok_def span_within_def)
  note start = source_start [OF assms(2,3) Some c assms(4-7)]
  let ?v = "rect_y sr + (rect_y k - rect_y dr)" and ?u = "rect_x sr + (rect_x k - rect_x dr)"
  let ?g = "\<lambda>x y. blit_op t (tex_data t ! nat ((y - rect_y dr + rect_y sr) * tex_w t + (x - rect_x dr + rect_x sr)))
      (backbuffer s ! nat (y * scr_width s + x))"
  have op: "map_option (\<lambda>e. blit_op t e (backbuffer s ! nat (y * scr_width s + x)))
      (texel t (blit_unit t) (?v * tex_s t + ?u * blit_unit t + tex_s t * (y - rect_y k) + blit_unit t * (x - rect_x k)))
      = Some (?g x y)" if "in_span k x y" for x y
  proof -
    have "in_rect dr x y" using that in_k by blast
    then have b: "0 \<le> x - rect_x dr + rect_x sr" "x - rect_x dr + rect_x sr < tex_w t"
      "0 \<le> y - rect_y dr + rect_y sr" "y - rect_y dr + rect_y sr < tex_h t"
      using assms(4-7) by (auto simp: in_rect_def)
    have "?v * tex_s t + ?u * blit_unit t + tex_s t * (y - rect_y k) + blit_unit t * (x - rect_x k)
      = (y - rect_y dr + rect_y sr) * tex_s t + (x - rect_x dr + rect_x sr) * blit_unit t"
      by (simp add: algebra_simps)
    then show ?thesis using texel_at [OF assms(2) b] by simp
  qed
  note rect_draw [OF clipped_within [OF assms(1,3) Some] s(2,3),
      of "\<lambda>p d. map_option (\<lambda>e. blit_op t e d) (texel t (blit_unit t) p)"
         "?v * tex_s t + ?u * blit_unit t" "tex_s t" "blit_unit t" ?g, OF op]
  then show ?thesis
    unfolding raw_blit_def Some option.case Let_def start s(1)
    by (auto simp: in_k on_screen_def px_of_def)
qed

section \<open>Colours\<close>

lemma unat_byte: "unat (ucast (b :: u8) :: u32) = unat b" "unat (ucast (b :: u8) + 1 :: u32) = unat b + 1"
  "unat b \<le> 255"
proof -
  have b: "unat b < 256" using unsigned_less [of b, where ?'a = nat] by simp
  show u: "unat (ucast b :: u32) = unat b"
    using b by (simp add: unsigned_ucast_eq unsigned_take_bit_eq take_bit_nat_eq_self)
  show "unat (ucast b + 1 :: u32) = unat b + 1" using b u by (subst unat_sum) simp_all
  show "unat b \<le> 255" using b by simp
qed

text \<open>Two channels multiplied at once by an alpha.\<close>

lemma pair_scaled:
  fixes a w :: u32
  assumes "unat w = 65536 * r + b" "unat a \<le> 255" "r \<le> 256" "b \<le> 256"
  shows "unat (drop_bit 8 (a * w) AND 0xff00ff) = rgb (r * unat a div 256) 0 (b * unat a div 256)"
proof -
  let ?a = "unat a"
  have "?a * r \<le> 255 * 256" "?a * b \<le> 255 * 256" using assms by (intro mult_le_mono; simp)+
  then have small: "r * ?a \<le> 65280" "b * ?a \<le> 65280" by (simp_all add: mult.commute)
  have e: "?a * (65536 * r + b) = 65536 * (r * ?a) + b * ?a" by (simp add: algebra_simps)
  have "?a * unat w < 2 ^ 32" unfolding assms(1) e using small by simp
  from unat_prod [OF this] have w: "unat (a * w) = 65536 * (r * ?a) + b * ?a" by (simp only: assms(1) e)
  have "65536 * (r * ?a) + b * ?a = b * ?a + (256 * (r * ?a)) * 256" by simp
  then have d: "(65536 * (r * ?a) + b * ?a) div 256 = 256 * (r * ?a) + b * ?a div 256"
    by (simp only: div_mult_self1)
  have l: "b * ?a div 256 < 256" "r * ?a div 256 < 256" using small by linarith+
  have "chan 0 (drop_bit 8 (a * w)) = b * ?a div 256"
    using l(1) by (simp only: chan_drop w d) simp
  moreover have "chan 2 (drop_bit 8 (a * w)) = r * ?a div 256"
  proof -
    have "n div 256 ^ 2 = n div 256 div 256" for n :: nat by (simp add: div_mult2_eq [symmetric])
    moreover have "(256 * (r * ?a) + b * ?a div 256) div 256 = r * ?a" using l(1) by simp
    ultimately show ?thesis using l(2) by (simp only: chan_drop w d) simp
  qed
  ultimately show ?thesis unfolding unat_rb by (simp add: rgb_def)
qed

lemma green_scaled:
  fixes a w :: u32
  assumes "unat w = 256 * g" "unat a \<le> 255" "g \<le> 256"
  shows "unat (drop_bit 8 (a * w) AND 0xff00) = rgb 0 (g * unat a div 256) 0"
proof -
  let ?a = "unat a"
  have "?a * g \<le> 255 * 256" using assms by (intro mult_le_mono) simp_all
  then have small: "g * ?a \<le> 65280" by (simp add: mult.commute)
  have e: "?a * (256 * g) = 256 * (g * ?a)" by (simp add: algebra_simps)
  have "?a * unat w < 2 ^ 32" unfolding assms(1) e using small by simp
  from unat_prod [OF this] have w: "unat (a * w) = 256 * (g * ?a)" by (simp only: assms(1) e)
  have l: "g * ?a div 256 < 256" using small by linarith
  have "chan 1 (drop_bit 8 (a * w)) = g * ?a div 256"
    using l by (simp only: chan_drop w) simp
  then show ?thesis unfolding unat_g by (simp add: rgb_def)
qed

text \<open>The colour of boxes and that of textures, as the drivers keep them.\<close>

lemma scaled_byte:
  fixes c a :: u8
  defines "x \<equiv> (ucast c + 1) * ucast a :: u32"
  shows "unat x = (unat c + 1) * unat a" "unat (drop_bit 8 x) = premul (unat c) (unat a)"
    "unat (x AND 0xff00) = 256 * premul (unat c) (unat a)" "premul (unat c) (unat a) \<le> 255"
proof -
  have "(unat c + 1) * unat a \<le> 256 * 255"
    using unat_byte(3) [of c] unat_byte(3) [of a] by (intro mult_le_mono) simp_all
  then have l: "(unat c + 1) * unat a \<le> 65280" by simp
  then show x: "unat x = (unat c + 1) * unat a"
    unfolding x_def by (subst unat_prod) (simp_all add: unat_byte)
  show "unat (drop_bit 8 x) = premul (unat c) (unat a)"
    unfolding unat_drop_bit_eq x premul_def by (simp add: drop_bit_eq_div)
  show p: "premul (unat c) (unat a) \<le> 255"
    using premul_le [OF unat_byte(3), of c "unat a"] unat_byte(3) [of a] by simp
  have "chan 1 x = premul (unat c) (unat a)"
    using p by (simp only: chan_nat x) (simp add: premul_def)
  then show "unat (x AND 0xff00) = 256 * premul (unat c) (unat a)"
    unfolding unat_g by simp
qed

lemma unat_shift: "unat (w :: u32) * 2 ^ n < 2 ^ 32 \<Longrightarrow> unat (push_bit n w) = unat w * 2 ^ n"
  unfolding unsigned_push_bit_eq by (simp add: push_bit_eq_mult take_bit_nat_eq_self)

lemma color_parts:
  "unat (color_rb (raw_set_color r g b a s)) = rgb (premul (unat r) (unat a)) 0 (premul (unat b) (unat a))"
  "unat (color_g (raw_set_color r g b a s)) = rgb 0 (premul (unat g) (unat a)) 0"
  "unat (color_a (raw_set_color r g b a s)) = unat a"
proof -
  note p = scaled_byte [of r a] scaled_byte [of b a]
  have "unat (push_bit 8 (((ucast r + 1) * ucast a :: u32) AND 0xff00)) = 65536 * premul (unat r) (unat a)"
    using p by (subst unat_shift) simp_all
  then show "unat (color_rb (raw_set_color r g b a s)) = rgb (premul (unat r) (unat a)) 0 (premul (unat b) (unat a))"
    using p by (simp add: raw_set_color_def rgb_def) (subst unat_sum; simp)
  show "unat (color_g (raw_set_color r g b a s)) = rgb 0 (premul (unat g) (unat a)) 0"
    using scaled_byte [of g a] by (simp add: raw_set_color_def rgb_def)
  show "unat (color_a (raw_set_color r g b a s)) = unat a"
    by (simp add: raw_set_color_def unat_byte)
qed

lemma texture_color_parts:
  "unat (tex_rb (raw_set_texture_color r g b t)) = 65536 * (unat r + 1) + (unat b + 1)"
  "unat (tex_g (raw_set_texture_color r g b t)) = 256 * (unat g + 1)"
proof -
  have l: "unat r \<le> 255" "unat g \<le> 255" "unat b \<le> 255" by (rule unat_byte(3))+
  then have s: "unat (push_bit 16 (ucast r + 1 :: u32)) = 65536 * (unat r + 1)"
    "unat (push_bit 8 (ucast g + 1 :: u32)) = 256 * (unat g + 1)"
    using unat_shift [of "ucast r + 1 :: u32" 16] unat_shift [of "ucast g + 1 :: u32" 8] l
    by (simp_all add: unat_byte)
  show "unat (tex_rb (raw_set_texture_color r g b t)) = 65536 * (unat r + 1) + (unat b + 1)"
    using s l by (simp add: raw_set_texture_color_def) (subst unat_sum; simp add: unat_byte(1,2))
  show "unat (tex_g (raw_set_texture_color r g b t)) = 256 * (unat g + 1)"
    using s by (simp add: raw_set_texture_color_def)
qed

lemma over_opaque: "r \<le> 255 \<Longrightarrow> g \<le> 255 \<Longrightarrow> b \<le> 255 \<Longrightarrow> over r g b 255 d = rgb r g b"
  by (simp add: over_def premul_opaque)

lemma blend_over:
  assumes "unat da = 255 - a" "a \<le> 255" "r \<le> 255" "g \<le> 255" "b \<le> 255"
    and "unat srb = rgb (premul r a) 0 (premul b a)" "unat sg = rgb 0 (premul g a) 0"
  shows "unat (blend_px da srb sg d) = over r g b a d"
  using assms premul_le [of r a] premul_le [of g a] premul_le [of b a]
  by (subst blend_px_rgb [of da srb "premul r a" "premul b a" sg "premul g a"]) (simp_all add: over_def)

lemma sum_rgb:
  fixes srb sg :: u32
  assumes "unat srb = rgb r 0 b" "unat sg = rgb 0 g 0" "r \<le> 255" "g \<le> 255" "b \<le> 255"
  shows "unat (srb + sg) = rgb r g b"
  using assms by (subst unat_sum) (simp_all add: rgb_def)

lemma unat_from_255: "unat (w :: u32) \<le> 255 \<Longrightarrow> unat (0xff - w) = 255 - unat w"
  by (subst unat_sub) (simp_all add: word_le_nat_alt)

lemma fill_px_over: "unat (fill_px (raw_set_color r g b a s) d) = over (unat r) (unat g) (unat b) (unat a) d"
proof -
  let ?s = "raw_set_color r g b a s"
  note c = color_parts [of r g b a s] and l = unat_byte(3) [of r] unat_byte(3) [of g] unat_byte(3) [of b] unat_byte(3) [of a]
  have p: "premul (unat x) (unat a) \<le> 255" for x :: u8 by (rule scaled_byte(4))
  show ?thesis
  proof (cases "color_a ?s = 0xff")
    case True
    then have "unat a = 255" using c(3) by simp
    then show ?thesis
      using True sum_rgb [OF c(1,2) p p p] by (simp add: fill_px_def over_def)
  next
    case False
    have "unat (0xff - color_a ?s) = 255 - unat a" using unat_from_255 [of "color_a ?s"] c(3) l by simp
    then show ?thesis
      using False blend_over [OF _ l(4,1-3) c(1,2)] by (simp add: fill_px_def)
  qed
qed

lemma glyph_px_over:
  assumes "unat sa \<le> 255"
  shows "unat (glyph_px (tex_rb (raw_set_texture_color r g b t)) (tex_g (raw_set_texture_color r g b t)) sa d)
    = (if sa = 0 then unat d else over (unat r) (unat g) (unat b) (unat sa) d)"
proof -
  let ?t = "raw_set_texture_color r g b t"
  note c = texture_color_parts [of r g b t]
    and l = unat_byte(3) [of r] unat_byte(3) [of g] unat_byte(3) [of b]
  have "unat r + 1 \<le> 256" "unat g + 1 \<le> 256" "unat b + 1 \<le> 256" using l by simp_all
  then have srb: "unat (drop_bit 8 (sa * tex_rb ?t) AND 0xff00ff) = rgb (premul (unat r) (unat sa)) 0 (premul (unat b) (unat sa))"
    and sg: "unat (drop_bit 8 (sa * tex_g ?t) AND 0xff00) = rgb 0 (premul (unat g) (unat sa)) 0"
    using pair_scaled [OF c(1) assms] green_scaled [OF c(2) assms] by (simp_all add: premul_def)
  have p: "premul (unat x) (unat sa) \<le> 255" for x :: u8
    using premul_le [OF unat_byte(3), of x "unat sa"] assms by simp
  show ?thesis
  proof (cases "sa = 0xff")
    case True
    then show ?thesis using sum_rgb [OF srb sg p p p] by (simp add: glyph_px_def over_def)
  next
    case False
    then show ?thesis
      using blend_over [OF unat_from_255 [OF assms] assms l srb sg] by (simp add: glyph_px_def)
  qed
qed

lemma chan3: "chan 3 p = unat p div 2 ^ 24"
proof -
  have "unat p div 2 ^ 24 < 256" using unsigned_less [of p, where ?'a = nat] by (simp add: div_less_iff_less_mult)
  then show ?thesis by (simp add: chan_nat)
qed

lemma low_24: "unat (p AND 0xffffff :: u32) = rgb (chan 2 p) (chan 1 p) (chan 0 p)"
proof -
  have "p AND 0xffffff = take_bit 24 p" by (simp add: take_bit_eq_mask mask_eq_exp_minus_1)
  then have "unat (p AND 0xffffff) = unat p mod (256 * (256 * 256))"
    by (simp only: unsigned_take_bit_eq) (simp add: take_bit_eq_mod)
  also have "\<dots> = rgb (chan 2 p) (chan 1 p) (chan 0 p)"
    unfolding mod_mult2_eq rgb_def chan_nat by (simp add: div_mult2_eq [symmetric])
  finally show ?thesis .
qed

lemma argb_px_over:
  assumes "chan 0 p \<le> chan 3 p" "chan 1 p \<le> chan 3 p" "chan 2 p \<le> chan 3 p"
  shows "unat (argb_px p d) = (if chan 3 p = 0 then unat d else
    rgb (chan 2 d * (255 - chan 3 p) div 256 + chan 2 p) (chan 1 d * (255 - chan 3 p) div 256 + chan 1 p)
      (chan 0 d * (255 - chan 3 p) div 256 + chan 0 p))"
proof -
  have g: "p > 0xffffff \<longleftrightarrow> chan 3 p \<noteq> 0" unfolding chan3 word_less_nat_alt by simp linarith
  have o: "p < 0xff000000 \<longleftrightarrow> chan 3 p < 255" unfolding chan3 word_less_nat_alt by simp linarith
  have a: "unat (drop_bit 24 p) = chan 3 p" by (simp only: chan3 unat_drop_bit_eq) (simp add: drop_bit_eq_div)
  have da: "unat (0xff - drop_bit 24 p) = 255 - chan 3 p"
    using unat_from_255 [of "drop_bit 24 p"] chan_le [of 3 p] by (simp only: a)
  have rb: "unat (p AND 0xff00ff) = rgb (chan 2 p) 0 (chan 0 p)" "unat (p AND 0xff00) = rgb 0 (chan 1 p) 0"
    unfolding unat_rb unat_g by (simp_all add: rgb_def)
  have "unat (blend_px (0xff - drop_bit 24 p) (p AND 0xff00ff) (p AND 0xff00) d) =
    rgb (chan 2 d * (255 - chan 3 p) div 256 + chan 2 p) (chan 1 d * (255 - chan 3 p) div 256 + chan 1 p)
      (chan 0 d * (255 - chan 3 p) div 256 + chan 0 p)"
    using blend_px_rgb [OF _ rb, of "0xff - drop_bit 24 p" d] assms chan_le [of 3 p] by (simp add: da)
  moreover have "chan 3 p \<noteq> 0 \<Longrightarrow> \<not> chan 3 p < 255 \<Longrightarrow> chan 3 p = 255" using chan_le [of 3 p] by simp
  ultimately show ?thesis
    unfolding argb_px_def g o by (auto simp: low_24)
qed


section \<open>A texture made and read back\<close>

lemma grab_row_spec:
  "0 < n \<Longrightarrow> i + n \<le> length px \<Longrightarrow> grab_row f px (4 * int i) (4 * int (i + n)) out
     = Some (4 * int (i + n), out @ map (\<lambda>j. f (px ! (i + j))) [0..<n])"
proof (induction n arbitrary: i out)
  case (Suc n)
  have p: "pixel_at px (4 * int i) = Some (px ! i)" using Suc.prems(2) by (simp add: pixel_at_def)
  have l: "[0..<Suc n] = 0 # map Suc [0..<n]" by (simp add: upt_conv_Cons map_Suc_upt del: upt_Suc)
  show ?case
  proof (cases "n = 0")
    case True
    then show ?thesis using p by (subst grab_row.simps) simp
  next
    case False
    have "grab_row f px (4 * int (Suc i)) (4 * int (Suc i + n)) (out @ [f (px ! i)])
        = Some (4 * int (Suc i + n), (out @ [f (px ! i)]) @ map (\<lambda>j. f (px ! (Suc i + j))) [0..<n])"
      using False Suc.prems(2) by (intro Suc.IH) simp_all
    then show ?thesis
      using p False unfolding l by (subst grab_row.simps) (simp add: algebra_simps)
  qed
qed simp

lemma grab_rect_spec:
  "0 < n \<Longrightarrow> 0 < m \<Longrightarrow> n \<le> w \<Longrightarrow> i + w * (m - 1) + n \<le> length px \<Longrightarrow>
   grab_rect f px (4 * int n) (4 * (w - n)) (4 * int (i + w * m)) (4 * int i) out
     = Some (out @ concat (map (\<lambda>k. map (\<lambda>j. f (px ! (i + w * k + j))) [0..<n]) [0..<m]))"
proof (induction m arbitrary: i out)
  case (Suc m)
  have row: "grab_row f px (4 * int i) (4 * int i + 4 * int n) out
      = Some (4 * int (i + n), out @ map (\<lambda>j. f (px ! (i + j))) [0..<n])"
    using grab_row_spec [of n i px f out] Suc.prems by simp
  have ends: "4 * int (i + n) + int (4 * (w - n)) = 4 * int (i + w)"
    using Suc.prems(3) by (simp add: of_nat_diff algebra_simps)
  have l: "[0..<Suc m] = 0 # map Suc [0..<m]" by (simp add: upt_conv_Cons map_Suc_upt del: upt_Suc)
  show ?case
  proof (cases "m = 0")
    case True
    then show ?thesis using row ends by (subst grab_rect.simps) (simp add: algebra_simps)
  next
    case False
    let ?out = "out @ map (\<lambda>j. f (px ! (i + j))) [0..<n]"
    have "i + w + w * (m - 1) + n \<le> length px"
      using Suc.prems(4) False by (cases m) (simp_all add: algebra_simps)
    then have "grab_rect f px (4 * int n) (4 * (w - n)) (4 * int (i + w + w * m)) (4 * int (i + w)) ?out
        = Some (?out @ concat (map (\<lambda>k. map (\<lambda>j. f (px ! (i + w + w * k + j))) [0..<n]) [0..<m]))"
      using False Suc.prems(1,3) by (intro Suc.IH) simp_all
    then show ?thesis
      using row ends False Suc.prems(1,3) unfolding l
      by (subst grab_rect.simps) (simp add: algebra_simps comp_def)
  qed
qed simp

lemma concat_rows_nth:
  "y < m \<Longrightarrow> x < n \<Longrightarrow> concat (map (\<lambda>k. map (g k) [0..<n]) [0..<m]) ! (y * n + x) = g y x"
proof (induction m)
  case (Suc m)
  have len: "length (concat (map (\<lambda>k. map (g k) [0..<n]) [0..<m])) = m * n"
    by (simp add: length_concat comp_def sum_list_triv)
  show ?case
  proof (cases "y = m")
    case True
    then show ?thesis using Suc.prems(2) len by (simp add: nth_append)
  next
    case False
    then have "y * n + x < n * m" using Suc.prems by (intro place_less) simp_all
    then show ?thesis using False Suc len by (simp add: nth_append mult.commute)
  qed
qed simp

lemma put_row_append: "put_row f dst (xs @ ys) px = (case put_row f dst xs px of None \<Rightarrow> None | Some px \<Rightarrow> put_row f dst ys px)"
  by (induction f dst xs px rule: put_row.induct) (auto split: option.splits)

lemma put_row_spec:
  "i + n \<le> length px \<Longrightarrow> (\<And>x. x < n \<Longrightarrow> f x = Some (g x)) \<Longrightarrow>
     put_row f (4 * int i) [0..<n] px = Some (painted i n g px)"
proof (induction n)
  case 0
  have "painted i 0 g px = px" by (rule nth_equalityI) (auto simp: painted_nth)
  then show ?case by simp
next
  case (Suc n)
  have "(painted i n g px)[i + n := g n] = painted i (Suc n) g px"
    by (rule nth_equalityI) (auto simp: painted_nth nth_list_update less_Suc_eq)
  moreover have "(4 * int i + 4 * int n) div 4 = int (i + n)" by simp
  ultimately show ?case
    using Suc by (simp add: put_row_append pixel_at_def nat_int_add)
qed

lemma put_rows_append:
  "put_rows f stride xs (ys @ zs) px = (case put_rows f stride xs ys px of None \<Rightarrow> None | Some px \<Rightarrow> put_rows f stride xs zs px)"
  by (induction f stride xs ys px rule: put_rows.induct) (simp_all split: option.split)

lemma put_rows_spec:
  assumes "n \<le> w" "\<And>y x. y < m \<Longrightarrow> x < n \<Longrightarrow> f y x = Some (g y x)" "w * m \<le> length px"
  shows "\<exists>px'. put_rows f (4 * int w) [0..<n] [0..<m] px = Some px' \<and> length px' = length px
    \<and> (\<forall>y < m. \<forall>x < n. px' ! (y * w + x) = g y x)"
  using assms(2,3)
proof (induction m)
  case (Suc m)
  then obtain px' where px': "put_rows f (4 * int w) [0..<n] [0..<m] px = Some px'" "length px' = length px"
    "\<forall>y < m. \<forall>x < n. px' ! (y * w + x) = g y x" by auto
  have l: "m * w + n \<le> length px" using Suc.prems(2) assms(1) by (simp add: mult.commute)
  have row: "put_row (f m) (4 * int (m * w)) [0..<n] px' = Some (painted (m * w) n (g m) px')"
    using l px'(2) Suc.prems(1) [of m] by (intro put_row_spec) simp_all
  have "painted (m * w) n (g m) px' ! (y * w + x) = g y x" if "y < Suc m" "x < n" for y x
  proof (cases "y = m")
    case True
    then show ?thesis using that l px'(2) by (simp add: painted_nth)
  next
    case False
    then have lt: "y * w + x < w * m" using that assms(1) by (intro place_less) simp_all
    then have "y * w + x < length px'" using l px'(2) by (simp add: mult.commute)
    moreover have "\<not> m * w \<le> y * w + x" using lt by (simp add: mult.commute)
    moreover have "px' ! (y * w + x) = g y x" using px'(3) that False by simp
    ultimately show ?thesis by (simp add: painted_nth)
  qed
  then show ?case
    using px' row by (intro exI [of _ "painted (m * w) n (g m) px'"]) (simp add: put_rows_append algebra_simps)
qed simp

text \<open>What reading back gives of what was kept of a pixel.\<close>

definition tex_pixel :: "u64 \<Rightarrow> u32 \<Rightarrow> u32" where
  "tex_pixel m p =
     (if m = 1 then push_bit 24 p OR push_bit 16 p OR push_bit 8 p OR p
      else if m = 2 then
        (let a = drop_bit 8 p; c = p AND 0xff in push_bit 24 a OR push_bit 16 c OR push_bit 8 c OR c)
      else p)"

lemma word64_small:
  "n < 2 ^ 32 \<Longrightarrow> uint (ucast (of_nat n :: u64) :: u32) = int n"
  "n < 2 ^ 31 \<Longrightarrow> sint (ucast (of_nat n :: u64) :: u32) = int n"
proof -
  assume n: "n < 2 ^ 32"
  then have "unat (of_nat n :: u64) = n" by (simp add: unsigned_of_nat take_bit_nat_eq_self)
  then have "unat (ucast (of_nat n :: u64) :: u32) = n"
    using n by (simp only: unsigned_ucast_eq unsigned_take_bit_eq) (simp add: take_bit_nat_eq_self)
  then show "uint (ucast (of_nat n :: u64) :: u32) = int n" by (simp only: uint_nat)
next
  assume n: "n < 2 ^ 31"
  then have "unat (of_nat n :: u64) = n" by (simp add: unsigned_of_nat take_bit_nat_eq_self)
  then have "unat (ucast (of_nat n :: u64) :: u32) = n"
    using n by (simp only: unsigned_ucast_eq unsigned_take_bit_eq) (simp add: take_bit_nat_eq_self)
  then have "uint (ucast (of_nat n :: u64) :: u32) = int n" by (simp only: uint_nat)
  then show "sint (ucast (of_nat n :: u64) :: u32) = int n"
    using n by (simp add: sint_uint signed_take_bit_int_eq_self)
qed

lemma created:
  assumes "0 < w" "0 < h" "w \<le> p" "p * (h - 1) + w \<le> length src" "w * h * 4 < 2 ^ 31" "4 * p * h < 2 ^ 64"
    and "m < 2 ^ 31"
  obtains t where "raw_create_texture src (of_nat w) (of_nat h) (of_nat (4 * p)) (of_nat m) = Some t"
    "tex_w t = int w" "tex_h t = int h" "tex_m t = int m" "tex_s t = int w * tex_unit (of_nat m)"
    "tex_data t = concat (map (\<lambda>k. map (\<lambda>j. tex_element (of_nat m) (src ! (p * k + j))) [0..<w]) [0..<h])"
proof -
  have b: "w \<le> w * h" "h \<le> w * h" using assms(1,2) by simp_all
  have small: "w * 4 < 2 ^ 31" "h < 2 ^ 31" "w < 2 ^ 31" using b assms(5) by linarith+
  have "4 * p \<le> 4 * p * h" using assms(2) by simp
  then have p: "4 * p < 2 ^ 64" using assms(6) by linarith
  have line: "uint (ucast (of_nat w * 4 :: u64) :: u32) = 4 * int w"
    using word64_small(1) [of "w * 4"] small(1) by simp
  let ?line = "ucast (of_nat w * 4 :: u64) :: u32"
  have "(ucast ?line :: u64) = word_of_int (uint ?line)" by (rule ucast_eq)
  then have "(ucast ?line :: u64) = of_nat (4 * w)" by (simp add: line)
  moreover have "(of_nat (4 * p) :: u64) - of_nat (4 * w) = of_nat (4 * (p - w))"
    using assms(3) by (simp add: of_nat_diff right_diff_distrib)
  moreover have "4 * (p - w) < 2 ^ 64" using p by linarith
  ultimately have stride: "unat ((of_nat (4 * p) :: u64) - ucast ?line) = 4 * (p - w)"
    by (simp only: unsigned_of_nat) (simp add: take_bit_nat_eq_self)
  have "(of_nat h * of_nat (4 * p) :: u64) = of_nat (4 * p * h)" by (simp add: mult.commute)
  then have fin: "uint (of_nat h * of_nat (4 * p) :: u64) = 4 * int (0 + p * h)"
    using assms(6) by (simp only: unsigned_of_nat) (simp add: take_bit_nat_eq_self)
  have u: "tex_unit (of_nat m) \<in> {1, 2, 4}" by (simp add: tex_unit_def)
  have s: "sint (ucast (of_nat w * word_of_int (tex_unit (of_nat m)) :: u64) :: u32) = int w * tex_unit (of_nat m)"
    using u word64_small(2) [of "w * 1"] word64_small(2) [of "w * 2"] word64_small(2) [of "w * 4"] small by auto
  have "grab_rect (tex_element (of_nat m)) src (uint ?line)
      (unat ((of_nat (4 * p) :: u64) - ucast ?line)) (uint (of_nat h * of_nat (4 * p) :: u64)) 0 []
    = Some (concat (map (\<lambda>k. map (\<lambda>j. tex_element (of_nat m) (src ! (p * k + j))) [0..<w]) [0..<h]))"
    using grab_rect_spec [OF assms(1-3), of 0 src "tex_element (of_nat m)" "[]"] assms(4)
    unfolding line stride fin by simp
  then show ?thesis
    using that s word64_small(2) [OF small(3)] word64_small(2) [OF small(2)] word64_small(2) [OF assms(7)]
    unfolding raw_create_texture_def by simp
qed

lemma created_ok:
  assumes "0 < w" "0 < h" "w * h * 4 < 2 ^ 31" "tex_w t = int w" "tex_h t = int h" "tex_m t = int m"
    "tex_s t = int w * tex_unit (of_nat m)" "m < 2 ^ 31"
    "tex_data t = concat (map (\<lambda>k. map (\<lambda>j. g k j) [0..<w]) [0..<h])"
  shows "tex_ok t" "tex_unit (of_nat m) = blit_unit t"
proof -
  have "(of_nat m = (of_nat 1 :: u64)) = (m = 1)" "(of_nat m = (of_nat 2 :: u64)) = (m = 2)"
    using assms(8) by (subst word_of_nat_eq_iff; simp add: take_bit_nat_eq_self)+
  then show u: "tex_unit (of_nat m) = blit_unit t"
    using assms(6) by (simp add: tex_unit_def blit_unit_def)
  have "int w * int h * 4 < 2 ^ 31" using assms(3) by (simp add: mult.commute flip: of_nat_mult)
  then show "tex_ok t"
    using assms u by (simp add: tex_ok_def length_concat comp_def sum_list_triv nat_mult_distrib mult.commute)
qed


section \<open>The screen\<close>

text \<open>A flush copies the pixels of the rectangle from the back buffer to the screen and no others.\<close>

theorem raw_flush_copies:
  assumes "raw_ok s" "0 \<le> rect_x r" "rect_x r + rect_w r \<le> scr_width s" "0 \<le> rect_y r"
    "rect_y r + rect_h r \<le> scr_height s"
  shows "\<exists>px. raw_flush r s = Some (s\<lparr>screen_px := px\<rparr>) \<and> length px = length (screen_px s)
    \<and> (\<forall>x y. on_screen s x y \<longrightarrow> px_of s px x y =
        (if in_rect r x y then px_of s (backbuffer s) x y else px_of s (screen_px s) x y))"
proof (cases "rect_w r \<le> 0 \<or> rect_h r \<le> 0")
  case True
  then show ?thesis by (intro exI [of _ "screen_px s"]) (auto simp: raw_flush_def in_rect_def)
next
  case False
  let ?k = "r\<lparr>rect_w := rect_x r + rect_w r, rect_h := rect_y r + rect_h r\<rparr>"
  have s: "scr_stride s = 4 * scr_width s" "length (screen_px s) = nat (scr_width s * scr_height s)"
    "length (backbuffer s) = nat (scr_width s * scr_height s)"
    "4 * scr_width s * scr_height s < 2 ^ 32" using assms(1) by (simp_all add: raw_ok_def)
  have k: "span_within ?k (scr_width s) (scr_height s)" "in_span ?k = in_rect r"
    using assms False by (auto simp: span_within_def in_span_def in_rect_def fun_eq_iff)
  have wh: "0 < scr_width s" "0 < scr_height s" using assms False by linarith+
  let ?d = "uint32_wrap (rect_y r * (4 * scr_width s)) + rect_x r * 4"
  have "rect_y r * scr_width s < scr_height s * scr_width s"
    using assms False wh by (intro mult_strict_right_mono) auto
  then have "rect_y r * (4 * scr_width s) < 2 ^ 32" using s(4) by (simp add: algebra_simps)
  then have d: "uint32_wrap (rect_y r * (4 * scr_width s)) = rect_y r * (4 * scr_width s)"
    using assms(4) wh by (intro uint32_wrap_id) simp_all
  have line: "uint32_wrap (rect_w r * 4) = rect_w r * 4"
  proof (rule uint32_wrap_id)
    have "scr_width s * 1 \<le> scr_width s * scr_height s" using wh by (intro mult_left_mono) simp_all
    then show "rect_w r * 4 < 2 ^ 32" using s(4) assms(2,3) by (simp add: mult.commute)
  qed (use False in simp)
  have stride: "uint32_wrap (4 * scr_width s - rect_w r * 4) = 4 * scr_width s - rect_w r * 4"
  proof (rule uint32_wrap_id)
    have "scr_width s * 1 \<le> scr_width s * scr_height s" using wh by (intro mult_left_mono) simp_all
    then show "4 * scr_width s - rect_w r * 4 < 2 ^ 32" using s(4) False by (simp add: mult.commute)
  qed (use assms(2,3) in simp)
  have op: "pixel_at (backbuffer s) (?d + 4 * scr_width s * (y - rect_y ?k) + 4 * (x - rect_x ?k))
      = Some (px_of s (backbuffer s) x y)" if "in_span ?k x y" for x y
  proof -
    have "in_rect r x y" using that k(2) by simp
    then have b: "0 \<le> x" "x < scr_width s" "0 \<le> y" "y < scr_height s"
      using assms by (auto simp: in_rect_def)
    have e: "?d + 4 * scr_width s * (y - rect_y ?k) + 4 * (x - rect_x ?k) = 4 * (y * scr_width s + x)"
      unfolding d by (simp add: algebra_simps)
    have "y * scr_width s + x < scr_width s * scr_height s" by (rule int_place_less [OF b])
    moreover have "0 \<le> y * scr_width s + x" using b by simp
    ultimately show ?thesis unfolding e by (simp add: pixel_at_def s(3) px_of_def)
  qed
  note rect_draw [OF k(1) s(2,4), of "\<lambda>src d. pixel_at (backbuffer s) src" ?d "4 * scr_width s" 4
      "\<lambda>x y. px_of s (backbuffer s) x y", OF op]
  then show ?thesis
    using False line stride unfolding raw_flush_def Let_def s(1)
    by (auto simp: k(2) on_screen_def px_of_def mult.commute)
qed

section \<open>Witnesses\<close>

text \<open>A screen of 4 by 3 pixels, and a glyph of 2 by 2.\<close>

definition raw1 :: raw_gui where
  "raw1 = raw_set_color 255 0 0 128 \<lparr>scr_width = 4, scr_height = 3, scr_stride = 16, color_a = 0, color_rb = 0,
     color_g = 0, clip = \<lparr>rect_x = 0, rect_y = 0, rect_w = 3, rect_h = 3\<rparr>,
     screen_px = replicate 12 0, backbuffer = replicate 12 0xff\<rparr>"

definition tex1 :: texture where
  "tex1 = \<lparr>tex_w = 2, tex_h = 2, tex_s = 2, tex_m = 1, tex_rb = 0x1000100, tex_g = 0x10000, tex_data = [0, 255, 128, 7]\<rparr>"

lemma raw1_ok: "raw_ok raw1" "tex_ok tex1"
  by (simp_all add: raw1_def raw_ok_def raw_set_color_def span_within_def tex1_def tex_ok_def blit_unit_def)

abbreviation rect4 :: "int \<Rightarrow> int \<Rightarrow> int \<Rightarrow> int \<Rightarrow> host_gui_rect" where
  "rect4 x y w h \<equiv> \<lparr>rect_x = x, rect_y = y, rect_w = w, rect_h = h\<rparr>"

theorem raw_filled_box_draws_witness:
  "\<exists>px. raw_filled_box (rect4 1 1 9 9) raw1 = Some (raw1\<lparr>backbuffer := px\<rparr>)
     \<and> px_of raw1 px 2 2 = fill_px raw1 0xff \<and> px_of raw1 px 3 2 = 0xff"
proof -
  have "color_a raw1 \<noteq> 0" by (simp add: raw1_def raw_set_color_def)
  moreover obtain px where px: "raw_filled_box (rect4 1 1 9 9) raw1 = Some (raw1\<lparr>backbuffer := px\<rparr>)"
    "\<And>x y. on_screen raw1 x y \<Longrightarrow> px_of raw1 px x y =
        (if color_a raw1 \<noteq> 0 \<and> in_rect (rect4 1 1 9 9) x y \<and> in_span (clip raw1) x y
         then fill_px raw1 (px_of raw1 (backbuffer raw1) x y) else px_of raw1 (backbuffer raw1) x y)"
    using raw_filled_box_draws [OF raw1_ok(1), of "rect4 1 1 9 9"] by (auto simp: rect_fits_def)
  ultimately show ?thesis
    using px(2) [of 2 2] px(2) [of 3 2]
    by (intro exI [of _ px])
       (simp add: on_screen_def in_rect_def in_span_def px_of_def raw1_def raw_set_color_def)
qed

theorem raw_box_draws_witness:
  "\<exists>px. raw_box (rect4 0 0 3 3) raw1 = Some (raw1\<lparr>backbuffer := px\<rparr>)
     \<and> px_of raw1 px 0 0 = fill_px raw1 0xff \<and> px_of raw1 px 1 1 = 0xff"
proof -
  have "color_a raw1 \<noteq> 0" by (simp add: raw1_def raw_set_color_def)
  moreover obtain px where px: "raw_box (rect4 0 0 3 3) raw1 = Some (raw1\<lparr>backbuffer := px\<rparr>)"
    "\<And>x y. on_screen raw1 x y \<Longrightarrow> px_of raw1 px x y =
        (if color_a raw1 \<noteq> 0 \<and> on_border (rect4 0 0 3 3) x y \<and> in_span (clip raw1) x y
         then fill_px raw1 (px_of raw1 (backbuffer raw1) x y) else px_of raw1 (backbuffer raw1) x y)"
    using raw_box_draws [OF raw1_ok(1), of "rect4 0 0 3 3"] by (auto simp: rect_fits_def)
  ultimately show ?thesis
    using px(2) [of 0 0] px(2) [of 1 1]
    by (intro exI [of _ px])
       (simp add: on_screen_def on_border_def in_rect_def in_span_def px_of_def raw1_def raw_set_color_def)
qed

theorem raw_blit_draws_witness:
  "\<exists>px. raw_blit tex1 (rect4 0 0 2 2) (rect4 (- 1) 1 2 2) raw1 = Some (raw1\<lparr>backbuffer := px\<rparr>)
     \<and> px_of raw1 px 0 1 = blit_op tex1 255 0xff \<and> px_of raw1 px 1 1 = 0xff"
proof -
  obtain px where px: "raw_blit tex1 (rect4 0 0 2 2) (rect4 (- 1) 1 2 2) raw1 = Some (raw1\<lparr>backbuffer := px\<rparr>)"
    "\<And>x y. on_screen raw1 x y \<Longrightarrow> px_of raw1 px x y =
        (if in_rect (rect4 (- 1) 1 2 2) x y \<and> in_span (clip raw1) x y
         then blit_op tex1 (tex_data tex1 ! nat ((y - 1) * tex_w tex1 + (x + 1)))
                (px_of raw1 (backbuffer raw1) x y)
         else px_of raw1 (backbuffer raw1) x y)"
    using raw_blit_draws [OF raw1_ok, of "rect4 (- 1) 1 2 2" "rect4 0 0 2 2"]
    by (auto simp: rect_fits_def tex1_def)
  have "tex_data tex1 ! 1 = 255" "tex_w tex1 = 2" by (simp_all add: tex1_def)
  then show ?thesis
    using px(1) px(2) [of 0 1] px(2) [of 1 1]
    by (intro exI [of _ px])
       (simp add: on_screen_def in_rect_def in_span_def px_of_def raw1_def raw_set_color_def)
qed



theorem raw_flush_copies_witness:
  "\<exists>px. raw_flush (rect4 1 0 2 2) raw1 = Some (raw1\<lparr>screen_px := px\<rparr>)
     \<and> px_of raw1 px 1 1 = 0xff \<and> px_of raw1 px 0 0 = 0"
proof -
  have w: "scr_width raw1 = 4" "scr_height raw1 = 3" by (simp_all add: raw1_def raw_set_color_def)
  obtain px where px: "raw_flush (rect4 1 0 2 2) raw1 = Some (raw1\<lparr>screen_px := px\<rparr>)"
    "\<And>x y. on_screen raw1 x y \<Longrightarrow> px_of raw1 px x y =
        (if in_rect (rect4 1 0 2 2) x y then px_of raw1 (backbuffer raw1) x y else px_of raw1 (screen_px raw1) x y)"
    using raw_flush_copies [OF raw1_ok(1), of "rect4 1 0 2 2"] by (auto simp: w)
  then show ?thesis
    using px(2) [of 1 1] px(2) [of 0 0]
    by (intro exI [of _ px]) (simp add: on_screen_def in_rect_def px_of_def w raw1_def raw_set_color_def)
qed

end
