(* ===== verification/Framebuffer.thy ===== *)
theory Framebuffer
  imports Raster
begin

text \<open>
  The driver for the Linux framebuffer, \<^verbatim>\<open>src/src/host/gui_fb.c\<close>: drawing into a back buffer with
  loops that count, the copy to the hardware in its own format, and the events it makes of the
  bytes of the keyboard and the reports of the mouse. What the system answers, the bytes that
  can be read, the description of the screen, is an argument of the operation that asks.
\<close>

section \<open>Drawables\<close>

text \<open>
  The pixels of a drawable, or the data of a texture, are an array of its elements, of 1, 2 or
  4 bytes each; one is kept here in a word that is wide enough for each.
\<close>

record drawable =
  d_pixtype :: int
  d_bpp :: int
  d_bytespp :: int
  d_width :: int
  d_height :: int
  d_pitch :: int
  d_size :: int
  d_color :: u32
  d_mode :: int
  d_pixels :: "u32 list"

definition PF_UNKNOWN :: int where "PF_UNKNOWN = 0"
definition PF_ARGB8888 :: int where "PF_ARGB8888 = 1"
definition PF_BGR888 :: int where "PF_BGR888 = - 3"
definition PF_RGB565 :: int where "PF_RGB565 = 4"
definition PF_RGB555 :: int where "PF_RGB555 = - 5"
definition PF_PALETTE :: int where "PF_PALETTE = - 6"

record gui_event =
  ev_type :: nat
  ev_x :: int
  ev_y :: int
  ev_buttons :: int
  ev_count :: int
  ev_scode :: int
  ev_direction :: int

definition no_event :: gui_event where
  "no_event = \<lparr>ev_type = 0, ev_x = 0, ev_y = 0, ev_buttons = 0, ev_count = 0, ev_scode = 0, ev_direction = 0\<rparr>"

record fb_gui =
  posx :: int
  posy :: int
  fb :: drawable
  bb :: drawable
  fb_clip :: host_gui_rect
  draw_color :: u32
  lastb :: u8
  pending :: gui_event
  keybd_open :: bool
  mouse_open :: bool
  frame_open :: bool

section \<open>The loops\<close>

text \<open>
  One line, \<open>do { ... dst++; src++ } while (--x > 0)\<close>: \<open>n\<close> steps, each on the element at the
  destination pointer, a byte offset; \<open>ssz\<close> and \<open>dsz\<close> are the sizes the pointers move by.
\<close>

definition elem_at :: "int \<Rightarrow> u32 list \<Rightarrow> int \<Rightarrow> u32 option" where
  "elem_at sz px p = (if 0 \<le> p \<and> p div sz < int (length px) then Some (px ! nat (p div sz)) else None)"

fun fb_row :: "(int \<Rightarrow> u32 \<Rightarrow> u32 option) \<Rightarrow> int \<Rightarrow> int \<Rightarrow> nat \<Rightarrow> int \<Rightarrow> int \<Rightarrow> u32 list \<Rightarrow> (int \<times> int \<times> u32 list) option" where
  "fb_row op ssz dsz 0 src dst px = Some (src, dst, px)"
| "fb_row op ssz dsz (Suc n) src dst px =
     (case elem_at dsz px dst of None \<Rightarrow> None
      | Some d \<Rightarrow> (case op src d of None \<Rightarrow> None
        | Some v \<Rightarrow> fb_row op ssz dsz n (src + ssz) (dst + dsz) (px[nat (dst div dsz) := v])))"

fun fb_rows :: "(int \<Rightarrow> u32 \<Rightarrow> u32 option) \<Rightarrow> int \<Rightarrow> int \<Rightarrow> nat \<Rightarrow> int \<Rightarrow> int \<Rightarrow> nat \<Rightarrow> int \<Rightarrow> int \<Rightarrow> u32 list \<Rightarrow> u32 list option" where
  "fb_rows op ssz dsz w sspan dspan 0 src dst px = Some px"
| "fb_rows op ssz dsz w sspan dspan (Suc h) src dst px =
     (case fb_row op ssz dsz w src dst px of None \<Rightarrow> None
      | Some (src, dst, px) \<Rightarrow> fb_rows op ssz dsz w sspan dspan h (src + sspan) (dst + dspan) px)"

text \<open>A loop that tests after its body is gone through at least once.\<close>

definition times :: "int \<Rightarrow> nat" where "times n = (if n < 1 then 1 else nat n)"

section \<open>Clipping and colours\<close>

text \<open>The rectangle cut to the clip rectangle, as x, y, w, h again.\<close>

definition get_clip_rect :: "host_gui_rect \<Rightarrow> host_gui_rect \<Rightarrow> host_gui_rect option" where
  "get_clip_rect c rect =
     (if rect_w rect \<le> 0 \<or> rect_h rect \<le> 0 then None
      else let r = rect\<lparr>rect_w := int32_wrap (rect_w rect + rect_x rect), rect_h := int32_wrap (rect_h rect + rect_y rect)\<rparr> in
        if rect_x r \<ge> rect_w c \<or> rect_y r \<ge> rect_h c then None
        else if rect_w r \<le> rect_x c \<or> rect_h r \<le> rect_y c then None
        else let r = (if rect_x c > rect_x r then r\<lparr>rect_x := rect_x c\<rparr> else r);
                 r = (if rect_y c > rect_y r then r\<lparr>rect_y := rect_y c\<rparr> else r);
                 r = (if rect_w r > rect_w c then r\<lparr>rect_w := rect_w c\<rparr> else r);
                 r = (if rect_h r > rect_h c then r\<lparr>rect_h := rect_h c\<rparr> else r) in
          Some (r\<lparr>rect_w := rect_w r - rect_x r, rect_h := rect_h r - rect_y r\<rparr>))"

definition fb_set_clip :: "host_gui_rect option \<Rightarrow> fb_gui \<Rightarrow> fb_gui" where
  "fb_set_clip rect s =
     (case rect of
        Some r \<Rightarrow>
          let x1 = int32_wrap (rect_w r + rect_x r); y1 = int32_wrap (rect_h r + rect_y r) in
          s\<lparr>fb_clip := \<lparr>rect_x = (if rect_x r < 0 then 0 else rect_x r),
                       rect_y = (if rect_y r < 0 then 0 else rect_y r),
                       rect_w = (if x1 \<ge> d_width (fb s) then d_width (fb s) - 1 else x1),
                       rect_h = (if y1 \<ge> d_height (fb s) then d_height (fb s) - 1 else y1)\<rparr>\<rparr>
      | None \<Rightarrow> s\<lparr>fb_clip := \<lparr>rect_x = 0, rect_y = 0, rect_w = d_width (fb s) - 1, rect_h = d_height (fb s) - 1\<rparr>\<rparr>)"

text \<open>A channel is kept in 8 bits again before it is moved to its place.\<close>

definition fb_premul :: "u8 \<Rightarrow> u8 \<Rightarrow> u8" where
  "fb_premul c a = ucast (drop_bit 8 ((ucast c + 1) * ucast a :: u32))"

definition fb_set_color :: "u8 \<Rightarrow> u8 \<Rightarrow> u8 \<Rightarrow> u8 \<Rightarrow> fb_gui \<Rightarrow> fb_gui" where
  "fb_set_color r g b a s =
     s\<lparr>draw_color := push_bit 24 (ucast a) + push_bit 16 (ucast (fb_premul r a)) + push_bit 8 (ucast (fb_premul g a))
         + ucast (fb_premul b a)\<rparr>"

definition fb_set_texture_color :: "u8 \<Rightarrow> u8 \<Rightarrow> u8 \<Rightarrow> drawable \<Rightarrow> drawable" where
  "fb_set_texture_color r g b t = t\<lparr>d_color := push_bit 16 (ucast r) OR push_bit 8 (ucast g) OR ucast b\<rparr>"

section \<open>Drawing\<close>

definition fb_fill_px :: "u32 \<Rightarrow> u32 \<Rightarrow> u32" where
  "fb_fill_px color d = (if drop_bit 24 color = 0xff then color
     else blend_px (0xff - drop_bit 24 color) (color AND 0xff00ff) (color AND 0xff00) d)"

definition fb_filled_box :: "host_gui_rect \<Rightarrow> fb_gui \<Rightarrow> fb_gui option" where
  "fb_filled_box rect s =
     (if drop_bit 24 (draw_color s) = 0 then Some s
      else case get_clip_rect (fb_clip s) rect of None \<Rightarrow> Some s
        | Some r \<Rightarrow>
          let dst = rect_y r * d_pitch (bb s) + rect_x r * d_bytespp (bb s);
              gap = d_pitch (bb s) div 4 - rect_w r in
          map_option (\<lambda>px. s\<lparr>bb := (bb s)\<lparr>d_pixels := px\<rparr>\<rparr>)
            (fb_rows (\<lambda>_ d. Some (fb_fill_px (draw_color s) d)) 0 4 (times (rect_w r)) 0 (4 * gap) (times (rect_h r))
               0 dst (d_pixels (bb s))))"

definition fb_box :: "host_gui_rect \<Rightarrow> fb_gui \<Rightarrow> fb_gui option" where
  "fb_box rect s =
     (if rect_w rect \<le> 0 \<or> rect_h rect \<le> 0 then Some s
      else let r = rect\<lparr>rect_h := 1\<rparr> in
        case fb_filled_box r s of None \<Rightarrow> None | Some s \<Rightarrow>
        if rect_h rect \<le> 1 then Some s
        else let r = r\<lparr>rect_y := int32_wrap (rect_y rect + rect_h rect - 1)\<rparr> in
          case fb_filled_box r s of None \<Rightarrow> None | Some s \<Rightarrow>
          if rect_h rect \<le> 2 then Some s
          else let r = r\<lparr>rect_y := int32_wrap (rect_y rect + 1), rect_w := 1, rect_h := rect_h rect - 2\<rparr> in
            case fb_filled_box r s of None \<Rightarrow> None | Some s \<Rightarrow>
            if rect_w rect \<le> 1 then Some s
            else fb_filled_box (r\<lparr>rect_x := int32_wrap (rect_x rect + rect_w rect - 1)\<rparr>) s)"

text \<open>
  The blits: from \<open>srect\<close> of \<open>ts\<close> to \<open>drect\<close> of \<open>td\<close>, with no clipping. The first two copy, to a
  buffer of the same format and to one of 16 bits a pixel; the others blend by the mode.
\<close>

definition blit_srccopy :: "drawable \<Rightarrow> host_gui_rect \<Rightarrow> drawable \<Rightarrow> host_gui_rect \<Rightarrow> drawable option" where
  "blit_srccopy ts srect td drect =
     (let dst = rect_y drect * d_pitch td + rect_x drect * d_bytespp td;
          src = rect_y srect * d_pitch ts + rect_x srect * d_bytespp ts;
          line = rect_w drect * d_bytespp td in
      map_option (\<lambda>px. td\<lparr>d_pixels := px\<rparr>)
        (fb_rows (\<lambda>p d. elem_at 4 (d_pixels ts) p) 4 4 (times (rect_w drect)) (d_pitch ts - line) (d_pitch td - line)
           (times (rect_h drect)) src dst (d_pixels td)))"

definition rgb565 :: "u32 \<Rightarrow> u32" where
  "rgb565 s = push_bit 8 (drop_bit 16 s AND 0xf8) OR push_bit 3 (drop_bit 8 s AND 0xfc) OR drop_bit 3 (s AND 0xf8)"

definition blit_srccopy_rgb565 :: "drawable \<Rightarrow> host_gui_rect \<Rightarrow> drawable \<Rightarrow> host_gui_rect \<Rightarrow> drawable option" where
  "blit_srccopy_rgb565 ts srect td drect =
     (let dst = rect_y drect * d_pitch td + rect_x drect * d_bytespp td;
          src = rect_y srect * d_pitch ts + rect_x srect * d_bytespp ts;
          sspan = d_pitch ts - rect_w srect * d_bytespp ts;
          dspan = d_pitch td - rect_w drect * d_bytespp td in
      map_option (\<lambda>px. td\<lparr>d_pixels := px\<rparr>)
        (fb_rows (\<lambda>p d. map_option rgb565 (elem_at 4 (d_pixels ts) p)) 4 2 (times (rect_w drect)) sspan dspan
           (times (rect_h drect)) src dst (d_pixels td)))"

definition blit_blend :: "drawable \<Rightarrow> host_gui_rect \<Rightarrow> drawable \<Rightarrow> host_gui_rect \<Rightarrow> drawable option" where
  "blit_blend ts srect td drect =
     (let dst = rect_y drect * d_pitch td + rect_x drect * d_bytespp td;
          src = rect_y srect * d_pitch ts + rect_x srect * d_bytespp ts;
          line = rect_w drect * d_bytespp td in
      map_option (\<lambda>px. td\<lparr>d_pixels := px\<rparr>)
        (fb_rows (\<lambda>p d. map_option (\<lambda>sa. argb_px sa d) (elem_at 4 (d_pixels ts) p)) 4 4 (times (rect_w drect))
           (d_pitch ts - line) (d_pitch td - line) (times (rect_h drect)) src dst (d_pixels td)))"

definition fb_glyph_px :: "u32 \<Rightarrow> u32 \<Rightarrow> u32 \<Rightarrow> u32" where
  "fb_glyph_px color sa d =
     (if sa \<noteq> 0 then
        let srb = drop_bit 8 (sa * (color AND 0xff00ff)) AND 0xff00ff; sg = drop_bit 8 (sa * (color AND 0xff00)) AND 0xff00 in
        if sa \<noteq> 0xff then blend_px (0xff - sa) srb sg d else srb + sg
      else d)"

definition blit_colormod :: "drawable \<Rightarrow> host_gui_rect \<Rightarrow> drawable \<Rightarrow> host_gui_rect \<Rightarrow> drawable option" where
  "blit_colormod ts srect td drect =
     (let dst = rect_y drect * d_pitch td + rect_x drect * d_bytespp td;
          src = rect_y srect * d_pitch ts + rect_x srect * d_bytespp ts;
          dspan = d_pitch td - rect_w drect * d_bytespp td;
          sspan = d_pitch ts - rect_w drect in
      map_option (\<lambda>px. td\<lparr>d_pixels := px\<rparr>)
        (fb_rows (\<lambda>p d. map_option (\<lambda>sa. fb_glyph_px (d_color ts) sa d) (elem_at 1 (d_pixels ts) p)) 1 4
           (times (rect_w drect)) sspan dspan (times (rect_h drect)) src dst (d_pixels td)))"

definition fb_grey_px :: "u32 \<Rightarrow> u32 \<Rightarrow> u32 \<Rightarrow> u32" where
  "fb_grey_px color sca d =
     (let sa = drop_bit 8 sca AND 0xff in
      if sa \<noteq> 0 then
        let tc = sca AND 0xff; combined_a = drop_bit 8 (sa * (tc + 1));
            srb = drop_bit 8 (combined_a * (color AND 0xff00ff)) AND 0xff00ff;
            sg = drop_bit 8 (combined_a * (color AND 0xff00)) AND 0xff00 in
        if sa \<noteq> 0xff then blend_px (0xff - sa) srb sg d else srb + sg
      else d)"

definition blit_colorblend :: "drawable \<Rightarrow> host_gui_rect \<Rightarrow> drawable \<Rightarrow> host_gui_rect \<Rightarrow> drawable option" where
  "blit_colorblend ts srect td drect =
     (let dst = rect_y drect * d_pitch td + rect_x drect * d_bytespp td;
          src = rect_y srect * d_pitch ts + rect_x srect * 2;
          dspan = d_pitch td - rect_w drect * d_bytespp td;
          sspan = d_pitch ts - rect_w drect * 2 in
      map_option (\<lambda>px. td\<lparr>d_pixels := px\<rparr>)
        (fb_rows (\<lambda>p d. map_option (\<lambda>sca. fb_grey_px (d_color ts) sca d) (elem_at 2 (d_pixels ts) p)) 2 4
           (times (rect_w drect)) sspan dspan (times (rect_h drect)) src dst (d_pixels td)))"

text \<open>Source and destination of other sizes end the program, and are \<open>None\<close>.\<close>

definition fb_blit :: "drawable \<Rightarrow> host_gui_rect \<Rightarrow> host_gui_rect \<Rightarrow> fb_gui \<Rightarrow> fb_gui option" where
  "fb_blit t srect drect s =
     (if rect_w srect \<noteq> rect_w drect \<or> rect_h srect \<noteq> rect_h drect then None
      else case get_clip_rect (fb_clip s) drect of None \<Rightarrow> Some s
        | Some cr \<Rightarrow>
          let sr2 = (if rect_x (fb_clip s) > rect_x drect
                     then srect\<lparr>rect_x := int32_wrap (rect_x srect + (rect_x (fb_clip s) - rect_x drect))\<rparr> else srect);
              sr2 = (if rect_y (fb_clip s) > rect_y drect
                     then sr2\<lparr>rect_y := int32_wrap (rect_y srect + (rect_y (fb_clip s) - rect_y drect))\<rparr> else sr2) in
          map_option (\<lambda>b. s\<lparr>bb := b\<rparr>)
            (if d_mode t = 1 then blit_colormod t sr2 (bb s) cr
             else if d_mode t = 2 then blit_colorblend t sr2 (bb s) cr
             else blit_blend t sr2 (bb s) cr))"

definition fb_flush :: "host_gui_rect option \<Rightarrow> fb_gui \<Rightarrow> fb_gui option" where
  "fb_flush rect s =
     (let r = (case rect of Some r \<Rightarrow> r
               | None \<Rightarrow> \<lparr>rect_x = 0, rect_y = 0, rect_w = d_width (fb s), rect_h = d_height (fb s)\<rparr>) in
      map_option (\<lambda>f. s\<lparr>fb := f\<rparr>)
        (if d_pixtype (fb s) = PF_RGB565 then blit_srccopy_rgb565 (bb s) r (fb s) r
         else blit_srccopy (bb s) r (fb s) r))"

text \<open>The loops that read the picture are those of the other driver.\<close>

definition fb_create_texture :: "u32 list \<Rightarrow> u64 \<Rightarrow> u64 \<Rightarrow> u64 \<Rightarrow> u64 \<Rightarrow> fb_gui \<Rightarrow> drawable option" where
  "fb_create_texture src width height pitch mode s =
     (let sz = tex_unit mode; bytes = sint (ucast (height * width * word_of_int sz) :: u32) in
      map_option (\<lambda>out. \<lparr>d_pixtype = d_pixtype (bb s), d_bpp = d_bpp (bb s), d_bytespp = sz,
           d_width = sint (ucast width :: u32), d_height = sint (ucast height :: u32),
           d_pitch = sint (ucast (width * word_of_int sz) :: u32), d_size = bytes, d_color = 0xffffff,
           d_mode = sint (ucast mode :: u32), d_pixels = out\<rparr>)
        (grab_rect (tex_element mode) src (uint (ucast (width * 4) :: u32)) (unat (pitch - ucast (ucast (width * 4) :: u32)))
           (uint (height * pitch)) 0 []))"

section \<open>Reading back\<close>

definition fb_texture_px :: "drawable \<Rightarrow> nat \<Rightarrow> nat \<Rightarrow> u32 option" where
  "fb_texture_px t y x =
     (if d_mode t = 1 then
        map_option (\<lambda>a. push_bit 24 a OR push_bit 16 a OR push_bit 8 a OR a) (elem_at 1 (d_pixels t) (int y * d_pitch t + int x))
      else if d_mode t = 2 then
        map_option (\<lambda>p. let a = drop_bit 8 p; c = p AND 0xff in
            push_bit 24 a OR push_bit 16 c OR push_bit 8 c OR c) (elem_at 2 (d_pixels t) (int y * d_pitch t + 2 * int x))
      else elem_at 4 (d_pixels t) (int y * d_pitch t + 4 * int x))"

definition fb_read_texture :: "drawable option \<Rightarrow> u32 list \<Rightarrow> u64 \<Rightarrow> u64 \<Rightarrow> u64 \<Rightarrow> (u64 \<times> u32 list) option" where
  "fb_read_texture th data w h stride =
     (case th of None \<Rightarrow> Some (0, data)
      | Some t \<Rightarrow> if word_of_int (d_width t) \<noteq> w \<or> word_of_int (d_height t) \<noteq> h then Some (0, data)
          else map_option (\<lambda>px. (1, px))
            (put_rows (fb_texture_px t) (uint stride) [0..<unat w] [0..<unat h] data))"

definition fb_read_screen :: "u32 list \<Rightarrow> u64 \<Rightarrow> u64 \<Rightarrow> u64 \<Rightarrow> u64 \<Rightarrow> u64 \<Rightarrow> fb_gui \<Rightarrow> (u64 \<times> u32 list) option" where
  "fb_read_screen data x y w h stride s =
     (if d_pixels (bb s) = [] \<or> d_bpp (bb s) \<noteq> 32 \<or> sint x < 0 \<or> sint y < 0
         \<or> sint (x + w) > d_width (bb s) \<or> sint (y + h) > d_height (bb s)
      then Some (0, data)
      else map_option (\<lambda>px. (1, px))
        (put_rows (\<lambda>j i. map_option (\<lambda>p. p OR 0xff000000)
             (elem_at 4 (d_pixels (bb s)) ((sint y + int j) * d_pitch (bb s) + 4 * (sint x + int i))))
           (uint stride) [0..<unat w] [0..<unat h] data))"

section \<open>Keys and the mouse\<close>

definition scan_code_to_hid_table :: "u8 list" where
  "scan_code_to_hid_table =
    [0x00, 0x29, 0x1e, 0x1f, 0x20, 0x21, 0x22, 0x23,
     0x24, 0x25, 0x26, 0x27, 0x2d, 0x2e, 0x2a, 0x2b,
     0x14, 0x1a, 0x08, 0x15, 0x17, 0x1c, 0x18, 0x0c,
     0x12, 0x13, 0x2f, 0x30, 0x28, 0xe0, 0x04, 0x16,
     0x07, 0x09, 0x0a, 0x0b, 0x0d, 0x0e, 0x0f, 0x33,
     0x34, 0x35, 0xe1, 0x31, 0x1d, 0x1b, 0x06, 0x19,
     0x05, 0x11, 0x10, 0x36, 0x37, 0x38, 0xe5, 0x55,
     0xe2, 0x2c, 0x39, 0x3a, 0x3b, 0x3c, 0x3d, 0x3e,
     0x3f, 0x40, 0x41, 0x42, 0x43, 0x53, 0x47, 0x5f,
     0x60, 0x61, 0x56, 0x5c, 0x5d, 0x5e, 0x57, 0x59,
     0x5a, 0x5b, 0x62, 0x63, 0x00, 0x00, 0x00, 0x44,
     0x45, 0x67, 0x00, 0xe3, 0xe7, 0x68, 0x69, 0x6a,
     0x58, 0x00, 0x54, 0x00, 0x00, 0x00, 0x4a, 0x52,
     0x4b, 0x50, 0x4f, 0x4d, 0x51, 0x4e, 0x00, 0x4c,
     0x00, 0x00, 0x00, 0x00, 0x00, 0x00, 0x00, 0x00,
     0x00, 0x00, 0x00, 0x00, 0x00, 0x00, 0x00, 0x00]"

definition BUTTON_L :: u8 where "BUTTON_L = 1"
definition BUTTON_R :: u8 where "BUTTON_R = 2"
definition BUTTON_M :: u8 where "BUTTON_M = 0x10"
definition BUTTON_SCROLLUP :: u8 where "BUTTON_SCROLLUP = 0x20"
definition BUTTON_SCROLLDN :: u8 where "BUTTON_SCROLLDN = 0x40"

text \<open>
  A report of the mouse, the bytes that were read: how far it moved, the wheel and the buttons.
  A report of three bytes has no wheel, and what the code then gives for it is whatever was in
  the variable, \<open>junk\<close>.
\<close>

definition signed_char :: "u8 \<Rightarrow> int" where "signed_char b = sint b"

definition read_mouse :: "int \<Rightarrow> u8 list \<Rightarrow> (int \<times> int \<times> int \<times> u8) option" where
  "read_mouse junk data =
     (let n = length data in
      if n \<noteq> 3 \<and> n \<noteq> 4 then None
      else if data ! 0 AND 8 = 0 then None
      else let button = (if data ! 0 AND 1 \<noteq> 0 then BUTTON_L else 0)
               OR (if data ! 0 AND 4 \<noteq> 0 then BUTTON_M else 0) OR (if data ! 0 AND 2 \<noteq> 0 then BUTTON_R else 0);
             x = signed_char (data ! 1); y = - signed_char (data ! 2) in
        if n = 4 then
          let w = signed_char (data ! 3) in
          Some (x, y, w, button OR (if w > 0 then BUTTON_SCROLLUP else 0) OR (if w < 0 then BUTTON_SCROLLDN else 0))
        else Some (x, y, junk, button))"

text \<open>
  What \<open>poll\<close> finds: nothing, or something with the byte of the keyboard and the report of the
  mouse, if there is one to read.
\<close>

record fb_input =
  in_ready :: bool
  in_key :: "u8 option"
  in_mouse :: "u8 list option"
  in_junk :: int

definition ev_none :: nat where "ev_none = 0"
definition ev_key_down :: nat where "ev_key_down = 4"
definition ev_key_up :: nat where "ev_key_up = 5"
definition ev_mouse_motion :: nat where "ev_mouse_motion = 6"
definition ev_mouse_down :: nat where "ev_mouse_down = 7"
definition ev_mouse_up :: nat where "ev_mouse_up = 8"
definition ev_mouse_wheel :: nat where "ev_mouse_wheel = 9"

definition key_event :: "u8 \<Rightarrow> gui_event" where
  "key_event c = no_event\<lparr>ev_scode := uint (scan_code_to_hid_table ! unat (c AND 0x7f)),
     ev_type := (if c AND 0x80 \<noteq> 0 then ev_key_up else ev_key_down)\<rparr>"

definition button_event :: "bool \<Rightarrow> int \<Rightarrow> fb_gui \<Rightarrow> gui_event" where
  "button_event held button s = no_event\<lparr>ev_buttons := button, ev_type := (if held then ev_mouse_down else ev_mouse_up),
     ev_x := posx s, ev_y := posy s, ev_count := 1\<rparr>"

text \<open>The pointer moved by a report and held on the screen.\<close>

definition hold :: "int \<Rightarrow> int \<Rightarrow> int" where
  "hold p limit = (let p = (if p < 0 then 0 else p) in if p \<ge> limit then limit - 1 else p)"

definition mouse_event :: "int \<Rightarrow> int \<Rightarrow> int \<Rightarrow> u8 \<Rightarrow> fb_gui \<Rightarrow> gui_event \<times> fb_gui" where
  "mouse_event x y w b s =
     (if b AND (BUTTON_SCROLLUP OR BUTTON_SCROLLDN) \<noteq> 0 then
        (let ev = no_event\<lparr>ev_type := ev_mouse_wheel, ev_direction := 0\<rparr> in
         if b AND BUTTON_M \<noteq> 0 then ev\<lparr>ev_x := w * 4\<rparr> else ev\<lparr>ev_y := w * 4\<rparr>, s\<lparr>lastb := b\<rparr>)
      else if b \<noteq> lastb s then
        (if (b AND BUTTON_L) XOR (lastb s AND BUTTON_L) \<noteq> 0 then button_event (b AND BUTTON_L \<noteq> 0) 1 s
         else if (b AND BUTTON_R) XOR (lastb s AND BUTTON_R) \<noteq> 0 then button_event (b AND BUTTON_R \<noteq> 0) 3 s
         else no_event, s\<lparr>lastb := b\<rparr>)
      else if x \<noteq> 0 \<or> y \<noteq> 0 then
        (let px = hold (posx s + x) (d_width (fb s)); py = hold (posy s + y) (d_height (fb s)) in
         (no_event\<lparr>ev_type := ev_mouse_motion, ev_x := px, ev_y := py,
            ev_buttons := (if b AND BUTTON_L \<noteq> 0 then 1 else 0) + (if b AND BUTTON_R \<noteq> 0 then 4 else 0)\<rparr>,
          s\<lparr>posx := px, posy := py\<rparr>))
      else (no_event, s))"

definition get_event_timeout :: "fb_input \<Rightarrow> gui_event \<Rightarrow> fb_gui \<Rightarrow> gui_event \<times> fb_gui" where
  "get_event_timeout i ev s =
     (if \<not> in_ready i then (ev\<lparr>ev_type := ev_none\<rparr>, s)
      else case in_key i of
        Some c \<Rightarrow> (key_event c, s)
      | None \<Rightarrow> (case in_mouse i of
          None \<Rightarrow> (no_event, s)
        | Some data \<Rightarrow> (case read_mouse (in_junk i) data of
            None \<Rightarrow> (no_event, s)
          | Some (x, y, w, b) \<Rightarrow> mouse_event x y w b s)))"

text \<open>
  With no record to fill in, an event that is found is kept and only its type told; otherwise
  the one that was kept is given, or a new one. The caller's record goes in and comes out.
\<close>

definition fb_poll_event :: "fb_input \<Rightarrow> gui_event option \<Rightarrow> fb_gui \<Rightarrow> nat \<times> gui_event option \<times> fb_gui" where
  "fb_poll_event i event s =
     (case event of
        None \<Rightarrow>
          if ev_type (pending s) = 0
          then (case get_event_timeout i (pending s) s of (ev, s) \<Rightarrow> (ev_type ev, None, s\<lparr>pending := ev\<rparr>))
          else (ev_type (pending s), None, s)
      | Some ev \<Rightarrow>
          if ev_type (pending s) \<noteq> 0
          then (ev_type (pending s), Some (pending s), s\<lparr>pending := (pending s)\<lparr>ev_type := ev_none\<rparr>\<rparr>)
          else (case get_event_timeout i ev s of (ev, s) \<Rightarrow> (ev_type ev, Some ev, s)))"

section \<open>Opening and closing\<close>

text \<open>What the system says of the screen, and the memory it maps, if it does.\<close>

record fb_info =
  info_ok :: bool
  info_type :: nat
  info_visual :: nat
  info_xres :: u32
  info_yres :: u32
  info_bpp :: u32
  info_green :: u32
  info_line_length :: u32
  info_page :: int
  info_mem :: "u32 list option"

definition fb_pixel_format :: "fb_info \<Rightarrow> int \<times> int" where
  "fb_pixel_format f =
     (let bpp = sint (info_bpp f) in
      if info_type f = 0 \<and> (info_visual f = 2 \<or> info_visual f = 4) then
        if bpp = 8 then (PF_PALETTE, bpp)
        else if bpp = 16 then (if info_green f = 5 then (PF_RGB555, 15) else (PF_RGB565, bpp))
        else if bpp = 18 \<or> bpp = 24 then (PF_BGR888, bpp)
        else if bpp = 32 then (PF_ARGB8888, bpp)
        else (PF_UNKNOWN, bpp)
      else (PF_UNKNOWN, bpp))"

text \<open>\<open>None\<close> is the end of the program, with the console put back.\<close>

definition open_framebuffer :: "fb_info \<Rightarrow> fb_gui \<Rightarrow> fb_gui option" where
  "open_framebuffer f s =
     (if \<not> info_ok f then None
      else let format = fb_pixel_format f;
               width = sint (info_xres f); height = sint (info_yres f); pitch = sint (info_line_length f);
               extra = info_page f - 1 in
        if fst format \<le> PF_UNKNOWN then None
        else case info_mem f of None \<Rightarrow> None
          | Some m \<Rightarrow> Some (fb_set_clip None
              (s\<lparr>fb := \<lparr>d_pixtype = fst format, d_bpp = snd format, d_bytespp = sint (info_bpp f) div 8, d_width = width,
                   d_height = height, d_pitch = pitch, d_size = (int32_wrap (height * pitch) + extra) AND (NOT extra),
                   d_color = 0xffffff, d_mode = 0, d_pixels = map (\<lambda>_. 0) m\<rparr>, frame_open := True\<rparr>)))"

text \<open>
  \<open>keys\<close> and \<open>mouse\<close> say whether the devices could be opened. The result is what the function
  returns and the rectangle with the size of the screen filled in; the program may also end.
\<close>

definition fb_init :: "bool \<Rightarrow> bool \<Rightarrow> fb_info option \<Rightarrow> host_gui_rect \<Rightarrow> fb_gui \<Rightarrow> (int \<times> host_gui_rect \<times> fb_gui) option" where
  "fb_init keys mouse info r s =
     (if \<not> keys then Some (- 1, r, s\<lparr>keybd_open := False\<rparr>)
      else let s = s\<lparr>keybd_open := True\<rparr> in
        if \<not> mouse then Some (- 1, r, s\<lparr>mouse_open := False\<rparr>)
        else let s = s\<lparr>mouse_open := True\<rparr> in
          case info of None \<Rightarrow> Some (- 1, r, s\<lparr>frame_open := False\<rparr>)
          | Some f \<Rightarrow> (case open_framebuffer f s of None \<Rightarrow> None
            | Some s \<Rightarrow>
              let width = d_width (fb s); height = d_height (fb s) in
              Some (0, r\<lparr>rect_w := width, rect_h := height\<rparr>,
                s\<lparr>posx := width sdiv 2, posy := height sdiv 2,
                  bb := \<lparr>d_pixtype = PF_ARGB8888, d_bpp = 32, d_bytespp = 4, d_width = width, d_height = height,
                    d_pitch = int32_wrap (width * 4), d_size = int32_wrap (height * int32_wrap (width * 4)),
                    d_color = 0xffffff, d_mode = 0,
                    d_pixels = replicate (nat (int32_wrap (height * int32_wrap (width * 4)) div 4)) 0\<rparr>\<rparr>)))"

definition fb_deinit :: "fb_gui \<Rightarrow> fb_gui" where
  "fb_deinit s = s\<lparr>mouse_open := False, frame_open := False, keybd_open := False, bb := (bb s)\<lparr>d_pixels := []\<rparr>\<rparr>"

section \<open>The counted loops are the pointed ones\<close>

lemma elem_pixel: "0 < sz \<Longrightarrow> elem_at sz px (sz * int i) = pixel_at px (4 * int i)"
  by (simp add: elem_at_def pixel_at_def)

text \<open>The two drivers walk a line alike: one counts, the other compares pointers.\<close>

lemma fb_row_eq:
  assumes "0 < dsz"
  shows "0 < n \<Longrightarrow> (case fb_row op ssz dsz n src (dsz * int i) px of
      None \<Rightarrow> row_loop op ssz src (4 * int i) (4 * int (i + n)) px = None
    | Some (s, d, p) \<Rightarrow> d = dsz * int (i + n)
        \<and> row_loop op ssz src (4 * int i) (4 * int (i + n)) px = Some (s, 4 * int (i + n), p))"
proof (induction n arbitrary: i src px)
  case (Suc n)
  have e: "elem_at dsz px (dsz * int i) = pixel_at px (4 * int i)" "dsz * int i div dsz = int i"
    "4 * int i div 4 = int i" "dsz * int i + dsz = dsz * int (Suc i)" "4 * int i + 4 = 4 * int (Suc i)"
    using assms by (simp_all add: elem_pixel algebra_simps)
  show ?case
  proof (cases "pixel_at px (4 * int i)")
    case None
    then show ?thesis unfolding fb_row.simps by (subst row_loop.simps) (simp add: e(1))
  next
    case d: (Some d)
    show ?thesis
    proof (cases "op src d")
      case None
      then show ?thesis unfolding fb_row.simps using d by (subst row_loop.simps) (simp add: e(1))
    next
      case v: (Some v)
      show ?thesis
      proof (cases "n = 0")
        case True
        then show ?thesis
          unfolding fb_row.simps using d v by (subst row_loop.simps) (simp add: e Let_def)
      next
        case False
        have s: "i + Suc n = Suc i + n" "4 * int (Suc i) \<noteq> 4 * int (Suc i + n)" using False by simp_all
        show ?thesis
          unfolding fb_row.simps s(1) using Suc.IH [of "src + ssz" "Suc i" "px[i := v]"] False d v s(2)
          by (subst (1 2) row_loop.simps) (simp only: e option.case Let_def if_False nat_int)
      qed
    qed
  qed
qed simp

lemma fb_rows_eq:
  assumes "0 < n" "0 < m" "0 < dsz" "n \<le> w"
  shows "fb_rows op ssz dsz n sspan (dsz * int (w - n)) m src (dsz * int i) px
    = rect_loop op ssz (4 * int n) sspan (4 * (w - n)) (4 * int (i + w * m)) src (4 * int i) px"
  using assms
proof (induction m arbitrary: i src px)
  case (Suc m)
  have dst: "4 * int i + 4 * int n = 4 * int (i + n)"
    "4 * int (i + n) + int (4 * (w - n)) = 4 * int (i + w)"
    "dsz * int (i + n) + dsz * int (w - n) = dsz * int (i + w)"
    using Suc.prems(4) by (simp_all add: of_nat_diff algebra_simps)
  note row = fb_row_eq [OF assms(3,1), of op ssz src i px]
  show ?case
  proof (cases "fb_row op ssz dsz n src (dsz * int i) px")
    case None
    then have "row_loop op ssz src (4 * int i) (4 * int i + 4 * int n) px = None"
      using row unfolding dst(1) by (simp only: option.case)
    then show ?thesis
      unfolding fb_rows.simps None by (subst rect_loop.simps) (simp only: option.case)
  next
    case (Some r)
    then obtain s' p' where r: "fb_row op ssz dsz n src (dsz * int i) px = Some (s', dsz * int (i + n), p')"
      "row_loop op ssz src (4 * int i) (4 * int (i + n)) px = Some (s', 4 * int (i + n), p')"
      using row by (cases r) auto
    show ?thesis
    proof (cases "m = 0")
      case True
      then have "4 * int (i + w * Suc m) = 4 * int (i + w)" by simp
      then show ?thesis
        unfolding fb_rows.simps using r True
        by (subst rect_loop.simps) (simp only: dst(1,2) option.case prod.case fb_rows.simps if_True simp_thms)
    next
      case False
      have s: "i + w * Suc m = i + w + w * m" "4 * int (i + w) \<noteq> 4 * int (i + w + w * m)"
        using False Suc.prems(1,4) by simp_all
      show ?thesis
        unfolding fb_rows.simps s(1) using r False Suc.IH [of "s' + sspan" "i + w" p'] Suc.prems s(2)
        by (subst rect_loop.simps) (simp only: dst option.case prod.case if_False simp_thms)
    qed
  qed
qed simp

lemma fb_draw:
  assumes k: "span_within k w h" and px: "length px = nat (w * h)" and dsz: "0 < dsz"
    and op: "\<And>x y. in_span k x y \<Longrightarrow>
      op (src + pitch * (y - rect_y k) + ssz * (x - rect_x k)) (px ! nat (y * w + x)) = Some (g x y)"
  shows "\<exists>px'. fb_rows op ssz dsz (times (rect_w k - rect_x k)) (pitch - ssz * (rect_w k - rect_x k))
        (dsz * (w - (rect_w k - rect_x k))) (times (rect_h k - rect_y k)) src (dsz * (rect_y k * w + rect_x k)) px = Some px'
      \<and> length px' = length px
      \<and> (\<forall>x y. 0 \<le> x \<and> x < w \<and> 0 \<le> y \<and> y < h \<longrightarrow> px' ! nat (y * w + x) =
          (if in_span k x y then g x y else px ! nat (y * w + x)))"
proof -
  obtain x0 y0 x1 y1 w' h' :: nat where n: "rect_x k = int x0" "rect_y k = int y0" "rect_w k = int x1"
    "rect_h k = int y1" "w = int w'" "h = int h'"
    by (rule that [of "nat (rect_x k)" "nat (rect_y k)" "nat (rect_w k)" "nat (rect_h k)" "nat w" "nat h"])
      (use k in \<open>simp_all add: span_within_def\<close>)
  have le: "x0 < x1" "x1 \<le> w'" "y0 < y1" "y1 \<le> h'" using k n by (simp_all add: span_within_def)
  have at: "nat (int y * int w' + int x) = y * w' + x" for x y
    by (simp add: nat_int_add flip: of_nat_mult of_nat_add)
  have d: "rect_w k - rect_x k = int (x1 - x0)" "rect_h k - rect_y k = int (y1 - y0)"
    "rect_y k * w + rect_x k = int (y0 * w' + x0)" "times (int (x1 - x0)) = x1 - x0" "times (int (y1 - y0)) = y1 - y0"
    using n le by (simp_all add: of_nat_diff times_def)
  have gap: "w - int (x1 - x0) = int (w' - (x1 - x0))" using n(5) le(2) by (simp add: of_nat_diff)
  have "length px = w' * h'" using px by (simp add: n flip: of_nat_mult)
  then have "\<exists>px'. rect_loop op ssz (4 * int (x1 - x0)) (pitch - ssz * int (x1 - x0)) (4 * (w' - (x1 - x0)))
        (4 * int (y0 * w' + x0 + w' * (y1 - y0))) src (4 * int (y0 * w' + x0)) px = Some px'
      \<and> length px' = length px
      \<and> (\<forall>x < w'. \<forall>y < h'. px' ! (y * w' + x) =
          (if x0 \<le> x \<and> x < x1 \<and> y0 \<le> y \<and> y < y1 then g (int x) (int y) else px ! (y * w' + x)))"
  proof (rule rect_draw_nat [OF le])
    fix x y assume "x0 \<le> x" "x < x1" "y0 \<le> y" "y < y1"
    then show "op (src + pitch * (int y - int y0) + ssz * (int x - int x0)) (px ! (y * w' + x)) = Some (g (int x) (int y))"
      using op [of "int x" "int y"] n by (simp add: in_span_def at)
  qed
  then obtain px' where px': "rect_loop op ssz (4 * int (x1 - x0)) (pitch - ssz * int (x1 - x0)) (4 * (w' - (x1 - x0)))
        (4 * int (y0 * w' + x0 + w' * (y1 - y0))) src (4 * int (y0 * w' + x0)) px = Some px'"
      "length px' = length px"
      "\<forall>x < w'. \<forall>y < h'. px' ! (y * w' + x) =
          (if x0 \<le> x \<and> x < x1 \<and> y0 \<le> y \<and> y < y1 then g (int x) (int y) else px ! (y * w' + x))"
    by blast
  have "px' ! nat (y * w + x) = (if in_span k x y then g x y else px ! nat (y * w + x))"
    if "0 \<le> x" "x < w" "0 \<le> y" "y < h" for x y
  proof -
    obtain x' y' where xy: "x = int x'" "y = int y'"
      by (rule that [of "nat x" "nat y"]) (use \<open>0 \<le> x\<close> \<open>0 \<le> y\<close> in simp_all)
    then have "x' < w'" "y' < h'" using that n(5,6) by simp_all
    then have "px' ! (y' * w' + x') =
        (if x0 \<le> x' \<and> x' < x1 \<and> y0 \<le> y' \<and> y' < y1 then g (int x') (int y') else px ! (y' * w' + x'))"
      using px'(3) by blast
    then show ?thesis by (simp add: xy n at in_span_def)
  qed
  moreover have "fb_rows op ssz dsz (x1 - x0) (pitch - ssz * int (x1 - x0)) (dsz * int (w' - (x1 - x0))) (y1 - y0)
      src (dsz * int (y0 * w' + x0)) px = Some px'"
  proof -
    have "0 < x1 - x0" "0 < y1 - y0" "x1 - x0 \<le> w'" using le by simp_all
    from fb_rows_eq [OF this(1,2) dsz this(3)] show ?thesis by (simp only: px'(1))
  qed
  ultimately show ?thesis
    unfolding d(1-3) d(4,5) gap using px'(2) by blast
qed

section \<open>Boxes\<close>

lemma get_clip_rect_eq:
  "get_clip_rect c r = map_option (\<lambda>k. k\<lparr>rect_w := rect_w k - rect_x k, rect_h := rect_h k - rect_y k\<rparr>) (clip_rect c r)"
  by (simp add: get_clip_rect_def clip_rect_def Let_def)

definition fb_ok :: "fb_gui \<Rightarrow> bool" where
  "fb_ok s \<longleftrightarrow> d_bytespp (bb s) = 4 \<and> d_pitch (bb s) = 4 * d_width (bb s)
     \<and> length (d_pixels (bb s)) = nat (d_width (bb s) * d_height (bb s))
     \<and> span_within (fb_clip s) (d_width (bb s)) (d_height (bb s))"

definition bb_px :: "fb_gui \<Rightarrow> u32 list \<Rightarrow> int \<Rightarrow> int \<Rightarrow> u32" where
  "bb_px s px x y = px ! nat (y * d_width (bb s) + x)"

definition on_bb :: "fb_gui \<Rightarrow> int \<Rightarrow> int \<Rightarrow> bool" where
  "on_bb s x y \<longleftrightarrow> 0 \<le> x \<and> x < d_width (bb s) \<and> 0 \<le> y \<and> y < d_height (bb s)"

lemma fb_filled_box_draws:
  assumes "fb_ok s" "rect_fits r"
  shows "\<exists>px. fb_filled_box r s = Some (s\<lparr>bb := (bb s)\<lparr>d_pixels := px\<rparr>\<rparr>) \<and> length px = length (d_pixels (bb s))
    \<and> (\<forall>x y. on_bb s x y \<longrightarrow> bb_px s px x y =
        (if drop_bit 24 (draw_color s) \<noteq> 0 \<and> in_rect r x y \<and> in_span (fb_clip s) x y
         then fb_fill_px (draw_color s) (bb_px s (d_pixels (bb s)) x y) else bb_px s (d_pixels (bb s)) x y))"
proof (cases "drop_bit 24 (draw_color s) = 0 \<or> clip_rect (fb_clip s) r = None")
  case True
  then show ?thesis
    using clip_rect_None [OF assms(2), of "fb_clip s"]
    by (intro exI [of _ "d_pixels (bb s)"]) (auto simp: fb_filled_box_def get_clip_rect_eq)
next
  case False
  then obtain k where k: "clip_rect (fb_clip s) r = Some k" and a: "drop_bit 24 (draw_color s) \<noteq> 0" by auto
  note in_k = clip_rect_Some [OF assms(2) k]
  have s: "d_bytespp (bb s) = 4" "d_pitch (bb s) = 4 * d_width (bb s)"
    "length (d_pixels (bb s)) = nat (d_width (bb s) * d_height (bb s))"
    "span_within (fb_clip s) (d_width (bb s)) (d_height (bb s))"
    using assms(1) by (simp_all add: fb_ok_def)
  have w: "span_within k (d_width (bb s)) (d_height (bb s))"
    using s(4) clip_rect_nonempty [OF assms(2) k] unfolding span_within_def by linarith
  have dst: "rect_y k * (4 * d_width (bb s)) + rect_x k * 4 = 4 * (rect_y k * d_width (bb s) + rect_x k)"
    by simp
  note fb_draw [OF w s(3), of 4 "\<lambda>_ d. Some (fb_fill_px (draw_color s) d)" 0 0 0
      "\<lambda>x y. fb_fill_px (draw_color s) (d_pixels (bb s) ! nat (y * d_width (bb s) + x))"]
  then show ?thesis
    using a unfolding fb_filled_box_def get_clip_rect_eq k Let_def s(1,2)
    by (auto simp: dst in_k on_bb_def bb_px_def)
qed

text \<open>The outline, by the same interface as the other driver's.\<close>

definition fb_drawn :: "fb_gui \<Rightarrow> (int \<Rightarrow> int \<Rightarrow> bool) \<Rightarrow> fb_gui \<Rightarrow> bool" where
  "fb_drawn s B m \<longleftrightarrow> (\<exists>px. m = s\<lparr>bb := (bb s)\<lparr>d_pixels := px\<rparr>\<rparr> \<and> length px = length (d_pixels (bb s))
     \<and> (\<forall>x y. on_bb s x y \<longrightarrow> bb_px s px x y =
        (if drop_bit 24 (draw_color s) \<noteq> 0 \<and> B x y \<and> in_span (fb_clip s) x y
         then fb_fill_px (draw_color s) (bb_px s (d_pixels (bb s)) x y) else bb_px s (d_pixels (bb s)) x y)))"

lemma fb_ok_update [simp]:
  "length px = length (d_pixels (bb s)) \<Longrightarrow> fb_ok (s\<lparr>bb := (bb s)\<lparr>d_pixels := px\<rparr>\<rparr>) = fb_ok s"
  "on_bb (s\<lparr>bb := (bb s)\<lparr>d_pixels := px\<rparr>\<rparr>) = on_bb s" "bb_px (s\<lparr>bb := (bb s)\<lparr>d_pixels := px\<rparr>\<rparr>) = bb_px s"
  by (auto simp: fb_ok_def on_bb_def bb_px_def fun_eq_iff)

lemma fb_drawn_more:
  assumes "fb_ok s" "fb_drawn s B m" "rect_fits r" "\<And>x y. B x y \<Longrightarrow> \<not> in_rect r x y"
  shows "\<exists>m'. fb_filled_box r m = Some m' \<and> fb_drawn s (\<lambda>x y. B x y \<or> in_rect r x y) m'"
proof -
  obtain px where px: "m = s\<lparr>bb := (bb s)\<lparr>d_pixels := px\<rparr>\<rparr>" "length px = length (d_pixels (bb s))"
    "\<And>x y. on_bb s x y \<Longrightarrow> bb_px s px x y =
        (if drop_bit 24 (draw_color s) \<noteq> 0 \<and> B x y \<and> in_span (fb_clip s) x y
         then fb_fill_px (draw_color s) (bb_px s (d_pixels (bb s)) x y) else bb_px s (d_pixels (bb s)) x y)"
    using assms(2) unfolding fb_drawn_def by auto
  obtain px' where px': "fb_filled_box r m = Some (m\<lparr>bb := (bb m)\<lparr>d_pixels := px'\<rparr>\<rparr>)" "length px' = length px"
    "\<And>x y. on_bb s x y \<Longrightarrow> bb_px s px' x y =
        (if drop_bit 24 (draw_color s) \<noteq> 0 \<and> in_rect r x y \<and> in_span (fb_clip s) x y
         then fb_fill_px (draw_color s) (bb_px s px x y) else bb_px s px x y)"
    using fb_filled_box_draws [of m r] assms(1,3) px(1,2) by auto
  have "fb_drawn s (\<lambda>x y. B x y \<or> in_rect r x y) (m\<lparr>bb := (bb m)\<lparr>d_pixels := px'\<rparr>\<rparr>)"
    unfolding fb_drawn_def using px px' assms(4) by (intro exI [of _ px']) auto
  then show ?thesis using px'(1) by blast
qed

interpretation fbx: box_filler fb_filled_box fb_ok fb_drawn
proof unfold_locales
  show "fb_drawn s (\<lambda>x y. False) s" for s
    unfolding fb_drawn_def by (intro exI [of _ "d_pixels (bb s)"]) simp
qed (rule fb_drawn_more)

lemma fb_box_of: "fb_box = box_of fb_filled_box"
  by (intro ext) (simp add: fb_box_def box_of_def)

lemma fb_box_draws:
  assumes "fb_ok s" "rect_fits r" "0 < rect_w r" "0 < rect_h r"
  shows "\<exists>px. fb_box r s = Some (s\<lparr>bb := (bb s)\<lparr>d_pixels := px\<rparr>\<rparr>) \<and> length px = length (d_pixels (bb s))
    \<and> (\<forall>x y. on_bb s x y \<longrightarrow> bb_px s px x y =
        (if drop_bit 24 (draw_color s) \<noteq> 0 \<and> on_border r x y \<and> in_span (fb_clip s) x y
         then fb_fill_px (draw_color s) (bb_px s (d_pixels (bb s)) x y) else bb_px s (d_pixels (bb s)) x y))"
  using fbx.box_drawn [OF assms] by (auto simp: fb_box_of fb_drawn_def)

section \<open>The two drivers draw alike\<close>

lemma chan_argb:
  assumes "unat p = ((a * 256 + r) * 256 + g) * 256 + b" "r < 256" "g < 256" "b < 256" "a < 256"
  shows "chan 0 p = b" "chan 1 p = g" "chan 2 p = r" "chan 3 p = a"
proof -
  have "unat p div 256 = (a * 256 + r) * 256 + g" "unat p mod 256 = b"
    unfolding assms(1) using assms(4) by (rule pair_div)+
  moreover have "n div 256 ^ 2 = n div 256 div 256" "n div 256 ^ 3 = n div 256 div 256 div 256" for n :: nat
    by (simp_all add: div_mult2_eq [symmetric])
  ultimately show "chan 0 p = b" "chan 1 p = g" "chan 2 p = r" "chan 3 p = a"
    unfolding chan_nat using assms(2,3,5) pair_div [of g "a * 256 + r"] pair_div [of r a] by simp_all
qed

lemma fb_premul_nat: "unat (fb_premul c a) = premul (unat c) (unat a)"
  "unat (ucast (fb_premul c a) :: u32) = premul (unat c) (unat a)"
proof -
  show p: "unat (fb_premul c a) = premul (unat c) (unat a)"
    unfolding fb_premul_def unsigned_ucast_eq unsigned_take_bit_eq scaled_byte(2)
    using scaled_byte(4) [of c a] by (simp add: take_bit_nat_eq_self)
  show "unat (ucast (fb_premul c a) :: u32) = premul (unat c) (unat a)"
    by (simp only: unat_byte(1) p)
qed

lemma fb_color_nat:
  "unat (draw_color (fb_set_color r g b a s)) =
     ((unat a * 256 + premul (unat r) (unat a)) * 256 + premul (unat g) (unat a)) * 256 + premul (unat b) (unat a)"
proof -
  have p: "premul (unat c) (unat a) \<le> 255" for c :: u8 by (rule scaled_byte(4))
  have a: "unat a \<le> 255" by (rule unat_byte(3))
  have s: "unat (push_bit 24 (ucast a :: u32)) = unat a * 2 ^ 24"
    "unat (push_bit 16 (ucast (fb_premul r a) :: u32)) = premul (unat r) (unat a) * 2 ^ 16"
    "unat (push_bit 8 (ucast (fb_premul g a) :: u32)) = premul (unat g) (unat a) * 2 ^ 8"
    using unat_shift [of "ucast a :: u32" 24] unat_shift [of "ucast (fb_premul r a) :: u32" 16]
      unat_shift [of "ucast (fb_premul g a) :: u32" 8] a p [of r] p [of g]
    by (simp_all add: fb_premul_nat unat_byte(1))
  have "unat (push_bit 24 (ucast a :: u32) + push_bit 16 (ucast (fb_premul r a))) =
      unat a * 2 ^ 24 + premul (unat r) (unat a) * 2 ^ 16"
    using s a p [of r] by (subst unat_sum) simp_all
  then have "unat (push_bit 24 (ucast a :: u32) + push_bit 16 (ucast (fb_premul r a)) + push_bit 8 (ucast (fb_premul g a))) =
      unat a * 2 ^ 24 + premul (unat r) (unat a) * 2 ^ 16 + premul (unat g) (unat a) * 2 ^ 8"
    using s a p [of r] p [of g] by (subst unat_sum) simp_all
  moreover have "draw_color (fb_set_color r g b a s) =
      push_bit 24 (ucast a) + push_bit 16 (ucast (fb_premul r a)) + push_bit 8 (ucast (fb_premul g a)) + ucast (fb_premul b a)"
    by (simp add: fb_set_color_def)
  ultimately have "unat (draw_color (fb_set_color r g b a s)) =
      unat a * 2 ^ 24 + premul (unat r) (unat a) * 2 ^ 16 + premul (unat g) (unat a) * 2 ^ 8 + premul (unat b) (unat a)"
    using a p [of r] p [of g] p [of b] by (simp only:) (subst unat_sum; simp add: fb_premul_nat)
  then show ?thesis by simp
qed

lemma fb_color_chan:
  "chan 0 (draw_color (fb_set_color r g b a s)) = premul (unat b) (unat a)"
  "chan 1 (draw_color (fb_set_color r g b a s)) = premul (unat g) (unat a)"
  "chan 2 (draw_color (fb_set_color r g b a s)) = premul (unat r) (unat a)"
  "chan 3 (draw_color (fb_set_color r g b a s)) = unat a"
proof -
  have p: "premul (unat c) (unat a) < 256" for c :: u8 using scaled_byte(4) [of c a] by simp
  have "unat a < 256" using unat_byte(3) [of a] by simp
  note chan_argb [OF fb_color_nat p p p this]
  then show "chan 0 (draw_color (fb_set_color r g b a s)) = premul (unat b) (unat a)"
    "chan 1 (draw_color (fb_set_color r g b a s)) = premul (unat g) (unat a)"
    "chan 2 (draw_color (fb_set_color r g b a s)) = premul (unat r) (unat a)"
    "chan 3 (draw_color (fb_set_color r g b a s)) = unat a" by simp_all
qed

text \<open>The colours of two pixels, whatever their alpha.\<close>

definition same_rgb :: "u32 \<Rightarrow> u32 \<Rightarrow> bool" where
  "same_rgb p q \<longleftrightarrow> chan 0 p = chan 0 q \<and> chan 1 p = chan 1 q \<and> chan 2 p = chan 2 q"

lemma alpha_nat: "unat (drop_bit 24 p :: u32) = chan 3 p"
  by (simp only: chan3 unat_drop_bit_eq) (simp add: drop_bit_eq_div)

lemma fb_fill_px_rgb:
  "same_rgb (fb_fill_px (draw_color (fb_set_color r g b a s)) d) (fill_px (raw_set_color r g b a t) d)"
proof -
  let ?c = "draw_color (fb_set_color r g b a s)"
  note c = fb_color_chan [of r g b a s] and l = unat_byte(3) [of r] unat_byte(3) [of g] unat_byte(3) [of b] unat_byte(3) [of a]
  have o: "unat (fill_px (raw_set_color r g b a t) d) = over (unat r) (unat g) (unat b) (unat a) d" by (rule fill_px_over)
  have le: "x * (255 - unat a) div 256 + premul (unat y) (unat a) < 256" if "x \<le> 255" for x and y :: u8
    using shade_le [OF that, of "255 - unat a"] premul_le [OF unat_byte(3) [of y], of "unat a"] l(4) by linarith
  note oc = chan_rgb [OF o [unfolded over_def] le [OF chan_le] le [OF chan_le] le [OF chan_le]]
  show ?thesis
  proof (cases "drop_bit 24 ?c = 0xff")
    case True
    then have "unat (drop_bit 24 ?c) = 255" by simp
    then have "unat a = 255" unfolding alpha_nat c(4) .
    then show ?thesis unfolding same_rgb_def oc using True c by (simp add: fb_fill_px_def)
  next
    case False
    have rb: "unat (?c AND 0xff00ff) = rgb (premul (unat r) (unat a)) 0 (premul (unat b) (unat a))"
      "unat (?c AND 0xff00) = rgb 0 (premul (unat g) (unat a)) 0"
      unfolding unat_rb unat_g c by (simp_all add: rgb_def)
    have da: "unat (0xff - drop_bit 24 ?c) = 255 - unat a"
      using unat_from_255 [of "drop_bit 24 ?c"] l(4) unfolding alpha_nat c(4) by simp
    have "unat (fb_fill_px ?c d) = over (unat r) (unat g) (unat b) (unat a) d"
      using False blend_over [OF da l(4,1-3) rb] by (simp add: fb_fill_px_def)
    then have "unat (fb_fill_px ?c d) = unat (fill_px (raw_set_color r g b a t) d)" by (simp add: o)
    then show ?thesis unfolding same_rgb_def chan_nat by simp
  qed
qed

text \<open>C11: A box of any colour drawn by the framebuffer driver and by the other driver on the same
  picture, with the same clip rectangle, shows the same colours everywhere.\<close>

theorem drivers_fill_alike:
  assumes "raw_ok t" "fb_ok s" "rect_fits rect"
    and "d_width (bb s) = scr_width t" "d_height (bb s) = scr_height t" "d_pixels (bb s) = backbuffer t" "fb_clip s = clip t"
  shows "\<exists>s' t'. fb_filled_box rect (fb_set_color r g b a s) = Some s'
    \<and> raw_filled_box rect (raw_set_color r g b a t) = Some t'
    \<and> (\<forall>x y. on_screen t x y \<longrightarrow> same_rgb (bb_px s (d_pixels (bb s')) x y) (px_of t (backbuffer t') x y))"
proof -
  let ?s = "fb_set_color r g b a s" and ?t = "raw_set_color r g b a t"
  have ok: "fb_ok ?s" "raw_ok ?t"
    using assms(1,2) by (simp_all add: fb_ok_def fb_set_color_def raw_ok_def raw_set_color_def)
  obtain p where p: "fb_filled_box rect ?s = Some (?s\<lparr>bb := (bb ?s)\<lparr>d_pixels := p\<rparr>\<rparr>)"
    "\<And>x y. on_bb ?s x y \<Longrightarrow> bb_px ?s p x y =
        (if drop_bit 24 (draw_color ?s) \<noteq> 0 \<and> in_rect rect x y \<and> in_span (fb_clip ?s) x y
         then fb_fill_px (draw_color ?s) (bb_px ?s (d_pixels (bb ?s)) x y) else bb_px ?s (d_pixels (bb ?s)) x y)"
    using fb_filled_box_draws [OF ok(1) assms(3)] by blast
  obtain q where q: "raw_filled_box rect ?t = Some (?t\<lparr>backbuffer := q\<rparr>)"
    "\<And>x y. on_screen ?t x y \<Longrightarrow> px_of ?t q x y =
        (if color_a ?t \<noteq> 0 \<and> in_rect rect x y \<and> in_span (clip ?t) x y
         then fill_px ?t (px_of ?t (backbuffer ?t) x y) else px_of ?t (backbuffer ?t) x y)"
    using filled_box_draws [OF ok(2) assms(3)] by blast
  have keep: "on_screen ?t = on_screen t" "px_of ?t = px_of t" "clip ?t = clip t" "backbuffer ?t = backbuffer t"
    "on_bb ?s = on_screen t" "bb_px ?s = px_of t" "bb_px s = px_of t" "fb_clip ?s = clip t" "d_pixels (bb ?s) = backbuffer t"
    using assms(4-7) by (simp_all add: fun_eq_iff on_screen_def px_of_def raw_set_color_def fb_set_color_def on_bb_def bb_px_def)
  have "unat (drop_bit 24 (draw_color ?s)) = unat a" "unat (color_a ?t) = unat a"
    by (simp_all only: alpha_nat fb_color_chan(4) color_parts(3))
  then have zero: "drop_bit 24 (draw_color ?s) = 0 \<longleftrightarrow> color_a ?t = 0"
    by (metis unsigned_0 word_unat_eq_iff)
  show ?thesis
  proof (intro exI conjI allI impI)
    show "fb_filled_box rect ?s = Some (?s\<lparr>bb := (bb ?s)\<lparr>d_pixels := p\<rparr>\<rparr>)" by (rule p(1))
    show "raw_filled_box rect ?t = Some (?t\<lparr>backbuffer := q\<rparr>)" by (rule q(1))
    fix x y assume "on_screen t x y"
    then show "same_rgb (bb_px s (d_pixels (bb (?s\<lparr>bb := (bb ?s)\<lparr>d_pixels := p\<rparr>\<rparr>))) x y)
        (px_of t (backbuffer (?t\<lparr>backbuffer := q\<rparr>)) x y)"
      using p(2) [of x y] q(2) [of x y] fb_fill_px_rgb [of r g b a s "px_of t (backbuffer t) x y" t]
      by (simp add: keep zero) (simp add: same_rgb_def)
  qed
qed

definition bb1 :: drawable where
  "bb1 = \<lparr>d_pixtype = PF_ARGB8888, d_bpp = 32, d_bytespp = 4, d_width = 4, d_height = 3, d_pitch = 16, d_size = 48,
     d_color = 0, d_mode = 0, d_pixels = backbuffer raw1\<rparr>"

definition fb2 :: fb_gui where
  "fb2 = \<lparr>posx = 0, posy = 0, fb = bb1, bb = bb1, fb_clip = clip raw1, draw_color = 0, lastb = 0, pending = no_event,
     keybd_open = True, mouse_open = True, frame_open = True\<rparr>"

theorem drivers_fill_alike_witness:
  "\<exists>s' t'. fb_filled_box (rect4 1 1 9 9) (fb_set_color 200 100 0 128 fb2) = Some s'
    \<and> raw_filled_box (rect4 1 1 9 9) (raw_set_color 200 100 0 128 raw1) = Some t'
    \<and> same_rgb (bb_px fb2 (d_pixels (bb s')) 2 2) (px_of raw1 (backbuffer t') 2 2)"
proof -
  have "fb_ok fb2" "d_width (bb fb2) = scr_width raw1" "d_height (bb fb2) = scr_height raw1"
    "d_pixels (bb fb2) = backbuffer raw1" "fb_clip fb2 = clip raw1" "on_screen raw1 2 2"
    by (simp_all add: fb_ok_def fb2_def bb1_def raw1_def raw_set_color_def span_within_def on_screen_def)
  then show ?thesis
    using drivers_fill_alike [OF raw1_ok(1), of fb2 "rect4 1 1 9 9" 200 100 0 128] by (auto simp: rect_fits_def)
qed

end
