(* ===== verification/Fb_Events.thy ===== *)
theory Fb_Events
  imports Framebuffer
begin

text \<open>
  The framebuffer driver as it runs, \<^verbatim>\<open>src/src/host/gui_fb.c\<close>: from \<open>host_gui_init\<close> on, any of its
  operations in any order. What holds of every state it gets to: where the pointer and the clip
  rectangle are, the shape of the back buffer, and what an event that is given says.
\<close>

section \<open>A run of the driver\<close>

text \<open>\<open>ev_type (pending s) = 0\<close> is how the static record of the poll starts.\<close>

inductive fb_step :: "fb_gui \<Rightarrow> fb_gui \<Rightarrow> bool" where
  clip: "fb_step s (fb_set_clip c s)"
| color: "fb_step s (fb_set_color r g b a s)"
| filled: "fb_filled_box rect s = Some s' \<Longrightarrow> fb_step s s'"
| box: "fb_box rect s = Some s' \<Longrightarrow> fb_step s s'"
| blit: "fb_blit t srect drect s = Some s' \<Longrightarrow> fb_step s s'"
| flush: "fb_flush rect' s = Some s' \<Longrightarrow> fb_step s s'"
| poll: "fb_poll_event i event s = (t, event', s') \<Longrightarrow> fb_step s s'"

inductive fb_reaches :: "fb_gui \<Rightarrow> bool" where
  start: "fb_init True True (Some f) r s = Some (0, r', s') \<Longrightarrow> ev_type (pending s) = 0
    \<Longrightarrow> 0 < sint (info_xres f) \<Longrightarrow> 0 < sint (info_yres f) \<Longrightarrow> fb_reaches s'"
| step: "fb_reaches s \<Longrightarrow> fb_step s s' \<Longrightarrow> fb_reaches s'"

section \<open>What every state satisfies\<close>

definition pointer_on :: "fb_gui \<Rightarrow> bool" where
  "pointer_on s \<longleftrightarrow> 0 \<le> posx s \<and> posx s < d_width (fb s) \<and> 0 \<le> posy s \<and> posy s < d_height (fb s)"

text \<open>An event of the mouse that says where it was says a place on the screen.\<close>

definition event_on :: "fb_gui \<Rightarrow> gui_event \<Rightarrow> bool" where
  "event_on s ev \<longleftrightarrow> ev_type ev \<in> {ev_mouse_motion, ev_mouse_down, ev_mouse_up} \<longrightarrow>
     0 \<le> ev_x ev \<and> ev_x ev < d_width (fb s) \<and> 0 \<le> ev_y ev \<and> ev_y ev < d_height (fb s)"

definition clip_in :: "fb_gui \<Rightarrow> bool" where
  "clip_in s \<longleftrightarrow> 0 \<le> rect_x (fb_clip s) \<and> 0 \<le> rect_y (fb_clip s) \<and>
     rect_w (fb_clip s) \<le> d_width (fb s) - 1 \<and> rect_h (fb_clip s) \<le> d_height (fb s) - 1"

definition bb_shape :: "fb_gui \<Rightarrow> bool" where
  "bb_shape s \<longleftrightarrow> d_width (bb s) = d_width (fb s) \<and> d_height (bb s) = d_height (fb s) \<and> d_bytespp (bb s) = 4
     \<and> d_pitch (bb s) = int32_wrap (d_width (bb s) * 4)
     \<and> length (d_pixels (bb s)) = nat (int32_wrap (d_height (bb s) * int32_wrap (d_width (bb s) * 4)) div 4)"

definition fb_inv :: "fb_gui \<Rightarrow> bool" where
  "fb_inv s \<longleftrightarrow> pointer_on s \<and> event_on s (pending s) \<and> clip_in s \<and> bb_shape s"

lemmas fb_inv_defs = fb_inv_def pointer_on_def event_on_def clip_in_def bb_shape_def

text \<open>Two states that differ in nothing the invariant speaks of.\<close>

definition same_frame :: "fb_gui \<Rightarrow> fb_gui \<Rightarrow> bool" where
  "same_frame s s' \<longleftrightarrow> posx s' = posx s \<and> posy s' = posy s \<and> pending s' = pending s \<and> fb_clip s' = fb_clip s
     \<and> d_width (fb s') = d_width (fb s) \<and> d_height (fb s') = d_height (fb s)
     \<and> d_width (bb s') = d_width (bb s) \<and> d_height (bb s') = d_height (bb s) \<and> d_pitch (bb s') = d_pitch (bb s)
     \<and> d_bytespp (bb s') = d_bytespp (bb s) \<and> length (d_pixels (bb s')) = length (d_pixels (bb s))"

lemma same_frame_inv: "same_frame s s' \<Longrightarrow> fb_inv s \<Longrightarrow> fb_inv s'"
  by (simp add: same_frame_def fb_inv_defs)

lemma same_frame_trans: "same_frame s t \<Longrightarrow> same_frame t u \<Longrightarrow> same_frame s u"
  by (simp add: same_frame_def)

lemma same_frame_refl [simp]: "same_frame s s" by (simp add: same_frame_def)

text \<open>No loop changes how many pixels there are.\<close>

lemma fb_row_length: "fb_row op ssz dsz n src dst px = Some (a, b, px') \<Longrightarrow> length px' = length px"
  by (induction op ssz dsz n src dst px rule: fb_row.induct) (auto split: option.splits)

lemma fb_rows_length: "fb_rows op ssz dsz w sspan dspan h src dst px = Some px' \<Longrightarrow> length px' = length px"
  by (induction op ssz dsz w sspan dspan h src dst px rule: fb_rows.induct)
     (auto split: option.splits dest: fb_row_length)

lemma filled_frame: "fb_filled_box rect s = Some s' \<Longrightarrow> same_frame s s'"
  by (auto simp: fb_filled_box_def same_frame_def Let_def dest!: fb_rows_length split: if_splits option.splits)

lemma box_frame: "fb_box rect s = Some s' \<Longrightarrow> same_frame s s'"
  by (auto simp: fb_box_def Let_def dest!: filled_frame split: if_splits option.splits intro: same_frame_trans)

lemma blit_frame: "fb_blit t srect drect s = Some s' \<Longrightarrow> same_frame s s'"
  by (auto simp: fb_blit_def blit_colormod_def blit_colorblend_def blit_blend_def same_frame_def Let_def
      dest!: fb_rows_length split: if_splits option.splits)

lemma flush_frame: "fb_flush rect s = Some s' \<Longrightarrow> same_frame s s'"
  by (auto simp: fb_flush_def blit_srccopy_def blit_srccopy_rgb565_def same_frame_def Let_def
      split: if_splits option.splits)

lemma color_frame: "same_frame s (fb_set_color r g b a s)"
  by (simp add: same_frame_def fb_set_color_def)

lemma clip_inv: "fb_inv s \<Longrightarrow> fb_inv (fb_set_clip c s)"
  by (auto simp: fb_inv_defs fb_set_clip_def Let_def split: option.splits)

lemma hold_on: "0 < n \<Longrightarrow> 0 \<le> hold p n \<and> hold p n < n"
  by (auto simp: hold_def Let_def)

lemma update_inv:
  assumes "fb_inv s"
  shows "fb_inv (s\<lparr>lastb := b\<rparr>)"
    and "event_on s ev \<Longrightarrow> fb_inv (s\<lparr>pending := ev\<rparr>)"
    and "0 \<le> x \<Longrightarrow> x < d_width (fb s) \<Longrightarrow> 0 \<le> y \<Longrightarrow> y < d_height (fb s) \<Longrightarrow> fb_inv (s\<lparr>posx := x, posy := y\<rparr>)"
  using assms by (simp_all add: fb_inv_defs)

lemma event_on_same [simp]:
  "event_on (s\<lparr>lastb := b\<rparr>) ev = event_on s ev" "event_on (s\<lparr>pending := e\<rparr>) ev = event_on s ev"
  "event_on (s\<lparr>posx := x, posy := y\<rparr>) ev = event_on s ev"
  by (simp_all add: event_on_def)

lemma event_on_button: "fb_inv s \<Longrightarrow> event_on s (button_event held n s)"
  by (simp add: fb_inv_defs button_event_def no_event_def)

lemma event_on_other: "ev_type ev \<notin> {6, 7, 8} \<Longrightarrow> event_on s ev"
  by (simp add: event_on_def ev_mouse_motion_def ev_mouse_down_def ev_mouse_up_def)

text \<open>An event that is got, and the state after it.\<close>

lemma mouse_event_on:
  assumes "fb_inv s" "mouse_event x y w b s = (ev, s')"
  shows "fb_inv s' \<and> event_on s' ev \<and> pending s' = pending s"
proof -
  have "0 < d_width (fb s)" "0 < d_height (fb s)" using assms(1) by (auto simp: fb_inv_defs)
  note h = hold_on [OF this(1), of "posx s + x"] hold_on [OF this(2), of "posy s + y"]
  have other: "event_on s no_event" "event_on s (no_event\<lparr>ev_type := ev_mouse_wheel, ev_direction := 0, ev_x := n\<rparr>)"
    "event_on s (no_event\<lparr>ev_type := ev_mouse_wheel, ev_direction := 0, ev_y := n\<rparr>)" for n
    by (rule event_on_other, simp add: no_event_def ev_mouse_wheel_def)+
  have moved: "event_on s (no_event\<lparr>ev_type := ev_mouse_motion, ev_x := hold (posx s + x) (d_width (fb s)),
      ev_y := hold (posy s + y) (d_height (fb s)), ev_buttons := n\<rparr>)" for n
    using h by (simp add: event_on_def)
  note u = update_inv [OF assms(1)] and e = event_on_button [OF assms(1)]
  show ?thesis
    using assms other(1) unfolding mouse_event_def Let_def
    by (auto simp: u e other(2,3) moved h simp del: gui_event.simps split: if_splits)
qed

lemma get_event_on:
  assumes "fb_inv s" "get_event_timeout i ev s = (ev', s')"
  shows "fb_inv s' \<and> event_on s' ev' \<and> pending s' = pending s"
  using assms mouse_event_on [OF assms(1)]
  by (auto simp: get_event_timeout_def key_event_def event_on_def no_event_def ev_none_def ev_key_up_def ev_key_down_def
      ev_mouse_motion_def ev_mouse_down_def ev_mouse_up_def split: if_splits option.splits)

lemma poll_inv:
  assumes "fb_inv s" "fb_poll_event i event s = (t, event', s')"
  shows "fb_inv s' \<and> (\<forall>ev. event' = Some ev \<longrightarrow> ev_type ev = t \<and> event_on s' ev)"
proof (cases event)
  case None
  then show ?thesis
    using assms get_event_on [OF assms(1)]
    by (auto simp: fb_poll_event_def update_inv split: if_splits prod.splits)
next
  case (Some ev)
  have "event_on s (pending s)" using assms(1) by (simp add: fb_inv_def)
  moreover have "event_on s (pending s\<lparr>ev_type := ev_none\<rparr>)" by (simp add: event_on_other ev_none_def)
  ultimately show ?thesis
    using assms get_event_on [OF assms(1)] Some
    by (auto simp: fb_poll_event_def update_inv split: if_splits prod.splits)
qed

lemma init_inv:
  assumes "fb_init True True (Some f) r s = Some (0, r', s')" "ev_type (pending s) = 0"
    "0 < sint (info_xres f)" "0 < sint (info_yres f)"
  shows "fb_inv s'"
proof -
  have "n sdiv 2 < n \<and> 0 \<le> n sdiv 2" if "0 < n" for n :: int
    using that by (simp add: signed_divide_int_def)
  note half = this [OF assms(3)] this [OF assms(4)]
  obtain u where u: "open_framebuffer f (s\<lparr>keybd_open := True, mouse_open := True\<rparr>) = Some u"
    using assms(1) by (cases "open_framebuffer f (s\<lparr>keybd_open := True, mouse_open := True\<rparr>)") (simp_all add: fb_init_def)
  have screen: "d_width (fb u) = sint (info_xres f)" "d_height (fb u) = sint (info_yres f)" "pending u = pending s"
    "fb_clip u = \<lparr>rect_x = 0, rect_y = 0, rect_w = d_width (fb u) - 1, rect_h = d_height (fb u) - 1\<rparr>"
    using u by (auto simp: open_framebuffer_def fb_set_clip_def Let_def split: if_splits option.splits)
  have "event_on s' (pending s)" using assms(2) by (simp add: event_on_other)
  then show ?thesis
    using assms(1) half u unfolding fb_inv_def pointer_on_def clip_in_def bb_shape_def
    by (auto simp: fb_init_def Let_def screen)
qed

lemma step_inv: "fb_step s s' \<Longrightarrow> fb_inv s \<Longrightarrow> fb_inv s'"
proof (induction rule: fb_step.induct)
  case (poll i event s t event' s')
  then show ?case using poll_inv by blast
qed (blast intro: clip_inv same_frame_inv color_frame filled_frame box_frame blit_frame flush_frame)+

lemma reaches_inv: "fb_reaches s \<Longrightarrow> fb_inv s"
  by (induction rule: fb_reaches.induct) (auto intro: init_inv step_inv)

text \<open>C30: Whatever was done before, after a poll the pointer is on the screen, and a motion or a
  button that the poll tells of is at a place on the screen.\<close>

theorem pointer_stays_on_screen:
  assumes "fb_reaches s" "fb_poll_event i event s = (t, event', s')"
  shows "pointer_on s' \<and> (\<forall>ev. event' = Some ev \<longrightarrow> ev_type ev = t \<and> event_on s' ev)"
  using poll_inv [OF reaches_inv [OF assms(1)] assms(2)] by (simp add: fb_inv_def)

section \<open>The last column and the last line\<close>

lemma reaches_fb_ok:
  assumes "fb_reaches s" "4 * (d_width (fb s) * d_height (fb s)) < 2 ^ 31"
    "rect_x (fb_clip s) < rect_w (fb_clip s)" "rect_y (fb_clip s) < rect_h (fb_clip s)"
  shows "fb_ok s"
proof -
  have inv: "pointer_on s" "clip_in s" "bb_shape s"
    using reaches_inv [OF assms(1)] by (simp_all add: fb_inv_def)
  then have wh: "1 \<le> d_width (fb s)" "1 \<le> d_height (fb s)" by (simp_all add: pointer_on_def)
  then have "d_width (fb s) * 1 \<le> d_width (fb s) * d_height (fb s)" by (intro mult_left_mono) simp_all
  then have "d_width (fb s) * 4 < 2 ^ 31" using assms(2) by linarith
  then have "int32_wrap (d_width (fb s) * 4) = d_width (fb s) * 4" using wh(1) by (intro int32_wrap_id) simp_all
  moreover have "0 \<le> d_width (fb s) * d_height (fb s)" using wh by simp
  then have "int32_wrap (d_height (fb s) * (d_width (fb s) * 4)) = d_height (fb s) * (d_width (fb s) * 4)"
    using assms(2) by (intro int32_wrap_id) (simp_all add: mult.commute mult.left_commute)
  moreover have "d_height (fb s) * (d_width (fb s) * 4) div 4 = d_width (fb s) * d_height (fb s)"
    by (simp add: mult.commute mult.left_commute)
  ultimately show ?thesis
    using inv assms(3,4) by (simp add: fb_ok_def bb_shape_def clip_in_def span_within_def mult.commute)
qed

text \<open>The corner of a clip rectangle is kept as the first place outside it and is then held to
  the last place of the screen: no box, however large, draws the last column or the last line.\<close>

theorem last_line_never_drawn:
  assumes "fb_reaches s" "4 * (d_width (fb s) * d_height (fb s)) < 2 ^ 31"
    and "rect_x (fb_clip s) < rect_w (fb_clip s)" "rect_y (fb_clip s) < rect_h (fb_clip s)" "rect_fits rect"
  shows "\<exists>s'. fb_filled_box rect s = Some s' \<and> (\<forall>x y. on_bb s x y \<and> (x = d_width (bb s) - 1 \<or> y = d_height (bb s) - 1)
      \<longrightarrow> bb_px s (d_pixels (bb s')) x y = bb_px s (d_pixels (bb s)) x y)"
proof -
  have "clip_in s" "bb_shape s" using reaches_inv [OF assms(1)] by (simp_all add: fb_inv_def)
  then have "\<not> in_span (fb_clip s) x y" if "x = d_width (bb s) - 1 \<or> y = d_height (bb s) - 1" for x y
    using that by (auto simp: clip_in_def bb_shape_def in_span_def)
  then show ?thesis
    using fb_filled_box_draws [OF reaches_fb_ok [OF assms(1-4)] assms(5)] by fastforce
qed

section \<open>Events one after another\<close>

text \<open>To ask first whether there is an event, and then for it, whatever has come in since, gives the
  event that asking for it at once would have given, and leaves the same state.\<close>

theorem peeked_event_is_given:
  assumes "ev_type (pending s) = 0" "fb_poll_event i None s = (t, none, s1)" "t \<noteq> 0"
  shows "\<exists>given s2 s3. fb_poll_event j (Some ev) s1 = (t, Some given, s2) \<and> fb_poll_event i (Some ev) s = (t, Some given, s3)
    \<and> ev_type (pending s2) = 0 \<and> ev_type (pending s3) = 0 \<and> s2 = s3\<lparr>pending := pending s2\<rparr>"
proof -
  obtain e u where e: "get_event_timeout i (pending s) s = (e, u)" by fastforce
  have ready: "in_ready i" using assms e by (auto simp: fb_poll_event_def get_event_timeout_def ev_none_def split: if_splits)
  then have at_once: "get_event_timeout i ev s = (e, u)" using e by (simp add: get_event_timeout_def)
  have "pending u = pending s"
    using e by (auto simp: get_event_timeout_def mouse_event_def Let_def split: if_splits option.splits)
  then show ?thesis
    using assms e at_once by (auto simp: fb_poll_event_def ev_none_def)
qed

text \<open>The wheel's bits are kept among the buttons of the last report, so the next report, with
  the wheel at rest, differs from it in the buttons: however far the mouse moved, it moves
  nothing and tells of no motion.\<close>

theorem wheel_loses_motion:
  assumes "b AND (BUTTON_SCROLLUP OR BUTTON_SCROLLDN) \<noteq> 0" "b' AND (BUTTON_SCROLLUP OR BUTTON_SCROLLDN) = 0"
    and "mouse_event x y w b s = (e, s1)" "mouse_event x' y' w' b' s1 = (e', s2)"
  shows "posx s2 = posx s \<and> posy s2 = posy s \<and> ev_type e' \<noteq> ev_mouse_motion"
proof -
  have "b \<noteq> b'" using assms(1,2) by auto
  then show ?thesis
    using assms
    by (auto simp: mouse_event_def button_event_def no_event_def Let_def ev_mouse_motion_def ev_mouse_down_def ev_mouse_up_def
        split: if_splits)
qed

section \<open>A screen of three by three\<close>

definition blank :: drawable where
  "blank = \<lparr>d_pixtype = 0, d_bpp = 0, d_bytespp = 0, d_width = 0, d_height = 0, d_pitch = 0, d_size = 0, d_color = 0,
     d_mode = 0, d_pixels = []\<rparr>"

definition fb0 :: fb_gui where
  "fb0 = \<lparr>posx = 0, posy = 0, fb = blank, bb = blank, fb_clip = \<lparr>rect_x = 0, rect_y = 0, rect_w = 0, rect_h = 0\<rparr>,
     draw_color = 0xffffffff, lastb = 0, pending = no_event, keybd_open = False, mouse_open = False, frame_open = False\<rparr>"

definition info1 :: fb_info where
  "info1 = \<lparr>info_ok = True, info_type = 0, info_visual = 2, info_xres = 3, info_yres = 3, info_bpp = 32, info_green = 8,
     info_line_length = 12, info_page = 4096, info_mem = Some [1, 2, 3, 4, 5, 6, 7, 8, 9]\<rparr>"

definition fb1 :: fb_gui where
  "fb1 = (case fb_init True True (Some info1) (fb_clip fb0) fb0 of Some (_, _, s) \<Rightarrow> s)"

definition moved :: "u8 list \<Rightarrow> fb_input" where
  "moved d = \<lparr>in_ready = True, in_key = None, in_mouse = Some d, in_junk = 0\<rparr>"

lemma fb1_init: "fb_init True True (Some info1) (fb_clip fb0) fb0 = Some (0, \<lparr>rect_x = 0, rect_y = 0, rect_w = 3, rect_h = 3\<rparr>, fb1)"
  by code_simp

lemma fb1_reached: "fb_reaches fb1"
  by (rule fb_reaches.start [OF fb1_init]) code_simp+

theorem pointer_stays_on_screen_witness:
  "let (t, event', s') = fb_poll_event (moved [8, 100, 100, 0]) (Some no_event) fb1 in
     pointer_on s' \<and> t = ev_mouse_motion \<and> posx s' = 2 \<and> posy s' = 0"
proof -
  obtain s' e where r: "fb_poll_event (moved [8, 100, 100, 0]) (Some no_event) fb1 = (6, e, s')" "posx s' = 2" "posy s' = 0"
    by (rule that [of "fst (snd (fb_poll_event (moved [8, 100, 100, 0]) (Some no_event) fb1))"
          "snd (snd (fb_poll_event (moved [8, 100, 100, 0]) (Some no_event) fb1))"]) code_simp+
  then show ?thesis using pointer_stays_on_screen [OF fb1_reached r(1)] by (simp add: ev_mouse_motion_def)
qed

theorem last_line_never_drawn_witness:
  "\<exists>s'. fb_filled_box \<lparr>rect_x = 0, rect_y = 0, rect_w = 3, rect_h = 3\<rparr> fb1 = Some s' \<and> d_pixels (bb s') ! 2 = d_pixels (bb fb1) ! 2"
proof -
  have b: "4 * (d_width (fb fb1) * d_height (fb fb1)) < 2 ^ 31" "rect_x (fb_clip fb1) < rect_w (fb_clip fb1)"
    "rect_y (fb_clip fb1) < rect_h (fb_clip fb1)" "on_bb fb1 2 0" "2 = d_width (bb fb1) - 1"
    by code_simp+
  have "rect_fits \<lparr>rect_x = 0, rect_y = 0, rect_w = 3, rect_h = 3\<rparr>" by (simp add: rect_fits_def)
  from last_line_never_drawn [OF fb1_reached b(1-3) this] b(4,5) show ?thesis
    by (fastforce simp: bb_px_def)
qed

theorem peeked_event_is_given_witness:
  "\<exists>given s2. fb_poll_event (moved []) (Some no_event) (snd (snd (fb_poll_event (moved [9, 0, 0, 0]) None fb1)))
     = (ev_mouse_down, Some given, s2) \<and> ev_type (pending s2) = 0"
proof -
  obtain s1 e where r: "fb_poll_event (moved [9, 0, 0, 0]) None fb1 = (7, e, s1)"
    by (rule that [of "fst (snd (fb_poll_event (moved [9, 0, 0, 0]) None fb1))"
          "snd (snd (fb_poll_event (moved [9, 0, 0, 0]) None fb1))"]) code_simp
  moreover have "ev_type (pending fb1) = 0" by code_simp
  ultimately show ?thesis
    using peeked_event_is_given [of fb1 "moved [9, 0, 0, 0]" 7 e s1 "moved []" no_event]
    by (auto simp: ev_mouse_down_def)
qed

theorem wheel_loses_motion_witness:
  "posx (snd (mouse_event 1 1 0 0 (snd (mouse_event 0 0 1 BUTTON_SCROLLUP fb1)))) = posx fb1"
proof -
  obtain e s1 e' s2 where r: "mouse_event 0 0 1 BUTTON_SCROLLUP fb1 = (e, s1)" "mouse_event 1 1 0 0 s1 = (e', s2)"
    by fastforce
  have "BUTTON_SCROLLUP AND (BUTTON_SCROLLUP OR BUTTON_SCROLLDN) \<noteq> 0" "0 AND (BUTTON_SCROLLUP OR BUTTON_SCROLLDN) = 0"
    by code_simp+
  from wheel_loses_motion [OF this r] show ?thesis by (simp add: r)
qed

end
