(* ===== verification/Walk.thy ===== *)
theory Walk
  imports Prelude "HOL-Library.Multiset_Order"
begin

text \<open>
  \<^verbatim>\<open>walk_directory\<close> of \<^verbatim>\<open>src/src/host/pii_linux.cpp\<close> and what is removed with it. What the file
  system answers is a parameter: what is read of the directory at a path, and what the visitors
  give for a path. A path is opened, and a visitor called on it, no more than once in a walk, so
  answers that depend on the path are all the answers there can be.
\<close>

section \<open>The walk\<close>

definition FOLDER_PRE :: int where "FOLDER_PRE = 0"
definition FOLDER_POST :: int where "FOLDER_POST = 1"
definition MAX_DIR_DEPTH :: nat where "MAX_DIR_DEPTH = 64"

text \<open>What is done to the world, in order.\<close>

datatype call = Opened string | Closed string | File_visit string | Folder_visit string int

text \<open>\<open>opendir\<close> is \<open>None\<close> where it fails, or the names read and whether each is a directory.\<close>

record walk_env =
  opendir :: "string \<Rightarrow> (string \<times> bool) list option"
  filevisitor :: "string \<Rightarrow> int"
  foldervisitor :: "string \<Rightarrow> int \<Rightarrow> int"

record walk_state =
  ws_dir :: string
  ws_rest :: "(string \<times> bool) list"
  path_len :: nat

definition then_calls :: "call list \<Rightarrow> int \<times> call list \<Rightarrow> int \<times> call list" where
  "then_calls cs r = (fst r, cs @ snd r)"

lemma then_calls_simps [simp]:
  "fst (then_calls cs r) = fst r" "snd (then_calls cs r) = cs @ snd r"
  "then_calls cs (then_calls ds r) = then_calls (cs @ ds) r" "then_calls [] r = r"
  by (simp_all add: then_calls_def)

text \<open>\<open>while (stack_ptr > 0) closedir(walk_stack[--stack_ptr].dir)\<close>.\<close>

definition close_all :: "walk_state list \<Rightarrow> call list" where
  "close_all stack = map (\<lambda>s. Closed (ws_dir s)) stack"

text \<open>Each entry that is left counts for how deep it may still lead.\<close>

fun weight :: "walk_state list \<Rightarrow> nat multiset" where
  "weight [] = {#}"
| "weight (s # below) = replicate_mset (Suc (length (ws_rest s))) (MAX_DIR_DEPTH - length below) + weight below"

lemma weight_pop: "weight below < weight (s # below)"
  by (simp add: subset_imp_less_mset)

lemma weight_skip: "ws_rest s = e # es \<Longrightarrow> weight (s\<lparr>ws_rest := es\<rparr> # below) < weight (s # below)"
  by simp

lemma weight_push:
  assumes "ws_rest s = e # es" "length below + 1 < MAX_DIR_DEPTH"
  shows "weight (t # s\<lparr>ws_rest := es\<rparr> # below) < weight (s # below)"
proof -
  have "replicate_mset n (MAX_DIR_DEPTH - (length below + 1)) < {#MAX_DIR_DEPTH - length below#}" for n
    using assms(2) by (intro ex_gt_imp_less_multiset) auto
  then show ?thesis
    using assms by (simp add: add.commute)
qed

text \<open>
  The top of the stack is the head of the list. To put \<open>'/'\<close> at \<open>path_len\<close> and copy the name after
  it leaves the first \<open>path_len\<close> characters before a slash and the name.
\<close>

function walk_loop :: "walk_env \<Rightarrow> nat \<Rightarrow> string \<Rightarrow> walk_state list \<Rightarrow> int \<times> call list" where
  "walk_loop env max_len path [] = (0, [])"
| "walk_loop env max_len path (s # below) =
     (case ws_rest s of
        [] \<Rightarrow>
          (let path = take (path_len s) path;
               res = foldervisitor env path FOLDER_POST;
               cs = [Closed (ws_dir s), Folder_visit path FOLDER_POST] in
           if res \<noteq> 0 \<and> below \<noteq> [] then (- 1, cs @ close_all below)
           else then_calls cs (walk_loop env max_len path below))
      | (name, is_dir) # rest \<Rightarrow>
          (let s' = s\<lparr>ws_rest := rest\<rparr> in
           if name = ''.'' \<or> name = ''..'' then walk_loop env max_len path (s' # below)
           else if path_len s + 1 + length name \<ge> max_len then (- 1, [])
           else
             let path = take (path_len s) path @ ''/'' @ name in
             if is_dir then
               if length (s # below) \<ge> MAX_DIR_DEPTH then (- 1, close_all (s' # below))
               else (case opendir env path of
                   None \<Rightarrow> walk_loop env max_len path (s' # below)
                 | Some sub \<Rightarrow>
                     let cs = [Opened path, Folder_visit path FOLDER_PRE] in
                     if foldervisitor env path FOLDER_PRE \<noteq> 0 then (- 1, cs @ Closed path # close_all (s' # below))
                     else then_calls cs
                       (walk_loop env max_len path (\<lparr>ws_dir = path, ws_rest = sub, path_len = length path\<rparr> # s' # below)))
             else if filevisitor env path \<noteq> 0 then (- 1, File_visit path # close_all (s' # below))
             else then_calls [File_visit path] (walk_loop env max_len path (s' # below))))"
  by pat_completeness auto

termination
  by (relation "inv_image {(x, y). x < y} (\<lambda>(env, max_len, path, stack). weight stack)")
     (auto simp: wf weight_pop weight_skip weight_push simp del: weight.simps)

declare walk_loop.simps(2) [simp del]

definition walk_directory :: "walk_env \<Rightarrow> string \<Rightarrow> nat \<Rightarrow> int \<times> call list" where
  "walk_directory env path max_len =
     (case opendir env path of None \<Rightarrow> (- 1, [])
      | Some d \<Rightarrow>
          let cs = [Opened path, Folder_visit path FOLDER_PRE] in
          if foldervisitor env path FOLDER_PRE \<noteq> 0 then (- 1, cs @ [Closed path])
          else then_calls cs (walk_loop env max_len path [\<lparr>ws_dir = path, ws_rest = d, path_len = length path\<rparr>]))"

section \<open>What is removed\<close>

record remove_env =
  re_opendir :: "string \<Rightarrow> (string \<times> bool) list option"
  re_unlink :: "string \<Rightarrow> int"
  re_rmdir :: "string \<Rightarrow> int"
  re_mode :: "string \<Rightarrow> u32 option"

definition S_ISDIR :: "u32 \<Rightarrow> bool" where "S_ISDIR m \<longleftrightarrow> m AND 0xf000 = 0x4000"
definition S_ISREG :: "u32 \<Rightarrow> bool" where "S_ISREG m \<longleftrightarrow> m AND 0xf000 = 0x8000"

definition file_visit_remove :: "remove_env \<Rightarrow> string \<Rightarrow> int" where
  "file_visit_remove e fname = re_unlink e fname"

definition folder_visit_remove :: "remove_env \<Rightarrow> string \<Rightarrow> int \<Rightarrow> int" where
  "folder_visit_remove e fname state = (if state = FOLDER_PRE then 0 else re_rmdir e fname)"

definition remove_walk :: "remove_env \<Rightarrow> walk_env" where
  "remove_walk e = \<lparr>opendir = re_opendir e, filevisitor = file_visit_remove e, foldervisitor = folder_visit_remove e\<rparr>"

definition pii_path_buf_size :: nat where "pii_path_buf_size = 4096"

text \<open>The file visits are calls of \<open>unlink\<close>, the visits of a folder after what is in it of \<open>rmdir\<close>.\<close>

definition pii_remove :: "remove_env \<Rightarrow> string \<Rightarrow> int \<times> call list" where
  "pii_remove e fqname =
     (case re_mode e fqname of
        Some m \<Rightarrow>
          if S_ISDIR m then
            if length fqname \<ge> pii_path_buf_size then (- 1, [])
            else walk_directory (remove_walk e) fqname pii_path_buf_size
          else if S_ISREG m then (re_unlink e fqname, [File_visit fqname])
          else (- 1, [])
      | None \<Rightarrow> (- 1, []))"

section \<open>What a walk opens it closes\<close>

fun opened :: "call list \<Rightarrow> string multiset" where
  "opened [] = {#}"
| "opened (Opened p # cs) = add_mset p (opened cs)"
| "opened (_ # cs) = opened cs"

fun closed :: "call list \<Rightarrow> string multiset" where
  "closed [] = {#}"
| "closed (Closed p # cs) = add_mset p (closed cs)"
| "closed (_ # cs) = closed cs"

fun call_path :: "call \<Rightarrow> string" where
  "call_path (Opened p) = p"
| "call_path (Closed p) = p"
| "call_path (File_visit p) = p"
| "call_path (Folder_visit p _) = p"

lemma opened_append [simp]: "opened (cs @ ds) = opened cs + opened ds"
  by (induction cs rule: opened.induct) simp_all

lemma closed_append [simp]: "closed (cs @ ds) = closed cs + closed ds"
  by (induction cs rule: closed.induct) simp_all

definition dirs_of :: "walk_state list \<Rightarrow> string multiset" where
  "dirs_of stack = mset (map ws_dir stack)"

lemma dirs_of_simps [simp]:
  "dirs_of [] = {#}" "dirs_of (s # below) = add_mset (ws_dir s) (dirs_of below)"
  by (simp_all add: dirs_of_def)

lemma close_all_simps [simp]: "close_all [] = []" "close_all (s # below) = Closed (ws_dir s) # close_all below"
  by (simp_all add: close_all_def)

lemma opened_close_all [simp]: "opened (close_all stack) = {#}" "closed (close_all stack) = dirs_of stack"
  by (induction stack) simp_all

text \<open>
  On the stack each directory is in the one below it, its path is in the buffer up to \<open>path_len\<close>,
  and what is left to read of it is of what was there.
\<close>

fun stack_ok :: "walk_env \<Rightarrow> nat \<Rightarrow> string \<Rightarrow> walk_state list \<Rightarrow> bool" where
  "stack_ok env max_len path [] = True"
| "stack_ok env max_len path (s # below) \<longleftrightarrow>
     path_len s = length (ws_dir s) \<and> take (path_len s) path = ws_dir s \<and> length (ws_dir s) < max_len
     \<and> (\<exists>es. opendir env (ws_dir s) = Some es \<and> set (ws_rest s) \<subseteq> set es)
     \<and> stack_ok env max_len (ws_dir s) below"

text \<open>A directory with a name that makes its path too long for the buffer.\<close>

definition too_long :: "walk_env \<Rightarrow> nat \<Rightarrow> string \<Rightarrow> bool" where
  "too_long env max_len d \<longleftrightarrow> (\<exists>es name is_dir. opendir env d = Some es \<and> (name, is_dir) \<in> set es
     \<and> max_len \<le> length d + 1 + length name)"

text \<open>How a walk ends: with every directory closed, or with the answer -1 at a name that is too long.\<close>

definition walk_ends :: "walk_env \<Rightarrow> nat \<Rightarrow> string multiset \<Rightarrow> int \<times> call list \<Rightarrow> bool" where
  "walk_ends env max_len before r \<longleftrightarrow>
     (closed (snd r) = before + opened (snd r) \<or>
      fst r = - 1 \<and> closed (snd r) \<subset># before + opened (snd r)
        \<and> (\<exists>d. d \<in># before + opened (snd r) \<and> too_long env max_len d))
     \<and> (\<forall>c \<in> set (snd r). length (call_path c) < max_len)"

lemma walk_ends_then:
  assumes "walk_ends env max_len during r" "before + opened cs = during + closed cs"
    "\<forall>c \<in> set cs. length (call_path c) < max_len"
  shows "walk_ends env max_len before (then_calls cs r)"
proof -
  have all: "before + opened (cs @ snd r) = closed cs + (during + opened (snd r))"
    using assms(2) by (simp add: add.assoc [symmetric])
  have "d \<in># during + opened (snd r) \<Longrightarrow> d \<in># closed cs + (during + opened (snd r))" for d by auto
  moreover have "closed (cs @ snd r) = closed cs + closed (snd r)" by simp
  ultimately show ?thesis
    using assms(1,3) unfolding walk_ends_def then_calls_simps all by (auto simp: subset_mset.add_less_cancel_left)
qed

lemma walk_ends_done:
  "closed cs = before + opened cs \<Longrightarrow> \<forall>c \<in> set cs. length (call_path c) < max_len \<Longrightarrow> walk_ends env max_len before (n, cs)"
  by (simp add: walk_ends_def)

lemma stack_ok_close: "stack_ok env max_len path stack \<Longrightarrow> c \<in> set (close_all stack) \<Longrightarrow> length (call_path c) < max_len"
  by (induction env max_len path stack rule: stack_ok.induct) auto

text \<open>Induction on what is left to read.\<close>

lemma walk_induct:
  assumes "\<And>path stack. (\<And>path' stack'. weight stack' < weight stack \<Longrightarrow> P path' stack') \<Longrightarrow> P path stack"
  shows "P path stack"
proof -
  have "\<forall>path. P path stack"
    by (rule wf_induct [OF wf_inv_image [OF wf_less_multiset, of weight]]) (auto intro: assms)
  then show ?thesis by blast
qed

text \<open>The loop from the top of a stack that is in order, one case at a time.\<close>

lemma walk_cases:
  assumes "stack_ok env max_len path (s # below)"
  obtains
    (post) "ws_rest s = []" "foldervisitor env (ws_dir s) FOLDER_POST \<noteq> 0" "below \<noteq> []"
      "walk_loop env max_len path (s # below)
        = (- 1, [Closed (ws_dir s), Folder_visit (ws_dir s) FOLDER_POST] @ close_all below)"
  | (pop) "ws_rest s = []" "foldervisitor env (ws_dir s) FOLDER_POST = 0 \<or> below = []"
      "walk_loop env max_len path (s # below)
        = then_calls [Closed (ws_dir s), Folder_visit (ws_dir s) FOLDER_POST] (walk_loop env max_len (ws_dir s) below)"
  | (dot) name d rest where "ws_rest s = (name, d) # rest" "name = ''.'' \<or> name = ''..''"
      "walk_loop env max_len path (s # below) = walk_loop env max_len path (s\<lparr>ws_rest := rest\<rparr> # below)"
  | (long) name d rest where "ws_rest s = (name, d) # rest" "name \<noteq> ''.''" "name \<noteq> ''..''"
      "max_len \<le> length (ws_dir s) + 1 + length name" "walk_loop env max_len path (s # below) = (- 1, [])"
  | (stop) name d rest cs where "ws_rest s = (name, d) # rest" "name \<noteq> ''.''" "name \<noteq> ''..''"
      "length (ws_dir s @ ''/'' @ name) < max_len"
      "cs = [] \<and> d \<and> MAX_DIR_DEPTH \<le> length (s # below)
        \<or> cs = [Opened (ws_dir s @ ''/'' @ name), Folder_visit (ws_dir s @ ''/'' @ name) FOLDER_PRE, Closed (ws_dir s @ ''/'' @ name)]
          \<and> d \<and> length (s # below) < MAX_DIR_DEPTH \<and> opendir env (ws_dir s @ ''/'' @ name) \<noteq> None
          \<and> foldervisitor env (ws_dir s @ ''/'' @ name) FOLDER_PRE \<noteq> 0
        \<or> cs = [File_visit (ws_dir s @ ''/'' @ name)] \<and> \<not> d \<and> filevisitor env (ws_dir s @ ''/'' @ name) \<noteq> 0"
      "walk_loop env max_len path (s # below) = (- 1, cs @ close_all (s\<lparr>ws_rest := rest\<rparr> # below))"
  | (next_one) name d rest cs where "ws_rest s = (name, d) # rest" "name \<noteq> ''.''" "name \<noteq> ''..''"
      "length (ws_dir s @ ''/'' @ name) < max_len"
      "cs = [] \<and> d \<and> length (s # below) < MAX_DIR_DEPTH \<and> opendir env (ws_dir s @ ''/'' @ name) = None
        \<or> cs = [File_visit (ws_dir s @ ''/'' @ name)] \<and> \<not> d \<and> filevisitor env (ws_dir s @ ''/'' @ name) = 0"
      "walk_loop env max_len path (s # below)
        = then_calls cs (walk_loop env max_len (ws_dir s @ ''/'' @ name) (s\<lparr>ws_rest := rest\<rparr> # below))"
  | (enter) name rest sub where "ws_rest s = (name, True) # rest" "name \<noteq> ''.''" "name \<noteq> ''..''"
      "length (ws_dir s @ ''/'' @ name) < max_len" "length (s # below) < MAX_DIR_DEPTH"
      "opendir env (ws_dir s @ ''/'' @ name) = Some sub" "foldervisitor env (ws_dir s @ ''/'' @ name) FOLDER_PRE = 0"
      "walk_loop env max_len path (s # below)
        = then_calls [Opened (ws_dir s @ ''/'' @ name), Folder_visit (ws_dir s @ ''/'' @ name) FOLDER_PRE]
            (walk_loop env max_len (ws_dir s @ ''/'' @ name)
              (\<lparr>ws_dir = ws_dir s @ ''/'' @ name, ws_rest = sub, path_len = length (ws_dir s @ ''/'' @ name)\<rparr>
                # s\<lparr>ws_rest := rest\<rparr> # below))"
proof (cases "ws_rest s")
  case Nil
  have "take (path_len s) path = ws_dir s" using assms by auto
  then show thesis
    using Nil by (cases "foldervisitor env (ws_dir s) FOLDER_POST \<noteq> 0 \<and> below \<noteq> []"; intro post pop)
      (auto simp: walk_loop.simps(2) Let_def)
next
  case (Cons e rest)
  obtain name d where e: "e = (name, d)" by (cases e)
  have p: "path_len s = length (ws_dir s)" "take (length (ws_dir s)) path = ws_dir s" using assms by auto
  note loop = walk_loop.simps(2) [of env max_len path s below, unfolded Cons e list.case prod.case Let_def p]
  consider "name = ''.'' \<or> name = ''..''" | "name \<noteq> ''.''" "name \<noteq> ''..''" "max_len \<le> length (ws_dir s) + 1 + length name"
    | "name \<noteq> ''.''" "name \<noteq> ''..''" "length (ws_dir s @ ''/'' @ name) < max_len" by fastforce
  then show thesis
  proof cases
    case 1
    then show thesis using dot [of name d rest] Cons e loop by simp
  next
    case 2
    then show thesis using long [of name d rest] Cons e loop by simp
  next
    case 3
    then have not: "\<not> (name = ''.'' \<or> name = ''..'')" "\<not> max_len \<le> length (ws_dir s) + 1 + length name" by simp_all
    note loop = loop [unfolded if_not_P [OF not(1)] if_not_P [OF not(2)]]
    note s = stop [of name d rest, OF Cons [unfolded e] 3] and n = next_one [of name d rest, OF Cons [unfolded e] 3]
    show thesis
    proof (cases d)
      case False
      then show thesis
        using s [of "[File_visit (ws_dir s @ ''/'' @ name)]"] n [of "[File_visit (ws_dir s @ ''/'' @ name)]"] loop
        by (cases "filevisitor env (ws_dir s @ ''/'' @ name) = 0") auto
    next
      case d: True
      show thesis
      proof (cases "length (s # below) < MAX_DIR_DEPTH")
        case False
        then show thesis using s [of "[]"] d loop by auto
      next
        case deep: True
        then show thesis
        proof (cases "opendir env (ws_dir s @ ''/'' @ name)")
          case None
          then show thesis using n [of "[]"] d deep loop by auto
        next
          case (Some sub)
          have entered: "ws_rest s = (name, True) # rest" using Cons e d by simp
          show thesis
            using s [of "[Opened (ws_dir s @ ''/'' @ name), Folder_visit (ws_dir s @ ''/'' @ name) FOLDER_PRE,
                Closed (ws_dir s @ ''/'' @ name)]"] enter [OF entered 3 deep Some] Some d deep loop
            by (cases "foldervisitor env (ws_dir s @ ''/'' @ name) FOLDER_PRE = 0") auto
        qed
      qed
    qed
  qed
qed

lemma stack_ok_take: "stack_ok env max_len path (s # below) \<Longrightarrow> take (length (ws_dir s)) path = ws_dir s"
  by auto

lemma stack_ok_rest:
  assumes "stack_ok env max_len path (s # below)" "ws_rest s = e # rest" "take (length (ws_dir s)) q = ws_dir s"
  shows "stack_ok env max_len q (s\<lparr>ws_rest := rest\<rparr> # below)"
  using assms by auto

lemma stack_ok_enter:
  assumes "stack_ok env max_len path (s # below)" "ws_rest s = e # rest" "opendir env p = Some sub"
    "length p < max_len" "p = ws_dir s @ q"
  shows "stack_ok env max_len p (\<lparr>ws_dir = p, ws_rest = sub, path_len = length p\<rparr> # s\<lparr>ws_rest := rest\<rparr> # below)"
  using assms by auto

lemma walk_loop_ends:
  "stack_ok env max_len path stack \<Longrightarrow> walk_ends env max_len (dirs_of stack) (walk_loop env max_len path stack)"
proof (induction path stack rule: walk_induct)
  case (1 path stack)
  show ?case
  proof (cases stack)
    case Nil
    then show ?thesis by (simp add: walk_ends_def)
  next
    case (Cons s below)
    note ok = "1.prems" [unfolded Cons] and IH = "1.IH" [unfolded Cons]
    have lens: "length (ws_dir s) < max_len" "stack_ok env max_len (ws_dir s) below" using ok by simp_all
    note closes = stack_ok_close [OF lens(2)]
    have "walk_ends env max_len (dirs_of (s # below)) (walk_loop env max_len path (s # below))"
      using ok
    proof (cases rule: walk_cases)
      case post
      then show ?thesis using closes lens by (auto intro!: walk_ends_done)
    next
      case pop
      then show ?thesis
        using IH [OF weight_pop lens(2)] lens(1) by (auto intro!: walk_ends_then)
    next
      case (dot name d rest)
      from IH [OF weight_skip stack_ok_rest, OF dot(1) ok dot(1) stack_ok_take [OF ok]]
      show ?thesis by (simp add: dot(3))
    next
      case (long name d rest)
      have "too_long env max_len (ws_dir s)" using long(1,4) ok by (auto simp: too_long_def)
      then show ?thesis by (auto simp: long(5) walk_ends_def)
    next
      case (stop name d rest cs)
      then show ?thesis using closes lens(1) by (auto intro!: walk_ends_done)
    next
      case (next_one name d rest cs)
      have "walk_ends env max_len (dirs_of (s # below))
          (walk_loop env max_len (ws_dir s @ ''/'' @ name) (s\<lparr>ws_rest := rest\<rparr> # below))"
        using IH [OF weight_skip [OF next_one(1)] stack_ok_rest [OF ok next_one(1)]] by simp
      then show ?thesis
        unfolding next_one(6) by (rule walk_ends_then) (use next_one(4,5) in auto)
    next
      case (enter name rest sub)
      have "length below + 1 < MAX_DIR_DEPTH" using enter(5) by simp
      from IH [OF weight_push [OF enter(1) this] stack_ok_enter [OF ok enter(1,6,4) refl]]
      show ?thesis
        unfolding enter(8) by (rule walk_ends_then) (use enter(4) in auto)
    qed
    then show ?thesis by (simp only: Cons)
  qed
qed

text \<open>C20: However a walk ends, every directory it opened is closed, once, except where it meets a name
  that makes the path too long: then it answers -1. No path it makes is longer than the buffer.\<close>

theorem walk_closes:
  assumes "walk_directory env path max_len = (n, cs)" "length path < max_len"
  shows "(closed cs = opened cs \<or> n = - 1 \<and> closed cs \<subset># opened cs \<and> (\<exists>d. d \<in># opened cs \<and> too_long env max_len d))
    \<and> (\<forall>c \<in> set cs. length (call_path c) < max_len)"
proof (cases "opendir env path")
  case None
  then show ?thesis using assms by (simp add: walk_directory_def)
next
  case (Some d)
  let ?stack = "[\<lparr>ws_dir = path, ws_rest = d, path_len = length path\<rparr>]"
  have "stack_ok env max_len path ?stack" using Some assms(2) by simp
  then have loop: "walk_ends env max_len {#path#} (walk_loop env max_len path ?stack)"
    using walk_loop_ends by fastforce
  have "walk_ends env max_len {#} (then_calls [Opened path, Folder_visit path FOLDER_PRE] (walk_loop env max_len path ?stack))"
    by (rule walk_ends_then [OF loop]) (use assms(2) in auto)
  moreover have "walk_ends env max_len {#} (- 1, [Opened path, Folder_visit path FOLDER_PRE, Closed path])"
    by (rule walk_ends_done) (use assms(2) in auto)
  ultimately have "walk_ends env max_len {#} (n, cs)"
    using assms(1) Some by (auto simp: walk_directory_def Let_def split: if_splits)
  then show ?thesis by (simp add: walk_ends_def)
qed

section \<open>The order of the visits\<close>

text \<open>
  What is to be visited in a directory, told without a stack: each name in turn, a directory before
  and after what is in it. \<open>n\<close> is how many levels there may be.
\<close>

fun visits :: "walk_env \<Rightarrow> nat \<Rightarrow> string \<Rightarrow> (string \<times> bool) list \<Rightarrow> call list" where
  "visits env 0 d es = []"
| "visits env (Suc n) d es = concat (map (\<lambda>(name, is_dir).
     if name = ''.'' \<or> name = ''..'' then []
     else if is_dir then
       (case opendir env (d @ ''/'' @ name) of None \<Rightarrow> []
        | Some sub \<Rightarrow> Folder_visit (d @ ''/'' @ name) FOLDER_PRE # visits env n (d @ ''/'' @ name) sub
            @ [Folder_visit (d @ ''/'' @ name) FOLDER_POST])
     else [File_visit (d @ ''/'' @ name)]) es)"

text \<open>No directory deeper than \<open>n\<close> levels and no path as long as the buffer.\<close>

fun fits :: "walk_env \<Rightarrow> nat \<Rightarrow> nat \<Rightarrow> string \<Rightarrow> (string \<times> bool) list \<Rightarrow> bool" where
  "fits env max_len 0 d es = False"
| "fits env max_len (Suc n) d es = list_all (\<lambda>(name, is_dir). name = ''.'' \<or> name = ''..'' \<or>
     length d + 1 + length name < max_len \<and>
     (is_dir \<longrightarrow> 0 < n \<and> (case opendir env (d @ ''/'' @ name) of None \<Rightarrow> True
        | Some sub \<Rightarrow> fits env max_len n (d @ ''/'' @ name) sub))) es"

fun is_visit :: "call \<Rightarrow> bool" where
  "is_visit (File_visit p) = True"
| "is_visit (Folder_visit p k) = True"
| "is_visit _ = False"

lemma walk_loop_visits:
  assumes "\<And>p. filevisitor env p = 0" "\<And>p k. foldervisitor env p k = 0"
  shows "fits env max_len n d es \<Longrightarrow> length below + n = MAX_DIR_DEPTH \<Longrightarrow> take (length d) path = d \<Longrightarrow>
    \<exists>cs. walk_loop env max_len path (\<lparr>ws_dir = d, ws_rest = es, path_len = length d\<rparr> # below)
        = then_calls cs (walk_loop env max_len d below)
      \<and> filter is_visit cs = visits env n d es @ [Folder_visit d FOLDER_POST]"
proof (induction n arbitrary: d es path below)
  case (Suc n)
  note outer = Suc.IH
  from Suc.prems show ?case
  proof (induction es arbitrary: path)
    case Nil
    then show ?case
      by (subst walk_loop.simps(2))
        (auto simp: Let_def assms intro!: exI [of _ "[Closed d, Folder_visit d FOLDER_POST]"])
  next
    case (Cons e es)
    obtain name is_dir where e: "e = (name, is_dir)" by (cases e)
    let ?s = "\<lparr>ws_dir = d, ws_rest = es, path_len = length d\<rparr>" and ?p = "d @ ''/'' @ name"
    have rest: "\<exists>cs. walk_loop env max_len q (?s # below) = then_calls cs (walk_loop env max_len d below)
        \<and> filter is_visit cs = visits env (Suc n) d es @ [Folder_visit d FOLDER_POST]" if "take (length d) q = d" for q
      using Cons.IH [of q] Cons.prems that by simp
    note loop = walk_loop.simps(2) [of env max_len path "\<lparr>ws_dir = d, ws_rest = e # es, path_len = length d\<rparr>" below,
        unfolded Let_def assms e walk_state.select_convs list.case prod.case]
    show ?case
    proof (cases "name = ''.'' \<or> name = ''..''")
      case True
      then show ?thesis using rest [OF Cons.prems(3)] loop by (auto simp: e)
    next
      case False
      then have long: "\<not> max_len \<le> length d + 1 + length name"
        and sub: "is_dir \<Longrightarrow> 0 < n \<and> (\<forall>x. opendir env ?p = Some x \<longrightarrow> fits env max_len n ?p x)"
        using Cons.prems(1) by (auto simp: e)
      note loop = loop [unfolded if_not_P [OF False] if_not_P [OF long] Cons.prems(3)]
      obtain cs where cs: "walk_loop env max_len ?p (?s # below) = then_calls cs (walk_loop env max_len d below)"
        "filter is_visit cs = visits env (Suc n) d es @ [Folder_visit d FOLDER_POST]"
        using rest [of ?p] by auto
      show ?thesis
      proof (cases is_dir)
        case False
        then show ?thesis
          using loop cs \<open>\<not> (name = ''.'' \<or> name = ''..'')\<close> by (intro exI [of _ "File_visit ?p # cs"]) (simp add: e)
      next
        case True
        then have n: "\<not> MAX_DIR_DEPTH \<le> length (\<lparr>ws_dir = d, ws_rest = e # es, path_len = length d\<rparr> # below)"
          using sub Cons.prems(2) by simp
        show ?thesis
        proof (cases "opendir env ?p")
          case None
          then show ?thesis
            using loop cs n True \<open>\<not> (name = ''.'' \<or> name = ''..'')\<close> by (intro exI [of _ cs]) (simp add: e)
        next
          case (Some x)
          obtain ds where ds: "walk_loop env max_len ?p (\<lparr>ws_dir = ?p, ws_rest = x, path_len = length ?p\<rparr> # ?s # below)
              = then_calls ds (walk_loop env max_len ?p (?s # below))"
            "filter is_visit ds = visits env n ?p x @ [Folder_visit ?p FOLDER_POST]"
            using outer [of ?p x "?s # below" ?p] sub [OF True] Some Cons.prems(2) by auto
          show ?thesis
            using loop cs ds n True Some \<open>\<not> (name = ''.'' \<or> name = ''..'')\<close>
            by (intro exI [of _ "[Opened ?p, Folder_visit ?p FOLDER_PRE] @ ds @ cs"]) (simp add: e)
        qed
      qed
    qed
  qed
qed simp

text \<open>C8: A tree of no more than 64 levels, with no path as long as the buffer, whose visitors go on, is
  walked to its end: what is called, and in which order, is what the traversal without a stack
  says, and each directory is visited after all that is in it.\<close>

theorem walk_is_traversal:
  assumes "opendir env path = Some es" "fits env max_len MAX_DIR_DEPTH path es"
    "\<And>p. filevisitor env p = 0" "\<And>p k. foldervisitor env p k = 0"
  shows "\<exists>cs. walk_directory env path max_len = (0, cs) \<and> filter is_visit cs =
    Folder_visit path FOLDER_PRE # visits env MAX_DIR_DEPTH path es @ [Folder_visit path FOLDER_POST]"
proof -
  obtain cs where "walk_loop env max_len path [\<lparr>ws_dir = path, ws_rest = es, path_len = length path\<rparr>] = then_calls cs (0, [])"
    "filter is_visit cs = visits env MAX_DIR_DEPTH path es @ [Folder_visit path FOLDER_POST]"
    using walk_loop_visits [OF assms(3,4,2), of "[]" path] by auto
  then show ?thesis
    using assms by (intro exI [of _ "[Opened path, Folder_visit path FOLDER_PRE] @ cs"])
      (simp add: walk_directory_def Let_def then_calls_def)
qed

section \<open>What the answer of a remove says\<close>

text \<open>The directory the walk began at is at the bottom, the others have longer paths.\<close>

fun rooted :: "string \<Rightarrow> walk_state list \<Rightarrow> bool" where
  "rooted r [] = True"
| "rooted r [s] \<longleftrightarrow> ws_dir s = r"
| "rooted r (s # t # below) \<longleftrightarrow> length r < length (ws_dir s) \<and> rooted r (t # below)"

lemma rooted_pop: "rooted r (s # below) \<Longrightarrow> rooted r below" by (cases below) simp_all

lemma rooted_rest: "rooted r (s\<lparr>ws_rest := es\<rparr> # below) = rooted r (s # below)" by (cases below) simp_all

lemma rooted_longer: "rooted r (s # below) \<Longrightarrow> length r \<le> length (ws_dir s)" by (cases below) auto

lemma walk_loop_root:
  assumes env: "opendir env' = opendir env" "filevisitor env' = filevisitor env"
    "\<And>p k. p \<noteq> r \<or> k = FOLDER_PRE \<Longrightarrow> foldervisitor env' p k = foldervisitor env p k"
  shows "stack_ok env max_len path stack \<Longrightarrow> rooted r stack \<Longrightarrow> walk_loop env' max_len path stack = walk_loop env max_len path stack"
proof (induction path stack rule: walk_induct)
  case (1 path stack)
  show ?case
  proof (cases stack)
    case (Cons s below)
    note ok = "1.prems"(1) [unfolded Cons] and root = "1.prems"(2) [unfolded Cons] and IH = "1.IH" [unfolded Cons]
    have take: "path_len s = length (ws_dir s)" "take (length (ws_dir s)) path = ws_dir s" using ok by auto
    note loop = walk_loop.simps(2) [of env' max_len path s below, unfolded Let_def take env(1,2)]
    from ok have "walk_loop env' max_len path (s # below) = walk_loop env max_len path (s # below)"
    proof (cases rule: walk_cases)
      case post
      have "ws_dir s \<noteq> r" using root post(3) by (cases below) auto
      then show ?thesis using post loop by (simp add: env(3))
    next
      case pop
      have "foldervisitor env' (ws_dir s) FOLDER_POST = 0 \<or> below = []"
        using pop(2) root env(3) [of "ws_dir s" FOLDER_POST] by (cases below) auto
      then show ?thesis
        using pop loop IH [OF weight_pop _ rooted_pop [OF root], of "ws_dir s"] ok by auto
    next
      case (dot name d rest)
      then show ?thesis
        using loop IH [OF weight_skip stack_ok_rest, OF dot(1) ok dot(1) stack_ok_take [OF ok]] root
        by (simp add: rooted_rest)
    next
      case (long name d rest)
      then show ?thesis using loop by simp
    next
      case (stop name d rest cs)
      then show ?thesis using loop by (auto simp: env(3) split: option.splits)
    next
      case (next_one name d rest cs)
      have "walk_loop env' max_len (ws_dir s @ ''/'' @ name) (s\<lparr>ws_rest := rest\<rparr> # below)
          = walk_loop env max_len (ws_dir s @ ''/'' @ name) (s\<lparr>ws_rest := rest\<rparr> # below)"
        using IH [OF weight_skip [OF next_one(1)] stack_ok_rest [OF ok next_one(1)]] root by (simp add: rooted_rest)
      then show ?thesis using loop next_one by auto
    next
      case (enter name rest sub)
      have deep: "length below + 1 < MAX_DIR_DEPTH" using enter(5) by simp
      have "rooted r (\<lparr>ws_dir = ws_dir s @ ''/'' @ name, ws_rest = sub, path_len = length (ws_dir s @ ''/'' @ name)\<rparr>
          # s\<lparr>ws_rest := rest\<rparr> # below)"
        using root rooted_longer [OF root] by (simp add: rooted_rest)
      from IH [OF weight_push [OF enter(1) deep] stack_ok_enter [OF ok enter(1,6,4) refl] this]
      show ?thesis using loop enter by (simp add: env(3))
    qed
    then show ?thesis by (simp only: Cons)
  qed simp
qed

text \<open>Whether the directory that is to be removed could itself be removed, the last thing a remove
  tries, does not change its answer: it is also 0 when the directory is still there.\<close>

theorem remove_ignores_root:
  "fst (pii_remove (e\<lparr>re_rmdir := (re_rmdir e)(fqname := x)\<rparr>) fqname) = fst (pii_remove e fqname)"
proof -
  let ?e = "e\<lparr>re_rmdir := (re_rmdir e)(fqname := x)\<rparr>"
  have same: "opendir (remove_walk ?e) = opendir (remove_walk e)" "filevisitor (remove_walk ?e) = filevisitor (remove_walk e)"
    "\<And>p k. p \<noteq> fqname \<or> k = FOLDER_PRE \<Longrightarrow> foldervisitor (remove_walk ?e) p k = foldervisitor (remove_walk e) p k"
    by (auto simp: remove_walk_def file_visit_remove_def folder_visit_remove_def fun_eq_iff)
  have pre: "foldervisitor (remove_walk e) p FOLDER_PRE = 0" "foldervisitor (remove_walk ?e) p FOLDER_PRE = 0" for p
    by (simp_all add: remove_walk_def folder_visit_remove_def)
  have "walk_directory (remove_walk ?e) fqname pii_path_buf_size = walk_directory (remove_walk e) fqname pii_path_buf_size"
    if "length fqname < pii_path_buf_size"
  proof (cases "opendir (remove_walk e) fqname")
    case (Some d)
    have "walk_loop (remove_walk ?e) pii_path_buf_size fqname [\<lparr>ws_dir = fqname, ws_rest = d, path_len = length fqname\<rparr>]
        = walk_loop (remove_walk e) pii_path_buf_size fqname [\<lparr>ws_dir = fqname, ws_rest = d, path_len = length fqname\<rparr>]"
      by (rule walk_loop_root [OF same]) (use Some that in auto)
    then show ?thesis by (simp only: walk_directory_def same(1) Some option.case Let_def pre)
  qed (simp add: walk_directory_def same(1))
  then show ?thesis
    by (auto simp: pii_remove_def not_le split: option.splits)
qed

section \<open>A tree\<close>

definition tree1 :: remove_env where
  "tree1 = \<lparr>re_opendir = (\<lambda>p. if p = ''t'' then Some [(''.'', True), (''..'', True), (''a'', False), (''d'', True)]
       else if p = ''t/d'' then Some [(''b'', False)] else None),
     re_unlink = (\<lambda>_. 0), re_rmdir = (\<lambda>_. 0), re_mode = (\<lambda>p. if p = ''t'' then Some 0x41ed else None)\<rparr>"

theorem walk_closes_witness:
  "closed (snd (walk_directory (remove_walk tree1) ''t'' 4096)) = opened (snd (walk_directory (remove_walk tree1) ''t'' 4096))"
proof -
  have "fst (walk_directory (remove_walk tree1) ''t'' 4096) = 0" by code_simp
  then show ?thesis
    using walk_closes [of "remove_walk tree1" "''t''" 4096 0 "snd (walk_directory (remove_walk tree1) ''t'' 4096)"]
    by (simp add: prod_eq_iff)
qed

lemma walk_leaks:
  "walk_directory (remove_walk tree1) ''t'' 5 = (- 1, [Opened ''t'', Folder_visit ''t'' 0, File_visit ''t/a'',
     Opened ''t/d'', Folder_visit ''t/d'' 0])"
  by code_simp

theorem walk_is_traversal_witness:
  "\<exists>cs. walk_directory (remove_walk tree1) ''t'' 4096 = (0, cs) \<and> filter is_visit cs =
     [Folder_visit ''t'' 0, File_visit ''t/a'', Folder_visit ''t/d'' 0, File_visit ''t/d/b'', Folder_visit ''t/d'' 1, Folder_visit ''t'' 1]"
proof -
  let ?es = "[(''.'', True), (''..'', True), (''a'', False), (''d'', True)]"
  have dirs: "opendir (remove_walk tree1) ''t'' = Some ?es" by code_simp
  have fits: "fits (remove_walk tree1) 4096 MAX_DIR_DEPTH ''t'' ?es" by code_simp
  have quiet: "filevisitor (remove_walk tree1) p = 0" "foldervisitor (remove_walk tree1) p k = 0" for p k
    by (simp_all add: remove_walk_def tree1_def file_visit_remove_def folder_visit_remove_def)
  have "visits (remove_walk tree1) MAX_DIR_DEPTH ''t'' ?es
      = [File_visit ''t/a'', Folder_visit ''t/d'' 0, File_visit ''t/d/b'', Folder_visit ''t/d'' 1]"
    by code_simp
  then show ?thesis
    using walk_is_traversal [OF dirs fits quiet] by (simp add: FOLDER_PRE_def FOLDER_POST_def)
qed

end
