(* ===== verification/Pii.thy ===== *)
theory Pii
  imports Walk
begin

text \<open>
  The functions of the system the nodes call, \<^verbatim>\<open>src/src/host/pii_linux.cpp\<close>, and the layouts of
  \<^verbatim>\<open>src/src/host/pii.h\<close>. What the system answers is an argument; what is asked of it, in order,
  is a list of calls in the result. A write outside a buffer is \<open>None\<close>.
\<close>

section \<open>Bytes written into a buffer\<close>

definition write_at :: "nat \<Rightarrow> string \<Rightarrow> string \<Rightarrow> string option" where
  "write_at i xs b = (if i + length xs \<le> length b then Some (take i b @ xs @ drop (i + length xs) b) else None)"

lemma write_at_length: "write_at i xs b = Some b' \<Longrightarrow> length b' = length b"
  by (auto simp: write_at_def split: if_splits)

section \<open>Listing a directory\<close>

text \<open>An entry is a name and the number that is its type.\<close>

definition dir_entry :: "string \<times> nat \<Rightarrow> string" where
  "dir_entry e = fst e @ '','' @ [char_of (snd e + 48)] @ '',''"

fun dirlist_loop :: "(string \<times> nat) list \<Rightarrow> nat \<Rightarrow> string option \<Rightarrow> nat \<Rightarrow> (nat \<times> string option) option" where
  "dirlist_loop [] buf_len buf total_len = Some (total_len, buf)"
| "dirlist_loop (e # es) buf_len buf total_len =
     (let entry_len = length (fst e) + 3 in
      case buf of None \<Rightarrow> dirlist_loop es buf_len None (total_len + entry_len)
      | Some b \<Rightarrow>
          if total_len + entry_len \<le> buf_len
          then (case write_at total_len (dir_entry e) b of None \<Rightarrow> None
            | Some b \<Rightarrow> dirlist_loop es buf_len (Some b) (total_len + entry_len))
          else dirlist_loop es buf_len (Some b) (total_len + entry_len))"

definition pii_dirlist :: "(string \<times> nat) list option \<Rightarrow> string option \<Rightarrow> nat \<Rightarrow> (nat \<times> string option) option" where
  "pii_dirlist dir buf buf_len =
     (case dir of None \<Rightarrow> Some (0, buf) | Some es \<Rightarrow> dirlist_loop es buf_len buf 0)"

section \<open>Files\<close>

datatype open_flag = O_RDONLY | O_RDWR | O_WRONLY | O_CREAT | O_EXCL | O_TRUNC

datatype os_call =
    Os_open string "open_flag list" | Os_mkdir string | Os_seek_end int | Os_close int | Os_truncate int nat
  | Os_stat string | Os_yield | Os_unlink string | Os_shm_open string "open_flag list" | Os_shm_unlink string
  | Os_note string int | Os_usleep nat | Os_kill int int

definition pii_rmdir_buf_size :: nat where "pii_rmdir_buf_size = 4096"

fun rmkdir_loop :: "string \<Rightarrow> string \<Rightarrow> os_call list" where
  "rmkdir_loop before [] = []"
| "rmkdir_loop before (c # cs) = (if c = CHR ''/'' then [Os_mkdir before] else []) @ rmkdir_loop (before @ [c]) cs"

text \<open>The first character is passed over.\<close>

definition rmkdir :: "string \<Rightarrow> os_call list" where
  "rmkdir path = (if length path \<ge> pii_rmdir_buf_size then [] else rmkdir_loop (take 1 path) (drop 1 path))"

definition file_open_read :: nat where "file_open_read = 0"
definition file_open_write :: nat where "file_open_write = 1"
definition file_open_append :: nat where "file_open_append = 2"

text \<open>\<open>fd1\<close> and \<open>fd2\<close> are what the first and the second \<open>open\<close> give.\<close>

definition pii_open :: "string \<Rightarrow> nat \<Rightarrow> int \<Rightarrow> int \<Rightarrow> int \<times> os_call list" where
  "pii_open path mode fd1 fd2 =
     (if mode = file_open_read then (fd1, [Os_open path [O_RDONLY]])
      else if mode = file_open_write then
        let how = [O_CREAT, O_RDWR, O_TRUNC] in
        if fd1 \<noteq> - 1 then (fd1, [Os_open path how])
        else (fd2, Os_open path how # rmkdir path @ [Os_open path how])
      else if mode = file_open_append then
        let how = [O_CREAT, O_RDWR] in
        if fd1 \<noteq> - 1 then (fd1, [Os_open path how, Os_seek_end fd1])
        else if fd2 \<noteq> - 1 then (fd2, Os_open path how # rmkdir path @ [Os_open path how])
        else (fd2, Os_open path how # rmkdir path @ [Os_open path how, Os_seek_end fd2])
      else (- 1, []))"

text \<open>A descriptor is passed on as an \<open>int\<close>.\<close>

definition fd_int :: "int \<Rightarrow> int" where "fd_int fd = signed_take_bit 31 fd"

record pii_stat_info =
  mtime :: int
  fsize :: int
  st_mode :: u16

definition pii_stat :: "(int \<times> int \<times> u32) option \<Rightarrow> pii_stat_info \<Rightarrow> int \<times> pii_stat_info" where
  "pii_stat answer st =
     (case answer of None \<Rightarrow> (- 1, st)
      | Some (m, sz, mode) \<Rightarrow> (0, st\<lparr>mtime := m, fsize := sz, st_mode := ucast mode\<rparr>))"

definition pii_chmod :: "u64 \<Rightarrow> (u32 \<Rightarrow> bool) \<Rightarrow> int" where
  "pii_chmod mode chmod_ok = (if chmod_ok (ucast (mode AND 0xfff)) then 0 else - 1)"

section \<open>Shared memory\<close>

definition link_buf_size :: nat where "link_buf_size = 128"

definition shared_name :: "string \<Rightarrow> string" where "shared_name path = ''/tmp/'' @ path"

text \<open>The wait for another to give the file its size: the answers of \<open>stat\<close>, one after another.\<close>

fun wait_size :: "string \<Rightarrow> nat \<Rightarrow> nat option list \<Rightarrow> os_call list option" where
  "wait_size name len [] = None"
| "wait_size name len (st # sts) =
     (if st = Some len then Some [Os_stat name]
      else map_option (\<lambda>cs. Os_stat name # Os_yield # cs) (wait_size name len sts))"

datatype shared_outcome = Overruns | Waits | Returns int "os_call list"

definition pii_open_shared :: "string \<Rightarrow> nat \<Rightarrow> int \<Rightarrow> bool \<Rightarrow> nat option list \<Rightarrow> int \<Rightarrow> shared_outcome" where
  "pii_open_shared path len made sized sts found =
     (let name = shared_name path; how = [O_CREAT, O_EXCL, O_RDWR] in
      if length name \<ge> link_buf_size then Overruns
      else if made = - 1 then
        (case wait_size name len sts of None \<Rightarrow> Waits
         | Some cs \<Rightarrow> Returns found (Os_open name how # cs @ [Os_open name [O_RDWR]]))
      else Returns (if sized then made else - 1) [Os_open name how, Os_truncate made len])"

definition pii_close_shared :: "string \<Rightarrow> int \<Rightarrow> int \<Rightarrow> int \<times> os_call list" where
  "pii_close_shared path hndl unlinked = (unlinked, [Os_close (fd_int hndl), Os_unlink path])"

definition hex_digit :: "nat \<Rightarrow> char" where
  "hex_digit n = (if n < 10 then char_of (48 + n) else char_of (87 + n))"

text \<open>\<open>%016llx\<close>.\<close>

definition hex16 :: "u64 \<Rightarrow> string" where
  "hex16 key = map (\<lambda>i. hex_digit (unat key div 16 ^ (15 - i) mod 16)) [0..<16]"

definition note_prefix :: string where "note_prefix = ''chrysalisp_shm_''"

definition pii_shm_names :: "u64 \<Rightarrow> string \<times> string" where
  "pii_shm_names key = (''/clpx-'' @ hex16 key, ''/tmp/'' @ note_prefix @ ''clpx-'' @ hex16 key)"

text \<open>
  \<open>fd\<close> is what \<open>shm_open\<close> gives, \<open>sized\<close> whether it could be given its length, \<open>noted\<close> whether the
  note could be opened, \<open>st\<close> the size it is found to have.
\<close>

definition pii_shm_open :: "u64 \<Rightarrow> nat \<Rightarrow> bool \<Rightarrow> int \<Rightarrow> bool \<Rightarrow> bool \<Rightarrow> int \<Rightarrow> nat option \<Rightarrow> int \<times> os_call list" where
  "pii_shm_open key len create fd sized noted pid st =
     (let (path, note) = pii_shm_names key in
      if create then
        let made = Os_shm_open path [O_CREAT, O_EXCL, O_RDWR] in
        if fd = - 1 then (- 1, [made])
        else if \<not> sized then (- 1, [made, Os_truncate fd len, Os_close fd, Os_shm_unlink path])
        else (fd, [made, Os_truncate fd len] @ (if noted then [Os_note note pid] else []))
      else
        let found = Os_shm_open path [O_RDWR] in
        if fd = - 1 then (- 1, [found])
        else if (case st of None \<Rightarrow> True | Some n \<Rightarrow> n < len) then (- 1, [found, Os_close fd])
        else (fd, [found]))"

definition pii_shm_close :: "u64 \<Rightarrow> int \<Rightarrow> bool \<Rightarrow> int \<times> os_call list" where
  "pii_shm_close key hndl owner =
     (0, Os_close (fd_int hndl) #
       (if owner then let (path, note) = pii_shm_names key in [Os_shm_unlink path, Os_unlink note] else []))"

datatype errno = EPERM | ESRCH | Errno_other

text \<open>\<open>snprintf\<close> into a buffer of \<open>n\<close> bytes keeps the first \<open>n - 1\<close> characters.\<close>

definition snprintf_into :: "nat \<Rightarrow> string \<Rightarrow> string" where "snprintf_into n s = take (n - 1) s"

text \<open>
  The names in \<open>/tmp\<close>, what each note that can be read says, if it is a number, and what \<open>kill\<close>
  of it with no signal gives, \<open>None\<close> where it succeeds.
\<close>

definition pii_shm_sweep :: "string list option \<Rightarrow> (string \<Rightarrow> int option) \<Rightarrow> (int \<Rightarrow> errno option) \<Rightarrow> os_call list" where
  "pii_shm_sweep names noted kill =
     (case names of None \<Rightarrow> []
      | Some ns \<Rightarrow> concat (map (\<lambda>name.
          if take (length note_prefix) name \<noteq> note_prefix then []
          else
            let note = snprintf_into 512 (''/tmp/'' @ name);
                pid = (case noted note of None \<Rightarrow> 0 | Some p \<Rightarrow> p) in
            if pid > 0 \<and> (kill pid = None \<or> kill pid = Some EPERM) then []
            else [Os_shm_unlink (snprintf_into 64 (''/'' @ drop (length note_prefix) name)), Os_unlink note]) ns))"

section \<open>Memory\<close>

definition mmap_data :: nat where "mmap_data = 0"
definition mmap_exec :: nat where "mmap_exec = 1"
definition mmap_shared :: nat where "mmap_shared = 2"
definition mmap_none :: nat where "mmap_none = 3"

datatype prot = PROT_READ | PROT_WRITE | PROT_EXEC

text \<open>What is asked of \<open>mprotect\<close>, if it is asked: with the emulator code is data.\<close>

definition pii_mprotect :: "bool \<Rightarrow> nat \<Rightarrow> prot set option" where
  "pii_mprotect run_emu mode =
     (if mode = mmap_exec \<and> \<not> run_emu then Some {PROT_READ, PROT_EXEC}
      else if mode = mmap_exec \<or> mode = mmap_data then Some {PROT_READ, PROT_WRITE}
      else if mode = mmap_none then Some {}
      else None)"

text \<open>What is asked of \<open>mmap\<close>, and whether the memory is shared with whoever maps the same file.\<close>

definition pii_mmap :: "bool \<Rightarrow> nat \<Rightarrow> (prot set \<times> bool) option" where
  "pii_mmap run_emu mode =
     (if mode = mmap_exec \<and> \<not> run_emu then Some ({PROT_READ, PROT_EXEC}, False)
      else if mode = mmap_exec \<or> mode = mmap_data then Some ({PROT_READ, PROT_WRITE}, False)
      else if mode = mmap_shared then Some ({PROT_READ, PROT_WRITE}, True)
      else None)"

definition pii_munmap :: "nat \<Rightarrow> int \<Rightarrow> int" where
  "pii_munmap mode unmapped = (if mode = mmap_data \<or> mode = mmap_exec \<or> mode = mmap_shared then unmapped else - 1)"

section \<open>Random bytes and the id of the machine\<close>

text \<open>
  \<open>urandom\<close> is what could be read of the device, no more than was asked, \<open>None\<close> if it can not be
  opened; \<open>rand\<close> gives the numbers drawn then.
\<close>

definition pii_random :: "string option \<Rightarrow> (nat \<Rightarrow> u32) \<Rightarrow> string \<Rightarrow> nat \<Rightarrow> string option" where
  "pii_random urandom rand addr len =
     (case urandom of Some bytes \<Rightarrow> write_at 0 (take len bytes) addr
      | None \<Rightarrow> write_at 0 (map (\<lambda>i. char_of (unat (rand i AND 0xff))) [0..<len]) addr)"

text \<open>\<open>usleep\<close> is not asked to sleep for no time at all.\<close>

definition pii_sleep :: "nat \<Rightarrow> os_call list" where
  "pii_sleep usec = [Os_usleep (if usec > 0 then usec else 1)]"

text \<open>
  \<open>machine_id\<close> and \<open>system_id\<close> are what could be read of the two files, \<open>scan\<close> the number that
  \<open>sscanf\<close> with \<open>%02x\<close> makes of a string. The last component is what is written to \<open>.system_id\<close>.
\<close>

fun hex_bytes :: "(string \<Rightarrow> nat option) \<Rightarrow> string \<Rightarrow> nat \<Rightarrow> string \<Rightarrow> string option" where
  "hex_bytes scan hex 0 buf = Some buf"
| "hex_bytes scan hex (Suc n) buf =
     (case hex_bytes scan hex n buf of None \<Rightarrow> None
      | Some b \<Rightarrow> (case scan (drop (n * 2) hex) of None \<Rightarrow> Some b
        | Some v \<Rightarrow> write_at n [char_of v] b))"

definition sysid_file :: "string option \<Rightarrow> string option \<Rightarrow> (nat \<Rightarrow> u32) \<Rightarrow> string
    \<Rightarrow> (int \<times> string option \<times> string option) option" where
  "sysid_file system_id urandom rand b =
     (case (case system_id of None \<Rightarrow> Some b | Some bytes \<Rightarrow> write_at 0 (take 16 bytes) b) of None \<Rightarrow> None
      | Some b \<Rightarrow>
        if (case system_id of None \<Rightarrow> False | Some bytes \<Rightarrow> length (take 16 bytes) = 16) then Some (0, Some b, None)
        else map_option (\<lambda>b. (0, Some b, Some (take 16 b))) (pii_random urandom rand b 16))"

definition pii_sysid ::
  "(string \<Rightarrow> nat option) \<Rightarrow> string option \<Rightarrow> string option \<Rightarrow> string option \<Rightarrow> (nat \<Rightarrow> u32) \<Rightarrow> string option \<Rightarrow> nat
    \<Rightarrow> (int \<times> string option \<times> string option) option" where
  "pii_sysid scan machine_id system_id urandom rand buf len =
     (case buf of None \<Rightarrow> Some (- 1, None, None)
      | Some b \<Rightarrow>
        if len < 16 then Some (- 1, Some b, None)
        else case machine_id of
          Some hex \<Rightarrow>
            if length hex = 32 then map_option (\<lambda>b. (0, Some b, None)) (hex_bytes scan hex 16 b)
            else sysid_file system_id urandom rand b
        | None \<Rightarrow> sysid_file system_id urandom rand b)"

section \<open>Another node\<close>

definition pii_spawn_buf_size :: nat where "pii_spawn_buf_size = 4096"

text \<open>What stands before the last slash, with the slash; nothing if there is none.\<close>

definition dir_part :: "string \<Rightarrow> string" where
  "dir_part path = rev (dropWhile (\<lambda>c. c \<noteq> CHR ''/'') (rev path))"

definition pii_spawn_which :: "string \<Rightarrow> string \<Rightarrow> string \<times> string" where
  "pii_spawn_which host args =
     (let want = (if take 5 args = ''-gui '' then Some ''main_gui''
                  else if take 5 args = ''-tui '' then Some ''main_tui'' else None) in
      case want of None \<Rightarrow> (host, args)
      | Some w \<Rightarrow> (let name = dir_part host @ w in
          (if length name \<ge> pii_spawn_buf_size then host else name, drop 5 args)))"

text \<open>\<open>strtok\<close> with a space: the next word and what is after it.\<close>

definition strtok :: "string \<Rightarrow> (string \<times> string) option" where
  "strtok s = (let t = dropWhile (\<lambda>c. c = CHR '' '') s in
     if t = [] then None
     else Some (takeWhile (\<lambda>c. c \<noteq> CHR '' '') t, drop 1 (dropWhile (\<lambda>c. c \<noteq> CHR '' '') t)))"

lemma strtok_shorter: "strtok s = Some (tok, rest) \<Longrightarrow> length rest < length s"
proof -
  assume s: "strtok s = Some (tok, rest)"
  let ?t = "dropWhile (\<lambda>c. c = CHR '' '') s"
  have "?t \<noteq> []" "rest = drop 1 (dropWhile (\<lambda>c. c \<noteq> CHR '' '') ?t)"
    using s by (auto simp: strtok_def Let_def split: if_splits)
  moreover have "length (dropWhile (\<lambda>c. c \<noteq> CHR '' '') ?t) \<le> length ?t" "length ?t \<le> length s"
    by (simp_all add: length_dropWhile_le)
  moreover have "0 < length ?t" using calculation(1) by blast
  ultimately show ?thesis by (simp only: length_drop)
qed

function spawn_words :: "string \<Rightarrow> nat \<Rightarrow> string list" where
  "spawn_words s argc =
     (case strtok s of None \<Rightarrow> []
      | Some (tok, rest) \<Rightarrow> if argc < 64 then tok # spawn_words rest (argc + 1) else [])"
  by pat_completeness auto
termination by (relation "measure (\<lambda>(s, argc). length s)") (auto dest: strtok_shorter)

declare spawn_words.simps [simp del]

text \<open>
  \<open>host_argv\<close> is how this host was started; \<open>spawned\<close> what \<open>posix_spawn\<close> answers to a program and its
  arguments, the process id if it succeeds. The arguments are closed by a null, at \<open>argv[argc]\<close>.
\<close>

definition spawn_argv :: "bool \<Rightarrow> string list \<Rightarrow> string \<Rightarrow> string list option" where
  "spawn_argv run_emu host_argv args =
     (let (host, args) = pii_spawn_which (host_argv ! 0) args in
      if length args \<ge> pii_spawn_buf_size then None
      else Some ([host, host_argv ! 1] @ spawn_words args 2 @ (if run_emu then [''-e''] else [])))"

definition pii_spawn :: "bool \<Rightarrow> string list option \<Rightarrow> string \<Rightarrow> (string list \<Rightarrow> int option) \<Rightarrow> int" where
  "pii_spawn run_emu host_argv args spawned =
     (case host_argv of None \<Rightarrow> - 1
      | Some hv \<Rightarrow> (case spawn_argv run_emu hv args of None \<Rightarrow> - 1
        | Some argv \<Rightarrow> (case spawned argv of None \<Rightarrow> - 1 | Some pid \<Rightarrow> pid)))"

section \<open>Processes\<close>

text \<open>A process id is 64 bits here and a \<open>pid_t\<close>, 32, for the system.\<close>

definition pid_t :: "int \<Rightarrow> int" where "pid_t pid = signed_take_bit 31 pid"

definition pii_alive :: "(int \<Rightarrow> errno option) \<Rightarrow> int \<Rightarrow> int" where
  "pii_alive kill pid =
     (if pid \<le> 0 then 0
      else if kill (pid_t pid) = None \<or> kill (pid_t pid) = Some EPERM then 1 else 0)"

definition SIGKILL :: int where "SIGKILL = 9"

definition pii_kill :: "int \<Rightarrow> (int \<Rightarrow> errno option) \<Rightarrow> int \<Rightarrow> int \<times> os_call list" where
  "pii_kill self kill pid =
     (if pid \<le> 1 \<or> pid = self then (- 1, [])
      else (if kill (pid_t pid) = None \<or> kill (pid_t pid) = Some ESRCH then 0 else - 1, [Os_kill (pid_t pid) SIGKILL]))"

section \<open>What the machine is\<close>

definition pii_cpus :: "int \<Rightarrow> int" where "pii_cpus n = (if n < 1 then 1 else n)"

definition pii_memory :: "int \<Rightarrow> int \<Rightarrow> int" where
  "pii_memory pages sz = (if pages < 0 \<or> sz < 0 then 0 else signed_take_bit 63 (pages * sz))"

definition pii_host :: "string \<Rightarrow> string \<Rightarrow> string \<Rightarrow> string \<Rightarrow> nat \<Rightarrow> (nat \<times> string) option" where
  "pii_host cpu abi os buf len =
     (let s = cpu @ '' '' @ abi @ '' '' @ os @ '' 3''; n = length s in
      if len = 0 then Some (0, buf)
      else let n = (if n \<ge> len then len - 1 else n) in
        case write_at 0 (take n s) buf of None \<Rightarrow> None
        | Some b \<Rightarrow> map_option (\<lambda>b. (n, b)) (write_at n [char_of (0 :: nat)] b))"

section \<open>Clocks\<close>

definition pii_gettime :: "int \<Rightarrow> int \<Rightarrow> int" where "pii_gettime sec usec = sec * 1000000 + usec"

text \<open>The counter of the processor, made microseconds by a multiply; its rate is asked once.\<close>

definition tick_recip :: "u64 \<Rightarrow> u64 option" where
  "tick_recip frq = (if frq > 1000000 then Some (word_of_int (1000000 * 2 ^ 32 div uint frq)) else None)"

definition tick_usec :: "u64 \<Rightarrow> u64 \<Rightarrow> int" where
  "tick_usec recip cnt = signed_take_bit 63 (uint cnt * uint recip div 2 ^ 32)"

definition pii_tick :: "u64 \<Rightarrow> u64 \<Rightarrow> int \<Rightarrow> int \<Rightarrow> int" where
  "pii_tick frq cnt sec nsec =
     (case tick_recip frq of Some recip \<Rightarrow> tick_usec recip cnt | None \<Rightarrow> sec * 1000000 + nsec sdiv 1000)"

section \<open>The listing and the size it needs\<close>

definition listing :: "(string \<times> nat) list \<Rightarrow> string" where "listing es = concat (map dir_entry es)"

lemma listing_simps [simp]: "listing [] = []" "listing (e # es) = dir_entry e @ listing es"
  by (simp_all add: listing_def)

lemma dir_entry_length [simp]: "length (dir_entry e) = length (fst e) + 3"
  by (simp add: dir_entry_def)

lemma dirlist_size: "dirlist_loop es n None t = Some (t + length (listing es), None)"
  by (induction es arbitrary: t) (simp_all add: Let_def)

lemma dirlist_full: "length b < t \<Longrightarrow> dirlist_loop es (length b) (Some b) t = Some (t + length (listing es), Some b)"
  by (induction es arbitrary: t) (simp_all add: Let_def)

lemma dirlist_fill:
  "length d = t \<Longrightarrow> \<exists>k \<le> length es. \<exists>b'. dirlist_loop es (length (d @ b)) (Some (d @ b)) t = Some (t + length (listing es), Some (d @ b'))
    \<and> b' = listing (take k es) @ drop (length (listing (take k es))) b
    \<and> (k = length es \<or> length b < length (listing (take (Suc k) es)))"
proof (induction es arbitrary: d b t)
  case (Cons e es)
  show ?case
  proof (cases "length (fst e) + 3 \<le> length b")
    case False
    then have "dirlist_loop (e # es) (length (d @ b)) (Some (d @ b)) t = Some (t + length (listing (e # es)), Some (d @ b))"
      using Cons.prems dirlist_full [of "d @ b" "t + (length (fst e) + 3)" es] by (simp add: Let_def)
    then show ?thesis
      using False by (intro exI [of _ 0] conjI exI [of _ b]) simp_all
  next
    case True
    let ?b = "drop (length (fst e) + 3) b"
    have w: "write_at t (dir_entry e) (d @ b) = Some ((d @ dir_entry e) @ ?b)" "length (d @ b) = length ((d @ dir_entry e) @ ?b)"
      using True Cons.prems by (simp_all add: write_at_def)
    obtain k b' where k: "k \<le> length es"
      "dirlist_loop es (length (d @ b)) (Some ((d @ dir_entry e) @ ?b)) (t + (length (fst e) + 3))
        = Some (t + (length (fst e) + 3) + length (listing es), Some ((d @ dir_entry e) @ b'))"
      "b' = listing (take k es) @ drop (length (listing (take k es))) ?b"
      "k = length es \<or> length ?b < length (listing (take (Suc k) es))"
      using Cons.IH [of "d @ dir_entry e" "t + (length (fst e) + 3)" ?b] Cons.prems unfolding w(2) by auto
    have fit: "t + (length (fst e) + 3) \<le> length (d @ b)" using True Cons.prems by simp
    have "dirlist_loop (e # es) (length (d @ b)) (Some (d @ b)) t
        = Some (t + length (listing (e # es)), Some (d @ (dir_entry e @ b')))"
      using k(2) by (simp only: dirlist_loop.simps Let_def option.case if_P [OF fit] w(1)) simp
    moreover have "dir_entry e @ b' = listing (take (Suc k) (e # es)) @ drop (length (listing (take (Suc k) (e # es)))) b"
      unfolding k(3) by (simp add: add.commute)
    moreover have "Suc k = length (e # es) \<or> length b < length (listing (take (Suc (Suc k)) (e # es)))"
      using k(4) True by auto
    ultimately show ?thesis using k(1) by (intro exI [of _ "Suc k"] conjI exI [of _ "dir_entry e @ b'"]) simp_all
  qed
qed simp

text \<open>C31: A directory listed into a buffer: nothing is written outside it, it holds as many of the first
  entries as fit and is untouched after them, and the answer is the size all entries need, which
  is also the answer when there is no buffer; a buffer of that size holds them all.\<close>

theorem dirlist_lists:
  "pii_dirlist (Some es) None n = Some (length (listing es), None)
   \<and> (\<exists>k b'. pii_dirlist (Some es) (Some b) (length b) = Some (length (listing es), Some b') \<and> k \<le> length es
      \<and> b' = listing (take k es) @ drop (length (listing (take k es))) b
      \<and> (k = length es \<or> length b < length (listing (take (Suc k) es))))
   \<and> (length b = length (listing es) \<longrightarrow> pii_dirlist (Some es) (Some b) (length b) = Some (length b, Some (listing es)))"
proof -
  obtain k b' where k: "k \<le> length es" "dirlist_loop es (length b) (Some b) 0 = Some (length (listing es), Some b')"
    "b' = listing (take k es) @ drop (length (listing (take k es))) b"
    "k = length es \<or> length b < length (listing (take (Suc k) es))"
    using dirlist_fill [of "[]" 0 es b] by auto
  moreover have "listing es = listing (take (Suc k) es) @ listing (drop (Suc k) es)" for k
    by (simp add: listing_def flip: concat_append map_append)
  then have "length (listing (take (Suc k) es)) \<le> length (listing es)" by (metis le_add1 length_append)
  ultimately show ?thesis
    by (auto simp: pii_dirlist_def dirlist_size)
qed

theorem dirlist_lists_witness:
  "pii_dirlist (Some [(''a'', 8), (''bc'', 4)]) (Some (replicate 9 (CHR ''.''))) 9 = Some (9, Some ''a,8,bc,4,'')"
proof -
  have "length (replicate 9 (CHR ''.'')) = length (listing [(''a'', 8), (''bc'', 4)])" by simp
  moreover have "listing [(''a'', 8), (''bc'', 4)] = ''a,8,bc,4,''" by code_simp
  ultimately show ?thesis
    using dirlist_lists [of "[(''a'', 8), (''bc'', 4)]" 0 "replicate 9 (CHR ''.'')"] by simp
qed

section \<open>Spawning\<close>

fun join :: "string list \<Rightarrow> string" where
  "join [] = []"
| "join [w] = w"
| "join (w # ws) = w @ CHR '' '' # join ws"

definition word_ok :: "string \<Rightarrow> bool" where "word_ok w \<longleftrightarrow> w \<noteq> [] \<and> CHR '' '' \<notin> set w"

lemma strtok_word:
  assumes "word_ok w"
  shows "strtok w = Some (w, [])" "strtok (w @ CHR '' '' # s) = Some (w, s)"
proof -
  obtain c cs where w: "w = c # cs" "c \<noteq> CHR '' ''" using assms by (cases w) (auto simp: word_ok_def)
  have all: "\<forall>c \<in> set w. c \<noteq> CHR '' ''" using assms by (auto simp: word_ok_def)
  have skip: "dropWhile (\<lambda>c. c = CHR '' '') w = w" "dropWhile (\<lambda>c. c = CHR '' '') (w @ CHR '' '' # s) = w @ CHR '' '' # s"
    using w by simp_all
  have word: "takeWhile (\<lambda>c. c \<noteq> CHR '' '') w = w" "takeWhile (\<lambda>c. c \<noteq> CHR '' '') (w @ CHR '' '' # s) = w"
    "dropWhile (\<lambda>c. c \<noteq> CHR '' '') w = []" "dropWhile (\<lambda>c. c \<noteq> CHR '' '') (w @ CHR '' '' # s) = CHR '' '' # s"
    using all by (simp_all add: takeWhile_append dropWhile_append)
  have "w \<noteq> []" using w by simp
  then show "strtok w = Some (w, [])" "strtok (w @ CHR '' '' # s) = Some (w, s)"
    by (simp_all add: strtok_def skip word)
qed

lemma spawn_words_join:
  "list_all word_ok ws \<Longrightarrow> argc + length ws \<le> 64 \<Longrightarrow> spawn_words (join ws) argc = ws"
proof (induction ws arbitrary: argc rule: join.induct)
  case 1
  then show ?case by (subst spawn_words.simps) (simp add: strtok_def)
next
  case (2 w)
  have "spawn_words [] (Suc argc) = []" by (subst spawn_words.simps) (simp add: strtok_def)
  then show ?case using 2 by (subst spawn_words.simps) (simp add: strtok_word)
next
  case (3 w v ws)
  then show ?case by (subst spawn_words.simps) (simp add: strtok_word)
qed

lemma spawn_words_fit: "argc \<le> 64 \<Longrightarrow> argc + length (spawn_words s argc) \<le> 64"
proof (induction s argc rule: spawn_words.induct)
  case (1 s argc)
  then show ?case by (subst spawn_words.simps) (auto split: option.splits)
qed

lemma join_not_option:
  assumes "list_all word_ok ws" "length w = 4" "CHR '' '' \<notin> set w" "hd (ws @ [[]]) \<noteq> w"
  shows "take 5 (join ws) \<noteq> w @ '' ''"
proof
  assume "take 5 (join ws) = w @ '' ''"
  then obtain r where r: "join ws = w @ CHR '' '' # r" by (metis append_Cons append_Nil append_assoc append_take_drop_id)
  have "word_ok w" using assms by (auto simp: word_ok_def)
  then have "strtok (join ws) = Some (w, r)" unfolding r by (rule strtok_word)
  then show False
    using assms(1,4) by (cases ws rule: join.cases) (auto simp: strtok_word, simp add: strtok_def)
qed

text \<open>The words a node is started with are those that were joined by spaces, up to 62 of them, after
  the host and its image and before -e; whatever the arguments are, they and the null that closes
  them fit in the 68 places there are.\<close>

theorem spawn_passes_words:
  assumes "list_all word_ok ws" "length ws \<le> 62" "length (join ws) < 4096"
    and "hd (ws @ [[]]) \<noteq> ''-gui''" "hd (ws @ [[]]) \<noteq> ''-tui''"
  shows "spawn_argv emu [host, img] (join ws) = Some ([host, img] @ ws @ (if emu then [''-e''] else []))
    \<and> (\<forall>hv args argv. spawn_argv emu hv args = Some argv \<longrightarrow> length argv + 1 \<le> 68)"
proof -
  have "pii_spawn_which host (join ws) = (host, join ws)"
    using join_not_option [OF assms(1), of "''-gui''"] join_not_option [OF assms(1), of "''-tui''"] assms(4,5) by (simp add: pii_spawn_which_def)
  then have "spawn_argv emu [host, img] (join ws) = Some ([host, img] @ ws @ (if emu then [''-e''] else []))"
    using spawn_words_join [OF assms(1), of 2] assms(2,3) by (simp add: spawn_argv_def pii_spawn_buf_size_def)
  moreover have "length argv + 1 \<le> 68" if "spawn_argv emu hv args = Some argv" for hv args argv
  proof -
    obtain h a where "pii_spawn_which (hv ! 0) args = (h, a)" by fastforce
    then show ?thesis using that spawn_words_fit [of 2 a] by (auto simp: spawn_argv_def split: if_splits)
  qed
  ultimately show ?thesis by blast
qed

theorem spawn_passes_words_witness:
  "spawn_argv True [''main'', ''image''] ''-cpu 3'' = Some [''main'', ''image'', ''-cpu'', ''3'', ''-e'']"
  using spawn_passes_words [of "[''-cpu'', ''3'']" True "''main''" "''image''"] by (simp add: word_ok_def)

section \<open>The names of shared memory\<close>

lemma digits_determine:
  "(\<And>j. j < k \<Longrightarrow> a div 16 ^ j mod 16 = b div 16 ^ j mod 16) \<Longrightarrow> a mod 16 ^ k = b mod 16 ^ (k :: nat)" for a b :: nat
proof (induction k)
  case (Suc k)
  have "n mod 16 ^ Suc k = 16 ^ k * (n div 16 ^ k mod 16) + n mod 16 ^ k" for n :: nat
    using mod_mult2_eq [of n "16 ^ k" 16] by (simp add: mult.commute)
  then show ?case using Suc.IH Suc.prems by simp
qed simp

lemma hex_digit_code: "n < 16 \<Longrightarrow> of_char (hex_digit n) = (if n < 10 then 48 + n else 87 + n :: nat)"
  by (simp add: hex_digit_def)

lemma hex_digit_inj: "a < 16 \<Longrightarrow> b < 16 \<Longrightarrow> hex_digit a = hex_digit b \<longleftrightarrow> a = b"
proof
  assume n: "a < 16" "b < 16" "hex_digit a = hex_digit b"
  then have "(if a < 10 then 48 + a else 87 + a) = (if b < 10 then 48 + b else 87 + b)"
    using hex_digit_code [of a] hex_digit_code [of b] by simp
  then show "a = b" by (simp split: if_splits)
qed simp

lemma hex16_length [simp]: "length (hex16 k) = 16" by (simp add: hex16_def)

lemma hex16_inj: "hex16 a = hex16 b \<longleftrightarrow> a = b"
proof
  assume eq: "hex16 a = hex16 b"
  have "unat a div 16 ^ j mod 16 = unat b div 16 ^ j mod 16" if "j < 16" for j
  proof -
    have "hex16 a ! (15 - j) = hex16 b ! (15 - j)" by (simp only: eq)
    moreover have "[0..<(16 :: nat)] ! (15 - j) = 15 - j" using nth_upt [of 0 "15 - j" 16] by simp
    ultimately have "hex_digit (unat a div 16 ^ j mod 16) = hex_digit (unat b div 16 ^ j mod 16)"
      using that by (simp add: hex16_def)
    then show ?thesis by (simp add: hex_digit_inj)
  qed
  then have "unat a mod 16 ^ 16 = unat b mod 16 ^ 16" by (rule digits_determine)
  moreover have "unat w mod 16 ^ 16 = unat w" for w :: u64
    using unsigned_less [of w, where ?'a = nat] by simp
  ultimately show "a = b" by (simp add: word_unat_eq_iff)
qed simp

definition note_file :: "u64 \<Rightarrow> string" where "note_file k = note_prefix @ ''clpx-'' @ hex16 k"

definition maker_runs :: "(string \<Rightarrow> int option) \<Rightarrow> (int \<Rightarrow> errno option) \<Rightarrow> u64 \<Rightarrow> bool" where
  "maker_runs noted kill k \<longleftrightarrow> (case noted (snd (pii_shm_names k)) of None \<Rightarrow> False
     | Some pid \<Rightarrow> 0 < pid \<and> (kill pid = None \<or> kill pid = Some EPERM))"

lemma sweep_one:
  "pii_shm_sweep (Some (map note_file ks)) noted kill = concat (map (\<lambda>k. if maker_runs noted kill k then []
     else [Os_shm_unlink (fst (pii_shm_names k)), Os_unlink (snd (pii_shm_names k))]) ks)"
proof (induction ks)
  case (Cons k ks)
  have n: "take (length note_prefix) (note_file k) = note_prefix"
    "snprintf_into 512 (''/tmp/'' @ note_file k) = snd (pii_shm_names k)"
    "snprintf_into 64 (''/'' @ drop (length note_prefix) (note_file k)) = fst (pii_shm_names k)"
    by (simp_all add: note_file_def note_prefix_def snprintf_into_def pii_shm_names_def)
  have "pii_shm_sweep (Some (map note_file (k # ks))) noted kill
      = (if maker_runs noted kill k then [] else [Os_shm_unlink (fst (pii_shm_names k)), Os_unlink (snd (pii_shm_names k))])
        @ pii_shm_sweep (Some (map note_file ks)) noted kill"
    unfolding pii_shm_sweep_def option.case list.map concat.simps n maker_runs_def Let_def
    by (auto split: option.splits)
  then show ?case by (simp add: Cons.IH)
qed (simp add: pii_shm_sweep_def)

text \<open>The name of a piece of shared memory tells its key, and a sweep lets go of the memory of exactly
  the keys that are noted by a node that no longer runs.\<close>

theorem sweep_spares_the_living:
  "Os_shm_unlink (fst (pii_shm_names k)) \<in> set (pii_shm_sweep (Some (map note_file ks)) noted kill)
     \<longleftrightarrow> k \<in> set ks \<and> \<not> maker_runs noted kill k"
  unfolding sweep_one by (auto simp: pii_shm_names_def hex16_inj split: if_splits)

text \<open>What is opened and not handed out is closed, and its name let go of.\<close>

lemma shm_open_fails_closed:
  assumes "pii_shm_open key len create fd sized noted pid st = (- 1, cs)" "fd \<noteq> - 1"
  shows "Os_close fd \<in> set cs \<and> (create \<longrightarrow> Os_shm_unlink (fst (pii_shm_names key)) \<in> set cs)"
  using assms by (auto simp: pii_shm_open_def Let_def split: prod.splits if_splits option.splits)

section \<open>Processes and pages\<close>

lemma pid_t_id: "- (2 ^ 31) \<le> p \<Longrightarrow> p < 2 ^ 31 \<Longrightarrow> pid_t p = p"
  by (simp add: pid_t_def signed_take_bit_int_eq_self)

text \<open>An id of a process that fits in 31 bits has that process ended and no other; one that does not is
  cut to 32 bits after it was looked at, and then 2^32 - 1 ends every process there is, 2^32 the
  group of this one and 2^32 and its own id this one.\<close>

theorem kill_cuts_the_id:
  assumes "0 < self" "self < 2 ^ 31"
  shows "(\<forall>pid. 1 < pid \<and> pid < 2 ^ 31 \<and> pid \<noteq> self \<longrightarrow> snd (pii_kill self kill pid) = [Os_kill pid SIGKILL])
    \<and> snd (pii_kill self kill (2 ^ 32 - 1)) = [Os_kill (- 1) SIGKILL]
    \<and> snd (pii_kill self kill (2 ^ 32)) = [Os_kill 0 SIGKILL]
    \<and> snd (pii_kill self kill (2 ^ 32 + self)) = [Os_kill self SIGKILL]"
proof -
  have "signed_take_bit 31 (2 ^ 32 + self) = signed_take_bit 31 self"
  proof -
    have "2 ^ 32 + self + 2 ^ 31 = (self + 2 ^ 31) + 2 ^ Suc 31" by simp
    then show ?thesis unfolding signed_take_bit_eq_take_bit_shift take_bit_eq_mod by (simp only: mod_add_self2)
  qed
  then have "pid_t (2 ^ 32 + self) = self" using pid_t_id [of self] assms by (simp add: pid_t_def)
  moreover have "pid_t (2 ^ 32 - 1) = - 1" "pid_t (2 ^ 32) = 0" by code_simp+
  ultimately show ?thesis using assms by (auto simp: pii_kill_def pid_t_id)
qed

theorem kill_cuts_the_id_witness: "snd (pii_kill 77 (\<lambda>_. None) (2 ^ 32 - 1)) = [Os_kill (- 1) SIGKILL]"
  using kill_cuts_the_id [of 77 "\<lambda>_. None"] by simp

text \<open>No page can be written and run, and with the emulator none is run.\<close>

lemma written_or_run:
  "pii_mmap emu mode = Some (p, sh) \<Longrightarrow> \<not> (PROT_WRITE \<in> p \<and> PROT_EXEC \<in> p) \<and> (emu \<longrightarrow> PROT_EXEC \<notin> p)"
  "pii_mprotect emu mode = Some p \<Longrightarrow> \<not> (PROT_WRITE \<in> p \<and> PROT_EXEC \<in> p) \<and> (emu \<longrightarrow> PROT_EXEC \<notin> p)"
  by (auto simp: pii_mmap_def pii_mprotect_def split: if_splits)

text \<open>What the host says it is ends in a zero inside the buffer.\<close>

lemma host_bounded:
  assumes "length buf = len" "0 < len"
  shows "\<exists>n b. pii_host cpu abi os buf len = Some (n, b) \<and> length b = len \<and> n < len \<and> b ! n = char_of (0 :: nat)
    \<and> take n b = take n (cpu @ '' '' @ abi @ '' '' @ os @ '' 3'')"
proof -
  define s where "s = cpu @ '' '' @ abi @ '' '' @ os @ '' 3''"
  define n where "n = (if length s \<ge> len then len - 1 else length s)"
  let ?b = "take n s @ [char_of (0 :: nat)] @ drop (n + 1) buf"
  have n: "n < len" "length (take n s) = n" using assms(2) by (auto simp: n_def)
  then have "pii_host cpu abi os buf len = Some (n, ?b)"
    using assms unfolding pii_host_def Let_def s_def [symmetric] n_def [symmetric] by (simp add: write_at_def)
  moreover have "length ?b = len" "?b ! n = char_of (0 :: nat)" "take n ?b = take n s"
    using n assms(1) by (simp_all add: nth_append)
  ultimately show ?thesis using n(1) unfolding s_def by blast
qed

section \<open>The clock\<close>

lemma tick_recip_bound:
  assumes "tick_recip frq = Some r"
  shows "1000000 < uint frq" "uint r = 1000000 * 2 ^ 32 div uint frq" "uint r < 2 ^ 32"
proof -
  show f: "1000000 < uint frq" using assms by (auto simp: tick_recip_def word_less_def split: if_splits)
  have "1000000 * 2 ^ 32 div uint frq \<le> 1000000 * 2 ^ 32 div 1000001" using f by (intro zdiv_mono2) simp_all
  then have q: "1000000 * 2 ^ 32 div uint frq < 2 ^ 32" "0 \<le> 1000000 * 2 ^ 32 div uint frq"
    using f by (simp_all add: pos_imp_zdiv_nonneg_iff)
  then show r: "uint r = 1000000 * 2 ^ 32 div uint frq"
    using assms by (auto simp: tick_recip_def uint_word_of_int split: if_splits)
  show "uint r < 2 ^ 32" unfolding r by (rule q(1))
qed

text \<open>A division by \<open>f\<close> done as a multiply by the reciprocal, kept to 1 in \<open>m\<close>.\<close>

lemma reciprocal:
  fixes c f k m r :: int
  assumes "0 \<le> c" "0 < f" "0 < m" "r = k * m div f"
  shows "c * r div m \<le> c * k div f" "c * k div f \<le> c * r div m + c div m + 1"
proof -
  have r: "r * f \<le> k * m" "k * m < (r + 1) * f"
    using assms(2) div_mult_mod_eq [of "k * m" f] pos_mod_bound [of f "k * m"] pos_mod_sign [of f "k * m"]
    unfolding assms(4) distrib_right by linarith+
  have "c * r div m * m \<le> c * r" using assms(3) by (rule int_div_mult_le)
  then have "c * r div m * m * f \<le> c * r * f" using assms(2) by (intro mult_right_mono) simp_all
  also have "\<dots> \<le> c * (k * m)" using r(1) assms(1) by (simp add: mult.assoc mult_left_mono)
  finally have "(c * r div m * f) * m \<le> (c * k) * m" by (simp add: ac_simps)
  then have "c * r div m * f \<le> c * k" using assms(3) by simp
  then show "c * r div m \<le> c * k div f" using zdiv_mono1 [OF _ assms(2), of "c * r div m * f"] assms(2) by simp
  have "c * k div f * f \<le> c * k" using assms(2) by (rule int_div_mult_le)
  then have "c * k div f * f * m \<le> c * k * m" using assms(3) by (intro mult_right_mono) simp_all
  also have "\<dots> \<le> c * ((r + 1) * f)" using r(2) assms(1) by (simp add: mult.assoc mult_left_mono)
  finally have "(c * k div f * m) * f \<le> (c * r + c) * f" by (simp add: algebra_simps)
  then have "c * k div f * m \<le> c * r + c" using assms(2) by simp
  also have "\<dots> < (c * r div m + 1) * m + (c div m + 1) * m"
    using div_mult_mod_eq [of "c * r" m] pos_mod_bound [OF assms(3), of "c * r"]
      div_mult_mod_eq [of c m] pos_mod_bound [OF assms(3), of c] unfolding distrib_right by linarith
  also have "\<dots> = (c * r div m + c div m + 2) * m" by (simp add: algebra_simps)
  finally show "c * k div f \<le> c * r div m + c div m + 1" using assms(3) by simp
qed

text \<open>The clock made of the counter of the processor never goes back, and is behind the true count of
  microseconds by less than one for each 2^32 counts and one.\<close>

theorem tick_never_goes_back:
  assumes "tick_recip frq = Some r" "cnt \<le> cnt'" "cnt' < 2 ^ 63"
  shows "0 \<le> pii_tick frq cnt sec nsec \<and> pii_tick frq cnt sec nsec \<le> pii_tick frq cnt' sec nsec
    \<and> pii_tick frq cnt sec nsec \<le> uint cnt * 1000000 div uint frq
    \<and> uint cnt * 1000000 div uint frq \<le> pii_tick frq cnt sec nsec + uint cnt div 2 ^ 32 + 1"
proof -
  note f = tick_recip_bound [OF assms(1)]
  have le: "uint cnt \<le> uint cnt'" using assms(2) by (simp add: word_le_def)
  have max: "uint cnt' < 2 ^ 63" using assms(3) by (simp add: word_less_def)
  have tick: "pii_tick frq c sec nsec = uint c * uint r div 2 ^ 32" if "uint c < 2 ^ 63" for c
  proof -
    have "uint c * uint r \<le> uint c * 2 ^ 32" using f(3) by (intro mult_left_mono) simp_all
    then have "uint c * uint r div 2 ^ 32 \<le> uint c * 2 ^ 32 div 2 ^ 32" by (intro zdiv_mono1) simp_all
    then have "uint c * uint r div 2 ^ 32 < 2 ^ 63" using that by simp
    moreover have "0 \<le> uint c * uint r div 2 ^ 32" by (simp add: pos_imp_zdiv_nonneg_iff)
    ultimately show ?thesis
      using assms(1) by (simp add: pii_tick_def tick_usec_def signed_take_bit_int_eq_self)
  qed
  have "uint cnt * uint r div 2 ^ 32 \<le> uint cnt' * uint r div 2 ^ 32"
    using le by (intro zdiv_mono1 mult_right_mono) simp_all
  moreover have "0 \<le> uint cnt * uint r div 2 ^ 32" by (simp add: pos_imp_zdiv_nonneg_iff)
  ultimately show ?thesis
    using reciprocal [of "uint cnt" "uint frq" "2 ^ 32" "uint r" 1000000] f(1,2) le max by (simp only: tick) simp
qed

theorem tick_never_goes_back_witness: "pii_tick 54000000 54 s n = 0 \<and> pii_tick 54000000 54 s n \<le> pii_tick 54000000 540 s n"
proof -
  have r: "tick_recip 54000000 = Some 79536431" by (simp add: tick_recip_def)
  show ?thesis
    using tick_never_goes_back [OF r, of 54 540 s n] by (simp add: pii_tick_def r tick_usec_def)
qed

end
