(* ===== verification/Host.thy ===== *)
theory Host
  imports Pii
begin

text \<open>
  What starts a node, \<^verbatim>\<open>src/src/host/main.cpp\<close>, the tables of functions it is given, and the memory
  two nodes share, as \<^verbatim>\<open>src/src/host/pii.h\<close> lays it out.
\<close>

section \<open>The layout of a structure\<close>

text \<open>A type is its size and its alignment; a field stands at the next place that is aligned for it.\<close>

type_synonym c_type = "nat \<times> nat"

definition align_up :: "nat \<Rightarrow> nat \<Rightarrow> nat" where "align_up n a = (n + a - 1) div a * a"

fun place_fields :: "nat \<Rightarrow> c_type list \<Rightarrow> nat list \<times> nat" where
  "place_fields pos [] = ([], pos)"
| "place_fields pos (t # ts) =
     (let off = align_up pos (snd t); (offs, fin) = place_fields (off + fst t) ts in (off # offs, fin))"

text \<open>\<open>al\<close> is the alignment the structure is declared with, 1 if with none.\<close>

definition c_struct :: "nat \<Rightarrow> c_type list \<Rightarrow> c_type" where
  "c_struct al ts = (let a = fold max (map snd ts) al in (align_up (snd (place_fields 0 ts)) a, a))"

definition uint64_t :: c_type where "uint64_t = (8, 8)"
definition uint32_t :: c_type where "uint32_t = (4, 4)"
definition uint16_t :: c_type where "uint16_t = (2, 2)"

definition lk_page_size :: nat where "lk_page_size = 4096"
definition lk_data_size :: nat where "lk_data_size = 3032"
definition lk_bufs_per_chan :: nat where "lk_bufs_per_chan = 6"

definition fn_header :: c_type where
  "fn_header = c_struct 1 [uint64_t, uint16_t, uint16_t, uint16_t, uint16_t, uint16_t, uint16_t]"

definition node_id :: c_type where "node_id = c_struct 8 [uint64_t, uint64_t]"
definition net_id :: c_type where "net_id = c_struct 8 [uint64_t, node_id]"

definition lk_buf :: c_type where "lk_buf = c_struct 8 [uint32_t, uint32_t]"
definition lk_node :: c_type where "lk_node = c_struct 8 [node_id, node_id, uint32_t, uint32_t]"
definition lk_frag :: c_type where "lk_frag = c_struct 8 [net_id, net_id, uint32_t, uint32_t, uint32_t]"

definition lk_chan_size :: nat where
  "lk_chan_size = (fst lk_buf + fst lk_frag + lk_data_size) * lk_bufs_per_chan"

definition lk_chan :: c_type where "lk_chan = c_struct 1 [(lk_chan_size, 1)]"

text \<open>The second channel is declared with the alignment of a page.\<close>

definition lk_shmem_fields :: "c_type list" where
  "lk_shmem_fields = [lk_chan, node_id, node_id, (fst lk_chan, lk_page_size)]"

definition lk_shmem :: c_type where "lk_shmem = c_struct 1 lk_shmem_fields"

lemma align_up_spec: "0 < a \<Longrightarrow> n \<le> align_up n a \<and> align_up n a < n + a \<and> a dvd align_up n a"
proof -
  assume a: "0 < a"
  have "align_up n a + (n + a - 1) mod a = n + a - 1" by (simp add: align_up_def div_mult_mod_eq)
  moreover have "(n + a - 1) mod a < a" using a by simp
  moreover have "a dvd align_up n a" by (simp add: align_up_def)
  ultimately show ?thesis using a by linarith
qed

lemma place_fields_sound:
  "place_fields pos ts = (offs, fin) \<Longrightarrow> \<forall>t \<in> set ts. 0 < snd t \<Longrightarrow>
    length offs = length ts \<and> pos \<le> fin \<and> (\<forall>i < length ts. snd (ts ! i) dvd offs ! i \<and> pos \<le> offs ! i \<and> offs ! i + fst (ts ! i) \<le> fin
      \<and> (\<forall>j. i < j \<and> j < length ts \<longrightarrow> offs ! i + fst (ts ! i) \<le> offs ! j))"
proof (induction ts arbitrary: pos offs)
  case (Cons t ts)
  let ?off = "align_up pos (snd t)"
  obtain os where os: "place_fields (?off + fst t) ts = (os, fin)" "offs = ?off # os"
    using Cons.prems(1) by (auto simp: Let_def split: prod.splits)
  have t: "pos \<le> ?off" "snd t dvd ?off" using align_up_spec [of "snd t" pos] Cons.prems(2) by simp_all
  have IH: "length os = length ts" "?off + fst t \<le> fin"
    "\<And>i. i < length ts \<Longrightarrow> snd (ts ! i) dvd os ! i \<and> ?off + fst t \<le> os ! i \<and> os ! i + fst (ts ! i) \<le> fin
      \<and> (\<forall>j. i < j \<and> j < length ts \<longrightarrow> os ! i + fst (ts ! i) \<le> os ! j)"
    using Cons.IH [OF os(1)] Cons.prems(2) by auto
  show ?case
  proof (intro conjI allI impI; (elim conjE)?)
    show "length offs = length (t # ts)" "pos \<le> fin" using IH t by (simp_all add: os(2))
    fix i assume i: "i < length (t # ts)"
    show "snd ((t # ts) ! i) dvd offs ! i" using i t IH(3) by (cases i) (simp_all add: os(2))
    show "pos \<le> offs ! i" using i t IH(3) by (cases i) (simp_all add: os(2), fastforce)
    show "offs ! i + fst ((t # ts) ! i) \<le> fin" using i IH by (cases i) (simp_all add: os(2))
    fix j assume "i < j" "j < length (t # ts)"
    then show "offs ! i + fst ((t # ts) ! i) \<le> offs ! j"
      using IH(3) by (cases i; cases j) (simp_all add: os(2))
  qed
qed simp

lemma lk_structs:
  "node_id = (16, 8)" "net_id = (24, 8)" "lk_buf = (8, 8)" "lk_frag = (64, 8)" "lk_node = (40, 8)" "fn_header = (24, 8)"
proof -
  note c = c_struct_def align_up_def Let_def uint64_t_def uint32_t_def uint16_t_def
  show n: "node_id = (16, 8)" by (simp add: node_id_def c)
  show m: "net_id = (24, 8)" by (simp add: net_id_def n c)
  show "lk_frag = (64, 8)" by (simp add: lk_frag_def m c)
  show "lk_buf = (8, 8)" "lk_node = (40, 8)" "fn_header = (24, 8)"
    by (simp_all add: lk_buf_def lk_node_def fn_header_def n c)
qed

lemma lk_sizes: "lk_chan_size = 18624" "lk_chan = (18624, 1)"
proof -
  show n: "lk_chan_size = 18624" by (simp add: lk_chan_size_def lk_structs lk_data_size_def lk_bufs_per_chan_def)
  show "lk_chan = (18624, 1)" by (simp add: lk_chan_def n c_struct_def align_up_def Let_def)
qed



section \<open>The tables of functions\<close>

text \<open>Each entry of a table of the host, by name, with how many arguments it takes.\<close>

definition host_os_funcs :: "(string \<times> nat) list" where
  "host_os_funcs = [(''exit'', 1), (''pii_stat'', 2), (''pii_open'', 2), (''pii_close'', 1), (''pii_unlink'', 1),
     (''pii_read'', 3), (''pii_write'', 3), (''pii_mmap'', 3), (''pii_munmap'', 3), (''pii_mprotect'', 3),
     (''pii_gettime'', 0), (''pii_open_shared'', 2), (''pii_close_shared'', 2), (''pii_flush_icache'', 2),
     (''pii_dirlist'', 3), (''pii_remove'', 1), (''pii_seek'', 3), (''pii_random'', 2), (''pii_sleep'', 1),
     (''pii_sysid'', 2), (''pii_spawn'', 1), (''pii_pid'', 0), (''pii_alive'', 1), (''pii_cpus'', 0), (''pii_memory'', 0),
     (''pii_shm_open'', 3), (''pii_shm_close'', 3), (''pii_host'', 2), (''pii_chmod'', 2), (''pii_kill'', 1),
     (''pii_tick'', 0)]"

definition host_net_funcs :: "(string \<times> nat) list" where
  "host_net_funcs = [(''host_net_init'', 0), (''host_net_deinit'', 0), (''host_net_connect'', 2), (''host_net_listen'', 1),
     (''host_net_accept'', 1), (''host_net_send'', 3), (''host_net_recv'', 3), (''host_net_close'', 1), (''host_net_poll'', 1),
     (''host_net_udp_bind'', 1), (''host_net_udp_send'', 5), (''host_net_udp_recv'', 5)]"

definition host_audio_funcs :: "(string \<times> nat) list" where
  "host_audio_funcs = [(''host_audio_init'', 0), (''host_audio_deinit'', 0), (''host_audio_add_sfx'', 1),
     (''host_audio_play_sfx'', 2), (''host_audio_change_sfx'', 2), (''host_audio_remove_sfx'', 1)]"

definition host_gui_funcs :: "(string \<times> nat) list" where
  "host_gui_funcs = [(''host_gui_init'', 2), (''host_gui_deinit'', 0), (''host_gui_box'', 1), (''host_gui_filled_box'', 1),
     (''host_gui_blit'', 3), (''host_gui_set_clip'', 1), (''host_gui_set_color'', 4), (''host_gui_set_texture_color'', 4),
     (''host_gui_destroy_texture'', 1), (''host_gui_create_texture'', 5), (''host_gui_begin_composite'', 0),
     (''host_gui_end_composite'', 0), (''host_gui_flush'', 1), (''host_gui_resize'', 2), (''host_gui_poll_event'', 1),
     (''host_gui_clip_put'', 1), (''host_gui_clip_get'', 0), (''host_gui_clip_free'', 1), (''host_gui_shader_format'', 0),
     (''host_gui_shader_create'', 4), (''host_gui_shader_destroy'', 1), (''host_gui_shader_texture'', 2),
     (''host_gui_shader_draw'', 5), (''host_gui_read_texture'', 5), (''host_gui_mesh_create'', 2), (''host_gui_mesh_destroy'', 1),
     (''host_gui_pair_create'', 5), (''host_gui_tris_draw'', 3), (''host_gui_read_screen'', 6)]"

text \<open>The classes of the nodes: the virtual methods, by which a table is indexed, in the order declared.\<close>

definition host_os_class :: "(string \<times> nat) list" where
  "host_os_class = [(''exit'', 1), (''stat'', 2), (''open'', 2), (''close'', 1), (''unlink'', 1), (''read'', 3), (''write'', 3),
     (''mmap'', 3), (''munmap'', 3), (''mprotect'', 3), (''gettime'', 0), (''open_shared'', 2), (''close_shared'', 2),
     (''clear_icache'', 2), (''dirlist'', 3), (''remove'', 1), (''seek'', 3), (''rand'', 2), (''sleep'', 1), (''sysid'', 2),
     (''spawn'', 1), (''pid'', 0), (''alive'', 1), (''cpus'', 0), (''memory'', 0), (''shm_open'', 3), (''shm_close'', 3),
     (''host'', 2), (''chmod'', 2), (''kill'', 1), (''tick'', 0)]"

definition host_net_class :: "(string \<times> nat) list" where
  "host_net_class = [(''init'', 0), (''deinit'', 0), (''connect'', 2), (''listen'', 1), (''accept'', 1), (''send'', 3),
     (''recv'', 3), (''close'', 1), (''poll'', 1), (''udp_bind'', 1), (''udp_send'', 5), (''udp_recv'', 5)]"

definition host_audio_class :: "(string \<times> nat) list" where
  "host_audio_class = [(''init'', 0), (''deinit'', 0), (''add'', 1), (''play'', 2), (''change'', 2), (''remove'', 1)]"

definition host_gui_class :: "(string \<times> nat) list" where
  "host_gui_class = [(''init'', 2), (''deinit'', 0), (''box'', 1), (''filled_box'', 1), (''blit'', 3), (''set_clip'', 1),
     (''set_color'', 4), (''set_texture_color'', 4), (''destroy_texture'', 1), (''create_texture'', 5), (''begin_composite'', 0),
     (''end_composite'', 0), (''flush'', 1), (''resize'', 2), (''poll_event'', 1), (''clip_put'', 1), (''clip_get'', 0),
     (''clip_free'', 1), (''shader_format'', 0), (''shader_create'', 4), (''shader_destroy'', 1), (''shader_texture'', 2),
     (''shader_draw'', 5), (''read_texture'', 5), (''mesh_create'', 2), (''mesh_destroy'', 1), (''pair_create'', 5),
     (''tris_draw'', 3), (''read_screen'', 6)]"

text \<open>How the host names a method: three have another name.\<close>

definition os_name :: "string \<Rightarrow> string" where
  "os_name m = (if m = ''exit'' then m else if m = ''clear_icache'' then ''pii_flush_icache''
     else if m = ''rand'' then ''pii_random'' else ''pii_'' @ m)"

definition audio_name :: "string \<Rightarrow> string" where
  "audio_name m = ''host_audio_'' @ m @ (if m = ''init'' \<or> m = ''deinit'' then [] else ''_sfx'')"

text \<open>The tables the host passes to a node and the classes the node calls them by agree: the same
  functions in the same order, each called with as many arguments as it takes.\<close>

theorem host_tables_agree:
  "map (map_prod os_name id) host_os_class = host_os_funcs
   \<and> map (map_prod (\<lambda>m. ''host_net_'' @ m) id) host_net_class = host_net_funcs
   \<and> map (map_prod audio_name id) host_audio_class = host_audio_funcs
   \<and> map (map_prod (\<lambda>m. ''host_gui_'' @ m) id) host_gui_class = host_gui_funcs"
  by (simp add: host_os_class_def host_os_funcs_def host_net_class_def host_net_funcs_def host_audio_class_def
      host_audio_funcs_def host_gui_class_def host_gui_funcs_def os_name_def audio_name_def)

section \<open>Starting a node\<close>

datatype main_call = M_sweep | M_open string | M_map nat | M_read int nat | M_close int | M_raw | M_stack | M_emu string
  | M_unmap_stack | M_flush nat | M_protect nat | M_run string | M_unmap nat | M_unraw | M_print string

text \<open>
  What the system answers: the descriptor, the size of the file, whether the memory was mapped,
  how much could be read, the address the stack was mapped at, and what the node returns.
\<close>

record boot_env =
  boot_fd :: int
  boot_size :: nat
  boot_mapped :: bool
  boot_read :: nat
  boot_stack :: int
  boot_ret :: int

definition boot_image :: "string list \<Rightarrow> bool \<times> string" where
  "boot_image argv = (if ''-e'' \<in> set argv then (True, ''obj/vp64/VP64/sys/boot_image'') else (False, argv ! 1))"

definition run_node :: "boot_env \<Rightarrow> bool \<Rightarrow> string \<Rightarrow> int \<times> main_call list" where
  "run_node e run_emu img =
     (let n = boot_size e in
      if run_emu then
        if boot_stack e \<noteq> 0 then (boot_ret e, [M_stack, M_emu img, M_unmap_stack, M_unmap n, M_unraw])
        else (0, [M_stack, M_unmap n, M_unraw])
      else (boot_ret e, [M_flush n, M_protect n, M_run img, M_unmap n, M_unraw]))"

definition main :: "boot_env \<Rightarrow> string list \<Rightarrow> int \<times> main_call list" where
  "main e argv =
     (if length argv > 1 then
        if argv ! 1 = ''-shm_sweep'' then (0, [M_sweep])
        else let (run_emu, img) = boot_image argv; fd = boot_fd e; n = boot_size e in
          if fd \<noteq> - 1 then
            if boot_mapped e then
              if boot_read e = n then
                let (ret, cs) = run_node e run_emu img in
                (ret, [M_open img, M_map n, M_read fd n, M_close fd, M_raw] @ cs)
              else (0, [M_open img, M_map n, M_read fd n, M_close fd, M_print ''Error, failed reading boot_image!''])
            else (0, [M_open img, M_map n, M_close fd, M_print ''Error, READ/WRITE/EXEC pages failed!''])
          else (0, [M_open img, M_print ''Error, boot_image not found!''])
      else (0, [M_print ''Error, no boot_image arg!'']))"



end
