(* ===== verification/Pointers.thy ===== *)
theory Pointers
  imports Prelude
begin

text \<open>
  Who points: the devices, the contacts of each and the pens of
  \<^verbatim>\<open>src/src/host/gui_sdl3_event.h\<close>. Each static table of that file is a value passed in and
  handed back. What a table promises is a map beside it, and every operation is shown to do to
  the table what it should do to the map.
\<close>

unbundle bit_operations_syntax

section \<open>The table of devices\<close>

definition DEVICES :: nat where "DEVICES = 16"
definition CONTACTS :: nat where "CONTACTS = 32"
definition DEVICE_TOUCH :: u32 where "DEVICE_TOUCH = 1"
definition DEVICE_PEN :: u32 where "DEVICE_PEN = 2"

record device =
  dv_kind :: u32
  dv_key :: u64
  dv_next :: u32
  dv_number :: "u32 list"
  dv_finger :: "u64 list"
  dv_down :: "bool list"

text \<open>A static table starts as zeros.\<close>

definition device0 :: device where
  "device0 = \<lparr>dv_kind = 0, dv_key = 0, dv_next = 0, dv_number = replicate CONTACTS 0,
     dv_finger = replicate CONTACTS 0, dv_down = replicate CONTACTS False\<rparr>"

definition devices0 :: "device list" where
  "devices0 = replicate DEVICES device0"

text \<open>The number of a device, from 1, and the table with it in.\<close>

definition host_gui_sdl3_device :: "u32 \<Rightarrow> u64 \<Rightarrow> device list \<Rightarrow> nat \<times> device list" where
  "host_gui_sdl3_device kind key devs =
     (case find (\<lambda>i. dv_kind (devs ! i) = kind \<and> dv_key (devs ! i) = key) [0..<DEVICES] of
        Some i \<Rightarrow> (i + 1, devs)
      | None \<Rightarrow> (case find (\<lambda>i. dv_kind (devs ! i) = 0) [0..<DEVICES] of
          None \<Rightarrow> (DEVICES, devs)
        | Some spare \<Rightarrow> (spare + 1, devs[spare := (devs ! spare)\<lparr>dv_kind := kind, dv_key := key\<rparr>])))"

section \<open>The contacts of a device\<close>

definition contact_find :: "u64 \<Rightarrow> device \<Rightarrow> nat option" where
  "contact_find finger dev = find (\<lambda>i. dv_down dev ! i \<and> dv_finger dev ! i = finger) [0..<CONTACTS]"

definition contact_spare :: "device \<Rightarrow> nat" where
  "contact_spare dev = (case find (\<lambda>i. \<not> dv_down dev ! i) [0..<CONTACTS] of Some i \<Rightarrow> i | None \<Rightarrow> CONTACTS - 1)"

definition contact_land :: "u64 \<Rightarrow> nat \<Rightarrow> device \<Rightarrow> device" where
  "contact_land finger i dev = dev\<lparr>dv_finger := (dv_finger dev)[i := finger], dv_number := (dv_number dev)[i := dv_next dev],
     dv_next := (dv_next dev + 1) AND 0xffffff\<rparr>"

text \<open>\<open>dev.down[at] = !up\<close>, and the number the contact has.\<close>

definition contact_set :: "bool \<Rightarrow> nat \<Rightarrow> device \<Rightarrow> u32 \<times> device" where
  "contact_set up i dev = (dv_number dev ! i, dev\<lparr>dv_down := (dv_down dev)[i := \<not> up]\<rparr>)"

definition device_contact :: "u64 \<Rightarrow> bool \<Rightarrow> device \<Rightarrow> u32 \<times> device" where
  "device_contact finger up dev = (case contact_find finger dev of
       Some i \<Rightarrow> contact_set up i dev
     | None \<Rightarrow> (let i = contact_spare dev in contact_set up i (contact_land finger i dev)))"

definition host_gui_sdl3_contact :: "nat \<Rightarrow> u64 \<Rightarrow> bool \<Rightarrow> device list \<Rightarrow> u32 \<times> device list" where
  "host_gui_sdl3_contact device finger up devs =
     (case device_contact finger up (devs ! (device - 1)) of (n, dev) \<Rightarrow> (n, devs[device - 1 := dev]))"

section \<open>A panel that stands in for a trackpad\<close>

definition host_gui_sdl3_pad_down :: "bool \<Rightarrow> u64 \<Rightarrow> device list \<Rightarrow> u64 \<Rightarrow> bool \<times> u64" where
  "host_gui_sdl3_pad_down trackpad ticks devs pad_last =
     (if trackpad \<and> (\<exists>i \<in> set [0..<DEVICES]. dv_kind (devs ! i) = DEVICE_TOUCH \<and>
          (\<exists>j \<in> set [0..<CONTACTS]. dv_down (devs ! i) ! j))
      then (True, ticks) else (False, pad_last))"

definition host_gui_sdl3_pad_wheel :: "bool \<Rightarrow> u64 \<Rightarrow> device list \<Rightarrow> u64 \<Rightarrow> bool \<times> u64" where
  "host_gui_sdl3_pad_wheel trackpad ticks devs pad_last =
     (case host_gui_sdl3_pad_down trackpad ticks devs pad_last of
        (True, l) \<Rightarrow> (True, l)
      | (False, l) \<Rightarrow> (trackpad \<and> l \<noteq> 0 \<and> ticks - l < 1000, l))"

section \<open>How hard each pen is pressed\<close>

definition PENS :: nat where "PENS = 8"

record pen =
  pn_id :: u32
  pn_pressure :: u32

definition pens0 :: "pen list" where
  "pens0 = replicate PENS \<lparr>pn_id = 0, pn_pressure = 0\<rparr>"

text \<open>Where the pressure of a pen is kept: the index of its slot, in place of the pointer to it.
  The loop goes on after a slot not used, so the one taken is the last there is.\<close>

definition host_gui_sdl3_pen :: "u32 \<Rightarrow> pen list \<Rightarrow> nat \<times> pen list" where
  "host_gui_sdl3_pen i pens =
     (case find (\<lambda>k. pn_id (pens ! k) = i) [0..<PENS] of
        Some k \<Rightarrow> (k, pens)
      | None \<Rightarrow> (let spare = (case find (\<lambda>k. pn_id (pens ! k) = 0) (rev [0..<PENS]) of Some k \<Rightarrow> k | None \<Rightarrow> 0)
                in (spare, pens[spare := \<lparr>pn_id = i, pn_pressure = 0\<rparr>])))"

section \<open>The table of devices is a list of those seen\<close>

lemma find_upt_Some: "find P [0..<n] = Some i \<Longrightarrow> i < n \<and> P i \<and> (\<forall>j < i. \<not> P j)"
  by (auto simp: find_Some_iff)

lemma find_upt_None: "find P [0..<n] = None \<longleftrightarrow> (\<forall>i < n. \<not> P i)"
  by (auto simp: find_None_iff)

lemma find_upt_least: "i < n \<Longrightarrow> P i \<Longrightarrow> (\<And>j. j < i \<Longrightarrow> \<not> P j) \<Longrightarrow> find P [0..<n] = Some i"
  by (fastforce simp: find_Some_iff)

text \<open>The slots used come first, each for a device of its own.\<close>

definition seen :: "device list \<Rightarrow> (u32 \<times> u64) list" where
  "seen devs = map (\<lambda>d. (dv_kind d, dv_key d)) (takeWhile (\<lambda>d. dv_kind d \<noteq> 0) devs)"

definition table_ok :: "device list \<Rightarrow> bool" where
  "table_ok devs \<longleftrightarrow> length devs = DEVICES \<and> distinct (seen devs) \<and>
     (\<forall>d \<in> set (dropWhile (\<lambda>d. dv_kind d \<noteq> 0) devs). dv_kind d = 0)"

text \<open>What is promised: a device has the number of its place among those seen.\<close>

definition device_spec :: "u32 \<times> u64 \<Rightarrow> (u32 \<times> u64) list \<Rightarrow> nat \<times> (u32 \<times> u64) list" where
  "device_spec d ds =
     (case find (\<lambda>i. ds ! i = d) [0..<length ds] of
        Some i \<Rightarrow> (i + 1, ds)
      | None \<Rightarrow> if length ds < DEVICES then (length ds + 1, ds @ [d]) else (DEVICES, ds))"

lemma table_split:
  assumes "table_ok devs"
  shows "length (seen devs) \<le> DEVICES"
    and "i < length (seen devs) \<Longrightarrow> seen devs ! i = (dv_kind (devs ! i), dv_key (devs ! i)) \<and> dv_kind (devs ! i) \<noteq> 0"
    and "length (seen devs) \<le> i \<Longrightarrow> i < DEVICES \<Longrightarrow> dv_kind (devs ! i) = 0"
proof -
  let ?P = "\<lambda>d. dv_kind d \<noteq> 0"
  have l: "length (takeWhile ?P devs) + length (dropWhile ?P devs) = DEVICES"
    using assms by (metis table_ok_def length_append takeWhile_dropWhile_id)
  then show "length (seen devs) \<le> DEVICES" by (simp add: seen_def)
  show "i < length (seen devs) \<Longrightarrow> seen devs ! i = (dv_kind (devs ! i), dv_key (devs ! i)) \<and> dv_kind (devs ! i) \<noteq> 0"
    using set_takeWhileD [of "takeWhile ?P devs ! i" ?P devs] nth_mem [of i "takeWhile ?P devs"]
    by (simp add: seen_def takeWhile_nth)
  assume i: "length (seen devs) \<le> i" "i < DEVICES"
  have d: "devs ! i = (takeWhile ?P devs @ dropWhile ?P devs) ! i" by simp
  have "devs ! i = dropWhile ?P devs ! (i - length (seen devs))" "i - length (seen devs) < length (dropWhile ?P devs)"
    using i l unfolding d nth_append seen_def by auto
  then have "devs ! i \<in> set (dropWhile ?P devs)" by (metis nth_mem)
  then show "dv_kind (devs ! i) = 0" using assms unfolding table_ok_def by blast
qed

lemma device_found:
  assumes "table_ok devs" "kind \<noteq> 0"
  shows "find (\<lambda>i. dv_kind (devs ! i) = kind \<and> dv_key (devs ! i) = key) [0..<DEVICES]
    = find (\<lambda>i. seen devs ! i = (kind, key)) [0..<length (seen devs)]"
proof (cases "find (\<lambda>i. seen devs ! i = (kind, key)) [0..<length (seen devs)]")
  case None
  have "\<not> (dv_kind (devs ! i) = kind \<and> dv_key (devs ! i) = key)" if "i < DEVICES" for i
    using that table_split(2,3) [OF assms(1), of i] assms(2) None by (cases "i < length (seen devs)") (auto simp: find_upt_None)
  then show ?thesis unfolding None find_upt_None by blast
next
  case (Some i)
  have i: "i < length (seen devs)" "seen devs ! i = (kind, key)" and least: "\<forall>j < i. seen devs ! j \<noteq> (kind, key)"
    using find_upt_Some [OF Some] by auto
  have "\<not> (dv_kind (devs ! j) = kind \<and> dv_key (devs ! j) = key)" if "j < i" for j
    using that i(1) least table_split(2) [OF assms(1), of j] by auto
  then show ?thesis
    unfolding Some using i table_split(1) [OF assms(1)] table_split(2) [OF assms(1) i(1)]
    by (intro find_upt_least) auto
qed

lemma spare_found:
  assumes "table_ok devs"
  shows "find (\<lambda>i. dv_kind (devs ! i) = 0) [0..<DEVICES]
    = (if length (seen devs) < DEVICES then Some (length (seen devs)) else None)"
proof (cases "length (seen devs) < DEVICES")
  case True
  then have "find (\<lambda>i. dv_kind (devs ! i) = 0) [0..<DEVICES] = Some (length (seen devs))"
    using table_split(2,3) [OF assms] by (intro find_upt_least) auto
  with True show ?thesis by simp
next
  case False
  then show ?thesis using table_split(1,2) [OF assms] by (auto simp: find_upt_None)
qed

text \<open>What the table is after a slot not used is taken.\<close>

lemma device_added:
  assumes "table_ok devs" "length (seen devs) < DEVICES" "fst d \<noteq> 0" "d \<notin> set (seen devs)"
    and new: "devs' = devs[length (seen devs) := (devs ! length (seen devs))\<lparr>dv_kind := fst d, dv_key := snd d\<rparr>]"
  shows "table_ok devs' \<and> seen devs' = seen devs @ [d]"
proof -
  let ?P = "\<lambda>d. dv_kind d \<noteq> 0" and ?n = "length (seen devs)"
  have "dropWhile ?P devs \<noteq> []"
  proof
    assume "dropWhile ?P devs = []"
    then have "length (seen devs) = length devs" unfolding seen_def by (metis append_Nil2 length_map takeWhile_dropWhile_id)
    then show False using assms(1,2) by (simp add: table_ok_def)
  qed
  then obtain x rest where drop: "dropWhile ?P devs = x # rest" by (cases "dropWhile ?P devs") auto
  define y where "y = x\<lparr>dv_kind := fst d, dv_key := snd d\<rparr>"
  define T where "T = takeWhile ?P devs"
  have devs: "devs = T @ x # rest" using drop unfolding T_def by (metis takeWhile_dropWhile_id)
  have n: "?n = length T" by (simp add: seen_def T_def)
  have devs': "devs' = T @ y # rest"
    unfolding new n y_def by (simp add: devs list_update_append nth_append)
  have zero: "\<forall>e \<in> set (x # rest). dv_kind e = 0" using assms(1) drop by (simp add: table_ok_def)
  then have rest: "takeWhile ?P rest = []" using hd_in_set [of rest] unfolding takeWhile_eq_Nil_iff by fastforce
  then have rest': "dropWhile ?P rest = rest" using takeWhile_dropWhile_id [of ?P rest] by simp
  have tw: "takeWhile ?P devs' = T @ [y]" and dw: "dropWhile ?P devs' = rest"
    unfolding devs' using assms(3) rest rest'
    by (auto simp: y_def T_def takeWhile_append dropWhile_append dest: set_takeWhileD)
  have seen': "seen devs' = seen devs @ [d]" by (simp add: seen_def tw y_def T_def [symmetric])
  then have "distinct (seen devs')" using assms(1,4) by (simp add: table_ok_def)
  moreover have "length devs' = DEVICES" using assms(1) by (simp add: new table_ok_def)
  moreover have "\<forall>e \<in> set (dropWhile ?P devs'). dv_kind e = 0" unfolding dw using zero by simp
  ultimately show ?thesis using seen' unfolding table_ok_def by blast
qed

lemma find_nth_None: "find (\<lambda>i. ds ! i = d) [0..<length ds] = None \<longleftrightarrow> d \<notin> set ds"
  by (auto simp: find_upt_None in_set_conv_nth)

lemma device_table:
  assumes "table_ok devs" "kind \<noteq> 0" "host_gui_sdl3_device kind key devs = (n, devs')"
  shows "table_ok devs' \<and> device_spec (kind, key) (seen devs) = (n, seen devs')"
proof (cases "find (\<lambda>i. seen devs ! i = (kind, key)) [0..<length (seen devs)]")
  case (Some i)
  then show ?thesis
    using assms by (simp add: host_gui_sdl3_device_def device_found device_spec_def)
next
  case None
  then have new: "(kind, key) \<notin> set (seen devs)" by (simp add: find_nth_None)
  show ?thesis
  proof (cases "length (seen devs) < DEVICES")
    case True
    then have "n = length (seen devs) + 1"
      and "devs' = devs[length (seen devs) := (devs ! length (seen devs))\<lparr>dv_kind := kind, dv_key := key\<rparr>]"
      using assms None unfolding host_gui_sdl3_device_def device_found [OF assms(1,2)] spare_found [OF assms(1)] by auto
    then show ?thesis
      using device_added [OF assms(1) True _ new, of devs'] assms(2) True None unfolding device_spec_def by simp
  next
    case False
    with None assms show ?thesis
      by (simp add: host_gui_sdl3_device_def device_found device_spec_def spare_found)
  qed
qed

text \<open>The table of devices does what is promised: looked up, a device has the number it was first given, a new one the next number, and once there are sixteen a new one shares the last; the table stays a table.\<close>

theorem device_refines:
  assumes "table_ok devs" "kind \<noteq> 0" "host_gui_sdl3_device kind key devs = (n, devs')"
  shows "table_ok devs' \<and> device_spec (kind, key) (seen devs) = (n, seen devs')"
  by (rule device_table [OF assms])

lemma device_number:
  assumes "table_ok devs" "kind \<noteq> 0" "host_gui_sdl3_device kind key devs = (n, devs')"
  shows "1 \<le> n \<and> n \<le> DEVICES"
  using assms table_split(1) [OF assms(1)]
  by (auto simp: host_gui_sdl3_device_def device_found spare_found DEVICES_def split: option.splits if_splits dest!: find_upt_Some)

lemma table_ok0: "table_ok devices0"
  by (simp add: table_ok_def devices0_def seen_def device0_def)

text \<open>What goes on at a device does not change which it is.\<close>

lemma table_update:
  assumes "dv_kind dev = dv_kind (devs ! i)" "dv_key dev = dv_key (devs ! i)"
  shows "table_ok (devs[i := dev]) = table_ok devs" and "seen (devs[i := dev]) = seen devs"
proof -
  let ?f = "\<lambda>d. (dv_kind d, dv_key d)" and ?P = "\<lambda>p. fst p \<noteq> 0"
  have seen: "seen ds = takeWhile ?P (map ?f ds)" for ds
    by (simp add: seen_def takeWhile_map comp_def)
  have rest: "(\<forall>d \<in> set (dropWhile (\<lambda>d. dv_kind d \<noteq> 0) ds). dv_kind d = 0) = (\<forall>p \<in> set (dropWhile ?P (map ?f ds)). fst p = 0)" for ds
    by (simp add: dropWhile_map comp_def)
  have "map ?f (devs[i := dev]) = map ?f devs"
    using assms by (cases "i < length devs") (auto simp: nth_list_update intro!: nth_equalityI)
  then show "table_ok (devs[i := dev]) = table_ok devs" "seen (devs[i := dev]) = seen devs"
    unfolding table_ok_def rest seen by simp_all
qed

section \<open>The contacts of a device are a map from fingers to numbers\<close>

definition contact_ok :: "device \<Rightarrow> bool" where
  "contact_ok dev \<longleftrightarrow> length (dv_number dev) = CONTACTS \<and> length (dv_finger dev) = CONTACTS \<and> length (dv_down dev) = CONTACTS \<and>
     (\<forall>i < CONTACTS. \<forall>j < CONTACTS. dv_down dev ! i \<and> dv_down dev ! j \<and> dv_finger dev ! i = dv_finger dev ! j \<longrightarrow> i = j)"

definition numbers :: "device \<Rightarrow> u64 \<rightharpoonup> u32" where
  "numbers dev f = map_option (\<lambda>i. dv_number dev ! i) (contact_find f dev)"

text \<open>What is promised of a finger seen at, or lifted from, a panel.\<close>

definition contact_spec :: "u64 \<Rightarrow> bool \<Rightarrow> (u64 \<rightharpoonup> u32) \<times> u32 \<Rightarrow> u32 \<times> (u64 \<rightharpoonup> u32) \<times> u32" where
  "contact_spec f up = (\<lambda>(m, n). case m f of
       Some k \<Rightarrow> (k, if up then m(f := None) else m, n)
     | None \<Rightarrow> (n, if up then m else m(f \<mapsto> n), (n + 1) AND 0xffffff))"

definition room :: "device \<Rightarrow> bool" where
  "room dev \<longleftrightarrow> (\<exists>i < CONTACTS. \<not> dv_down dev ! i)"

lemma contact_find_iff:
  assumes "contact_ok dev"
  shows "contact_find f dev = Some i \<longleftrightarrow> i < CONTACTS \<and> dv_down dev ! i \<and> dv_finger dev ! i = f"
proof
  show "contact_find f dev = Some i \<Longrightarrow> i < CONTACTS \<and> dv_down dev ! i \<and> dv_finger dev ! i = f"
    using find_upt_Some unfolding contact_find_def by blast
  assume i: "i < CONTACTS \<and> dv_down dev ! i \<and> dv_finger dev ! i = f"
  then show "contact_find f dev = Some i"
    unfolding contact_find_def using assms unfolding contact_ok_def
    by (intro find_upt_least) (auto, metis less_trans nat_neq_iff)
qed

lemma contact_find_None:
  "contact_find f dev = None \<longleftrightarrow> (\<forall>i < CONTACTS. dv_down dev ! i \<longrightarrow> dv_finger dev ! i \<noteq> f)"
  unfolding contact_find_def find_upt_None by blast

lemma contact_spare_free:
  assumes "room dev"
  shows "contact_spare dev < CONTACTS \<and> \<not> dv_down dev ! contact_spare dev"
proof -
  obtain i where "find (\<lambda>i. \<not> dv_down dev ! i) [0..<CONTACTS] = Some i"
    using assms unfolding room_def find_upt_None [symmetric] by (metis find_upt_None option.exhaust)
  from find_upt_Some [OF this] this show ?thesis by (simp add: contact_spare_def)
qed

text \<open>Two devices with the same contacts down, told by their slots, are the same map.\<close>

lemma numbers_ext:
  assumes "contact_ok dev'"
    and "\<And>f. case m f of None \<Rightarrow> \<forall>i < CONTACTS. dv_down dev' ! i \<longrightarrow> dv_finger dev' ! i \<noteq> f
      | Some k \<Rightarrow> \<exists>i < CONTACTS. dv_down dev' ! i \<and> dv_finger dev' ! i = f \<and> dv_number dev' ! i = k"
  shows "numbers dev' = m"
proof
  fix f
  show "numbers dev' f = m f"
    using assms(2) [of f] contact_find_iff [OF assms(1), of f] contact_find_None [of f dev']
    by (cases "m f") (auto simp: numbers_def)
qed

lemma numbers_cases:
  assumes "contact_ok dev"
  shows "case numbers dev f of None \<Rightarrow> \<forall>i < CONTACTS. dv_down dev ! i \<longrightarrow> dv_finger dev ! i \<noteq> f
      | Some k \<Rightarrow> \<exists>i < CONTACTS. dv_down dev ! i \<and> dv_finger dev ! i = f \<and> dv_number dev ! i = k"
  using contact_find_iff [OF assms, of f] contact_find_None [of f dev]
  by (cases "contact_find f dev") (auto simp: numbers_def)

text \<open>A contact that is down is told again, or lifts.\<close>

lemma contact_set_spec:
  assumes "contact_ok dev" "i < CONTACTS" "dv_down dev ! i" "contact_set up i dev = (k, dev')"
  shows "contact_ok dev' \<and> k = dv_number dev ! i \<and> dv_next dev' = dv_next dev \<and>
    numbers dev' = (if up then (numbers dev)(dv_finger dev ! i := None) else numbers dev)"
proof -
  let ?f = "dv_finger dev ! i"
  have dev': "dev' = dev\<lparr>dv_down := (dv_down dev)[i := \<not> up]\<rparr>" and k: "k = dv_number dev ! i"
    using assms(4) by (auto simp: contact_set_def)
  have same: "dv_finger dev' = dv_finger dev" "dv_number dev' = dv_number dev" "length (dv_down dev') = length (dv_down dev)"
    by (simp_all add: dev')
  have "length (dv_down dev) = CONTACTS" using assms(1) by (simp add: contact_ok_def)
  then have down: "dv_down dev' ! j \<longleftrightarrow> (if j = i then \<not> up else dv_down dev ! j)" for j
    using assms(2) by (simp add: dev' nth_list_update_if)
  have ok: "contact_ok dev'"
    using assms(1,3) down unfolding contact_ok_def by (auto simp: same split: if_splits)
  have "numbers dev' = (if up then (numbers dev)(?f := None) else numbers dev)"
  proof (rule numbers_ext [OF ok])
    fix f
    have only: "j = i" if "j < CONTACTS" "dv_down dev ! j" "dv_finger dev ! j = ?f" for j
      using that assms(1-3) unfolding contact_ok_def by blast
    show "case (if up then (numbers dev)(?f := None) else numbers dev) f of
        None \<Rightarrow> \<forall>i < CONTACTS. dv_down dev' ! i \<longrightarrow> dv_finger dev' ! i \<noteq> f
      | Some k \<Rightarrow> \<exists>i < CONTACTS. dv_down dev' ! i \<and> dv_finger dev' ! i = f \<and> dv_number dev' ! i = k"
      using numbers_cases [OF assms(1), of f] only assms(2,3)
      by (cases "f = ?f") (auto simp: down same split: option.splits, metis)
  qed
  then show ?thesis using ok k by (simp add: dev')
qed

text \<open>A contact that is not down lands in a slot that is free. With \<open>up\<close> it has gone at once.\<close>

lemma contact_land_spec:
  assumes "contact_ok dev" "contact_find f dev = None" "i < CONTACTS" "\<not> dv_down dev ! i"
    "contact_set up i (contact_land f i dev) = (k, dev')"
  shows "contact_ok dev' \<and> k = dv_next dev \<and> dv_next dev' = (dv_next dev + 1) AND 0xffffff \<and>
    numbers dev' = (if up then numbers dev else (numbers dev)(f \<mapsto> dv_next dev))"
proof -
  have len: "length (dv_number dev) = CONTACTS" "length (dv_finger dev) = CONTACTS" "length (dv_down dev) = CONTACTS"
    using assms(1) by (simp_all add: contact_ok_def)
  have dev': "dev' = contact_land f i dev\<lparr>dv_down := (dv_down dev)[i := \<not> up]\<rparr>" and k: "k = dv_next dev"
    using assms(3,5) len by (auto simp: contact_set_def contact_land_def)
  have down: "dv_down dev' ! j \<longleftrightarrow> (if j = i then \<not> up else dv_down dev ! j)"
    and fing: "dv_finger dev' ! j = (if j = i then f else dv_finger dev ! j)"
    and num: "dv_number dev' ! j = (if j = i then dv_next dev else dv_number dev ! j)" for j
    using assms(3) len by (simp_all add: dev' contact_land_def nth_list_update_if)
  have len': "length (dv_number dev') = CONTACTS" "length (dv_finger dev') = CONTACTS" "length (dv_down dev') = CONTACTS"
    using len by (simp_all add: dev' contact_land_def)
  have other: "dv_finger dev ! j \<noteq> f" if "j < CONTACTS" "dv_down dev ! j" for j
    using that assms(2) unfolding contact_find_None by blast
  have ok: "contact_ok dev'"
    unfolding contact_ok_def
  proof (intro conjI allI impI len')
    fix j l assume jl: "j < CONTACTS" "l < CONTACTS"
      "dv_down dev' ! j \<and> dv_down dev' ! l \<and> dv_finger dev' ! j = dv_finger dev' ! l"
    have "dv_down dev ! j \<and> dv_down dev ! l \<and> dv_finger dev ! j = dv_finger dev ! l \<longrightarrow> j = l"
      using jl(1,2) assms(1) unfolding contact_ok_def by blast
    then show "j = l"
      using jl other [of j] other [of l] unfolding down fing by (cases "j = i"; cases "l = i") auto
  qed
  have "numbers dev' = (if up then numbers dev else (numbers dev)(f \<mapsto> dv_next dev))"
  proof (rule numbers_ext [OF ok])
    fix g
    have none: "numbers dev f = None" using assms(2) by (simp add: numbers_def)
    show "case (if up then numbers dev else (numbers dev)(f \<mapsto> dv_next dev)) g of
        None \<Rightarrow> \<forall>i < CONTACTS. dv_down dev' ! i \<longrightarrow> dv_finger dev' ! i \<noteq> g
      | Some k \<Rightarrow> \<exists>i < CONTACTS. dv_down dev' ! i \<and> dv_finger dev' ! i = g \<and> dv_number dev' ! i = k"
      using numbers_cases [OF assms(1), of g] other assms(3,4) none
      by (cases "g = f") (auto simp: down fing num split: option.splits, metis+)
  qed
  then show ?thesis using ok k by (simp add: dev' contact_land_def)
qed

lemma contact_map:
  assumes "contact_ok dev" "f \<in> dom (numbers dev) \<or> room dev" "device_contact f up dev = (k, dev')"
  shows "contact_ok dev' \<and> contact_spec f up (numbers dev, dv_next dev) = (k, numbers dev', dv_next dev')"
proof (cases "contact_find f dev")
  case (Some i)
  then have "i < CONTACTS \<and> dv_down dev ! i \<and> dv_finger dev ! i = f" using contact_find_iff [OF assms(1)] by simp
  moreover have "contact_set up i dev = (k, dev')" using assms(3) Some by (simp add: device_contact_def)
  ultimately show ?thesis
    using contact_set_spec [OF assms(1), of i up k dev'] Some by (auto simp: contact_spec_def numbers_def)
next
  case None
  then have "room dev" using assms(2) by (auto simp: numbers_def)
  then have "contact_spare dev < CONTACTS" "\<not> dv_down dev ! contact_spare dev" using contact_spare_free by auto
  moreover have "contact_set up (contact_spare dev) (contact_land f (contact_spare dev) dev) = (k, dev')"
    using assms(3) None by (simp add: device_contact_def Let_def)
  moreover have "numbers dev f = None" using None by (simp add: numbers_def)
  ultimately show ?thesis
    using contact_land_spec [OF assms(1) None, of "contact_spare dev" up k dev'] by (auto simp: contact_spec_def)
qed


lemma contact_ok0: "contact_ok device0" "numbers device0 = Map.empty" "dv_next device0 = 0"
  by (auto simp: contact_ok_def device0_def numbers_def contact_find_def find_None_iff intro!: ext)

text \<open>There is a slot free while no more than 31 fingers are down.\<close>

lemma room_card:
  assumes "contact_ok dev" "card (dom (numbers dev)) < CONTACTS"
  shows "room dev"
proof (rule ccontr)
  assume "\<not> room dev"
  then have down: "\<forall>i < CONTACTS. dv_down dev ! i" by (simp add: room_def)
  have "inj_on (\<lambda>i. dv_finger dev ! i) {..<CONTACTS}"
    using assms(1) down by (auto simp: contact_ok_def inj_on_def)
  moreover have "(\<lambda>i. dv_finger dev ! i) ` {..<CONTACTS} \<subseteq> dom (numbers dev)"
    using down contact_find_iff [OF assms(1)] by (auto simp: numbers_def dom_def)
  moreover have "finite (dom (numbers dev))"
  proof (rule finite_subset)
    show "dom (numbers dev) \<subseteq> (\<lambda>i. dv_finger dev ! i) ` {..<CONTACTS}"
      using contact_find_iff [OF assms(1)] by (force simp: numbers_def dom_def)
  qed simp
  ultimately have "card {..<CONTACTS} \<le> card (dom (numbers dev))" by (metis card_image card_mono)
  then show False using assms(2) by simp
qed

section \<open>A panel, touch after touch\<close>

text \<open>What is seen of a panel, each a finger and whether it lifts, and the number given each time.\<close>

fun contact_run :: "device \<Rightarrow> (u64 \<times> bool) list \<Rightarrow> u32 list \<times> device" where
  "contact_run dev [] = ([], dev)"
| "contact_run dev ((f, up) # fus) = (case device_contact f up dev of (k, dev) \<Rightarrow>
     (case contact_run dev fus of (ks, dev) \<Rightarrow> (k # ks, dev)))"

definition fingers_down :: "(u64 \<times> bool) list \<Rightarrow> u64 set" where
  "fingers_down fus = fold (\<lambda>(f, up) S. if up then S - {f} else insert f S) fus {}"

text \<open>The touch that was seen at \<open>i\<close> has not lifted by \<open>j\<close>.\<close>

definition still_down :: "(u64 \<times> bool) list \<Rightarrow> nat \<Rightarrow> nat \<Rightarrow> bool" where
  "still_down fus i j \<longleftrightarrow> (\<forall>l. i \<le> l \<and> l < j \<and> fst (fus ! l) = fst (fus ! i) \<longrightarrow> \<not> snd (fus ! l))"

definition touch_inv :: "(u64 \<times> bool) list \<Rightarrow> u32 list \<Rightarrow> device \<Rightarrow> bool" where
  "touch_inv p ks dev \<longleftrightarrow> contact_ok dev \<and> length ks = length p \<and> dom (numbers dev) = fingers_down p \<and>
     ran (numbers dev) \<subseteq> set ks \<and> unat (dv_next dev) \<le> length p \<and> (\<forall>k \<in> set ks. k < dv_next dev) \<and>
     (\<forall>i < length p. still_down p i (length p) \<longrightarrow> numbers dev (fst (p ! i)) = Some (ks ! i))"

lemma fingers_down_simps [simp]:
  "fingers_down [] = {}"
  "fingers_down (p @ [(f, up)]) = (if up then fingers_down p - {f} else insert f (fingers_down p))"
  by (simp_all add: fingers_down_def)

lemma contact_run_append:
  "contact_run dev (p @ q) = (case contact_run dev p of (ks, dev) \<Rightarrow> (case contact_run dev q of (ls, dev) \<Rightarrow> (ks @ ls, dev)))"
  by (induction dev p rule: contact_run.induct) (auto split: prod.splits)

lemma next_number:
  assumes "unat (n :: u32) < 2 ^ 24 - 1"
  shows "unat ((n + 1) AND 0xffffff) = unat n + 1"
proof -
  have "(0xffffff :: u32) = mask 24" by (simp add: mask_eq_exp_minus_1)
  then have "(n + 1) AND 0xffffff = take_bit 24 (n + 1)" by (simp only: take_bit_eq_mask)
  then have "unat ((n + 1) AND 0xffffff) = take_bit 24 (unat (n + 1))" by (simp only: unsigned_take_bit_eq)
  then have "unat ((n + 1) AND 0xffffff) = unat (n + 1) mod 2 ^ 24" by (simp only: take_bit_eq_mod)
  moreover have "unat (n + 1) = unat n + 1" using assms by (simp add: unat_word_ariths)
  ultimately show ?thesis using assms by simp
qed

lemma still_down_snoc:
  assumes "i \<le> length p"
  shows "still_down (p @ [(f, up)]) i (Suc (length p)) \<longleftrightarrow>
    (if i = length p then \<not> up else still_down p i (length p) \<and> (fst (p ! i) = f \<longrightarrow> \<not> up))"
  using assms by (auto simp: still_down_def nth_append less_Suc_eq)

text \<open>One more contact.\<close>

lemma touch_step:
  assumes inv: "touch_inv p ks dev" and l: "length p < 2 ^ 24 - 1"
    and r: "f \<in> fingers_down p \<or> card (fingers_down p) < CONTACTS"
    and c: "device_contact f up dev = (k, dev')"
  shows "touch_inv (p @ [(f, up)]) (ks @ [k]) dev' \<and> (f \<notin> fingers_down p \<longrightarrow> (\<forall>k' \<in> set ks. k' < k)) \<and>
    (\<forall>i < length p. fst (p ! i) = f \<and> still_down p i (length p) \<longrightarrow> ks ! i = k)"
proof -
  let ?m = "numbers dev"
  have ok: "contact_ok dev" and dom: "dom ?m = fingers_down p" and nx: "unat (dv_next dev) < 2 ^ 24 - 1"
    and lt: "\<forall>k \<in> set ks. k < dv_next dev" and ran: "ran ?m \<subseteq> set ks"
    using inv l by (auto simp: touch_inv_def)
  note step = contact_map [OF ok _ c] and n1 = next_number [OF nx]
  have more: "dv_next dev < (dv_next dev + 1) AND 0xffffff" using n1 by (simp add: word_less_nat_alt)
  have "f \<in> dom ?m \<or> room dev" using r room_card [OF ok] dom by auto
  from step [OF this] have ok': "contact_ok dev'"
    and spec: "contact_spec f up (?m, dv_next dev) = (k, numbers dev', dv_next dev')" by auto
  show ?thesis
  proof (cases "?m f")
    case None
    then have k: "k = dv_next dev" "dv_next dev' = (dv_next dev + 1) AND 0xffffff"
      and m': "numbers dev' = (if up then ?m else ?m(f \<mapsto> k))" using spec by (auto simp: contact_spec_def)
    have f: "f \<notin> fingers_down p" using None dom by auto
    have new: "\<not> still_down p i (length p)" if "i < length p" "fst (p ! i) = f" for i
      using that inv None by (auto simp: touch_inv_def)
    have "touch_inv (p @ [(f, up)]) (ks @ [k]) dev'"
      using inv ok' lt more f new n1 ran None
      by (auto simp: touch_inv_def k m' still_down_snoc nth_append less_Suc_eq ran_def split: if_splits
          intro: less_trans)
    then show ?thesis using lt new by (auto simp: k)
  next
    case (Some n)
    then have k: "k = n" "dv_next dev' = dv_next dev" and m': "numbers dev' = (if up then ?m(f := None) else ?m)"
      using spec by (auto simp: contact_spec_def)
    have f: "f \<in> fingers_down p" "n \<in> set ks" using Some dom ran by (auto simp: ran_def)
    have "touch_inv (p @ [(f, up)]) (ks @ [k]) dev'"
      using inv ok' lt f ran Some
      by (auto simp: touch_inv_def k m' still_down_snoc nth_append less_Suc_eq ran_def split: if_splits)
    then show ?thesis using inv f Some by (auto simp: k touch_inv_def)
  qed
qed

text \<open>There is room for every finger that lands.\<close>

definition few_fingers :: "(u64 \<times> bool) list \<Rightarrow> bool" where
  "few_fingers fus \<longleftrightarrow> (\<forall>j < length fus. fst (fus ! j) \<in> fingers_down (take j fus) \<or> card (fingers_down (take j fus)) < CONTACTS)"

definition fresh :: "device \<Rightarrow> bool" where
  "fresh dev \<longleftrightarrow> contact_ok dev \<and> numbers dev = Map.empty \<and> dv_next dev = 0"

lemma few_fingers_snoc:
  "few_fingers (p @ [(f, up)]) \<longleftrightarrow> few_fingers p \<and> (f \<in> fingers_down p \<or> card (fingers_down p) < CONTACTS)"
  by (auto simp: few_fingers_def nth_append less_Suc_eq)

lemma touch_run:
  assumes "fresh dev" "few_fingers p" "length p < 2 ^ 24" "contact_run dev p = (ks, dev')"
  shows "touch_inv p ks dev' \<and> (\<forall>j < length p.
    (fst (p ! j) \<notin> fingers_down (take j p) \<longrightarrow> (\<forall>i < j. ks ! i < ks ! j)) \<and>
    (\<forall>i < j. fst (p ! i) = fst (p ! j) \<and> still_down p i j \<longrightarrow> ks ! i = ks ! j))"
  using assms(2-)
proof (induction p arbitrary: ks dev' rule: rev_induct)
  case Nil
  then show ?case using assms(1) by (simp add: touch_inv_def fresh_def)
next
  case (snoc e p)
  obtain f up where e: "e = (f, up)" by (cases e)
  obtain ks0 dev0 where p: "contact_run dev p = (ks0, dev0)" by (cases "contact_run dev p")
  obtain k dev1 where c: "device_contact f up dev0 = (k, dev1)" by (cases "device_contact f up dev0")
  have out: "ks = ks0 @ [k]" "dev' = dev1" using snoc.prems(3) p c by (simp_all add: e contact_run_append)
  have few: "few_fingers p" "f \<in> fingers_down p \<or> card (fingers_down p) < CONTACTS"
    using snoc.prems(1) by (simp_all add: e few_fingers_snoc)
  have l: "length p < 2 ^ 24 - 1" using snoc.prems(2) by simp
  then have ih: "touch_inv p ks0 dev0" "\<And>j. j < length p \<Longrightarrow>
      (fst (p ! j) \<notin> fingers_down (take j p) \<longrightarrow> (\<forall>i < j. ks0 ! i < ks0 ! j)) \<and>
      (\<forall>i < j. fst (p ! i) = fst (p ! j) \<and> still_down p i j \<longrightarrow> ks0 ! i = ks0 ! j)"
    using snoc.IH [OF few(1) _ p] by auto
  note step = touch_step [OF ih(1) l few(2) c]
  have len: "length ks0 = length p" using ih(1) by (simp add: touch_inv_def)
  have sd: "still_down (p @ [e]) i j = still_down p i j" if "i < j" "j \<le> length p" for i j
    using that by (auto simp: still_down_def nth_append)
  show ?case
    using step ih(2) len sd by (auto simp: out e nth_append less_Suc_eq)
qed

text \<open>Of a panel, from the start and for as long as the count does not go round: a finger that lands is given a bigger number than any given before it, and as long as a touch has not lifted, and when it lifts, it is told with one number.\<close>

theorem later_touch_bigger:
  assumes "fresh dev" "few_fingers fus" "length fus < 2 ^ 24" "contact_run dev fus = (ks, dev')" "j < length fus"
  shows "(fst (fus ! j) \<notin> fingers_down (take j fus) \<longrightarrow> (\<forall>i < j. ks ! i < ks ! j)) \<and>
    (\<forall>i < j. fst (fus ! i) = fst (fus ! j) \<and> still_down fus i j \<longrightarrow> ks ! i = ks ! j)"
  using touch_run [OF assms(1-4)] assms(5) by blast+

theorem later_touch_bigger_witness:
  "fst (contact_run device0 [(7, False), (9, False), (7, True), (7, False)]) ! 2 = 0 \<and>
   fst (contact_run device0 [(7, False), (9, False), (7, True), (7, False)]) ! 1
     < fst (contact_run device0 [(7, False), (9, False), (7, True), (7, False)]) ! 3"
proof -
  let ?fus = "[(7, False), (9, False), (7, True), (7, False)] :: (u64 \<times> bool) list"
  obtain ks dev' where run: "contact_run device0 ?fus = (ks, dev')" by (cases "contact_run device0 ?fus")
  have fresh: "fresh device0" using contact_ok0 by (simp add: fresh_def)
  have few: "few_fingers ?fus"
    by (auto simp: few_fingers_def fingers_down_def CONTACTS_def less_Suc_eq)
  note h = later_touch_bigger [OF fresh few _ run]
  have "\<forall>i < 2. fst (?fus ! i) = fst (?fus ! 2) \<and> still_down ?fus i 2 \<longrightarrow> ks ! i = ks ! 2"
    using h [of 2] by simp
  moreover have "still_down ?fus 0 2" by (auto simp: still_down_def less_2_cases_iff)
  ultimately have "ks ! 0 = ks ! 2" by auto
  moreover have "ks ! 0 = 0"
    using run by (auto simp: device_contact_def contact_set_def device0_def CONTACTS_def contact_find_def
        contact_spare_def contact_land_def Let_def upt_rec split: prod.splits)
  moreover have "\<forall>i < 3. ks ! i < ks ! 3" using h [of 3] by (simp add: fingers_down_def numeral_3_eq_3)
  ultimately show ?thesis using run by simp
qed

section \<open>The table of pens\<close>

text \<open>A pen that was seen keeps its slot, and what it was pressed with; a new one starts at nothing.
  Slots of other pens stay as they were, but for the first when there are more than eight.\<close>

lemma pen_slot:
  assumes "length pens = PENS" "host_gui_sdl3_pen i pens = (k, pens')"
  shows "k < PENS \<and> length pens' = PENS \<and> pn_id (pens' ! k) = i \<and> (\<forall>j. j \<noteq> k \<longrightarrow> pens' ! j = pens ! j) \<and>
    (pens' ! k = pens ! k \<or> pn_pressure (pens' ! k) = 0)"
proof (cases "find (\<lambda>k. pn_id (pens ! k) = i) [0..<PENS]")
  case None
  define spare where "spare = (case find (\<lambda>k. pn_id (pens ! k) = 0) (rev [0..<PENS]) of Some k \<Rightarrow> k | None \<Rightarrow> 0)"
  have "set (rev [0..<PENS]) = {..<PENS}" by auto
  then have "spare < PENS"
    by (auto simp: spare_def find_Some_iff PENS_def split: option.splits) (metis less_irrefl nth_mem set_rev set_upt atLeastLessThan_iff length_rev length_upt diff_zero)
  then show ?thesis
    using None assms by (auto simp: host_gui_sdl3_pen_def spare_def [symmetric])
next
  case (Some m)
  then show ?thesis using find_upt_Some [OF Some] assms by (auto simp: host_gui_sdl3_pen_def)
qed

section \<open>The properties at work\<close>

theorem device_refines_witness:
  "fst (host_gui_sdl3_device DEVICE_PEN 5 devices0) = 1 \<and> seen (snd (host_gui_sdl3_device DEVICE_PEN 5 devices0)) = [(2, 5)]"
proof -
  obtain n devs' where d: "host_gui_sdl3_device DEVICE_PEN 5 devices0 = (n, devs')" by (cases "host_gui_sdl3_device DEVICE_PEN 5 devices0")
  have "seen devices0 = []" by (simp add: seen_def devices0_def device0_def)
  then show ?thesis
    using device_refines [OF table_ok0 _ d] unfolding d by (auto simp: device_spec_def DEVICE_PEN_def DEVICES_def)
qed


end
