(* ===== verification/Event_Queue.thy ===== *)
theory Event_Queue
  imports Prelude
begin

text \<open>
  What the GUI service is promised of the polls of a driver: a poll answers whether there is an
  event, with a handle it gives the first of those to come, and with none it gives nothing and
  loses nothing. The events to come are those of what the window system has got, each in turn.
\<close>

section \<open>A run of polls\<close>

text \<open>Each poll has a handle or none, and finds what the window system got since the last. The events
  that were written to handles, in order.\<close>

fun poll_run :: "(bool \<Rightarrow> 'a list \<Rightarrow> 's \<Rightarrow> 'e option \<times> u64 \<times> 's) \<Rightarrow> (bool \<times> 'a list) list \<Rightarrow> 's \<Rightarrow> 'e list \<times> 's" where
  "poll_run poll [] s = ([], s)"
| "poll_run poll ((h, got) # cs) s = (case poll h got s of (ev, _, s) \<Rightarrow>
     (case poll_run poll cs s of (evs, s) \<Rightarrow> (case ev of None \<Rightarrow> evs | Some e \<Rightarrow> e # evs, s)))"

section \<open>The contract\<close>

text \<open>\<open>come s\<close> are the events to come and \<open>final s\<close> is the state of the translation after them;
  \<open>trans got st\<close> is what the events the window system got are to the service.\<close>

locale event_queue =
  fixes poll :: "bool \<Rightarrow> 'a list \<Rightarrow> 's \<Rightarrow> 'e option \<times> u64 \<times> 's"
    and come :: "'s \<Rightarrow> 'e list"
    and final :: "'s \<Rightarrow> 'st"
    and trans :: "'a list \<Rightarrow> 'st \<Rightarrow> 'e list \<times> 'st"
  assumes trans_Nil: "trans [] st = ([], st)"
    and trans_append: "trans (q @ r) st = (case trans q st of (es, st) \<Rightarrow> (case trans r st of (fs, st) \<Rightarrow> (es @ fs, st)))"
    and poll_none: "come s = [] \<Longrightarrow> trans got (final s) = ([], st) \<Longrightarrow>
      \<exists>s'. poll h got s = (None, 0, s') \<and> come s' = [] \<and> final s' = st"
    and poll_some: "come s @ fst (trans got (final s)) = e # es \<Longrightarrow>
      \<exists>s'. poll h got s = (if h then Some e else None, 1, s') \<and> come s' = (if h then es else e # es) \<and>
        final s' = snd (trans got (final s))"
begin

lemma poll_step:
  assumes "poll h got s = (ev, n, s')"
  shows "(case ev of None \<Rightarrow> come s' | Some e \<Rightarrow> e # come s') = come s @ fst (trans got (final s))"
    and "final s' = snd (trans got (final s))"
    and "n = (if come s @ fst (trans got (final s)) = [] then 0 else 1)"
    and "ev \<noteq> None \<longleftrightarrow> h \<and> n = 1"
proof -
  have "(case ev of None \<Rightarrow> come s' | Some e \<Rightarrow> e # come s') = come s @ fst (trans got (final s)) \<and>
    final s' = snd (trans got (final s)) \<and> n = (if come s @ fst (trans got (final s)) = [] then 0 else 1) \<and>
    (ev \<noteq> None \<longleftrightarrow> h \<and> n = 1)"
  proof (cases "come s @ fst (trans got (final s))")
    case Nil
    then show ?thesis
      using poll_none [of s got "snd (trans got (final s))" h] assms by (cases "trans got (final s)") auto
  next
    case (Cons e es)
    then show ?thesis using poll_some [OF Cons, of h] assms by (auto split: if_splits)
  qed
  then show "(case ev of None \<Rightarrow> come s' | Some e \<Rightarrow> e # come s') = come s @ fst (trans got (final s))"
    "final s' = snd (trans got (final s))" "n = (if come s @ fst (trans got (final s)) = [] then 0 else 1)"
    "ev \<noteq> None \<longleftrightarrow> h \<and> n = 1"
    by blast+
qed

text \<open>Each event once, in order: what was given and what is to come is all there was.\<close>

lemma given_in_order:
  "poll_run poll cs s = (evs, s') \<Longrightarrow>
     evs @ come s' = come s @ fst (trans (concat (map snd cs)) (final s)) \<and>
     final s' = snd (trans (concat (map snd cs)) (final s))"
proof (induction cs arbitrary: s evs s')
  case Nil
  then show ?case by (simp add: trans_Nil)
next
  case (Cons c cs)
  obtain h got where c: "c = (h, got)" by (cases c)
  obtain ev n t where p: "poll h got s = (ev, n, t)" by (cases "poll h got s")
  obtain fs u where r: "poll_run poll cs t = (fs, u)" by (cases "poll_run poll cs t")
  have out: "evs = (case ev of None \<Rightarrow> fs | Some e \<Rightarrow> e # fs)" "s' = u" using Cons.prems by (simp_all add: c p r)
  have "trans (concat (map snd (c # cs))) (final s)
      = (fst (trans got (final s)) @ fst (trans (concat (map snd cs)) (final t)), snd (trans (concat (map snd cs)) (final t)))"
    using poll_step(2) [OF p] by (simp add: c trans_append split: prod.splits)
  then show ?case
    using Cons.IH [OF r] poll_step(1) [OF p] by (auto simp: out split: option.splits)
qed

end

end
