(* ===== verification/Sdl_Events.thy ===== *)
theory Sdl_Events
  imports Pointers Event_Queue Ieee
begin

text \<open>
  The events of SDL3 and SDL2 as the events of a GUI driver, \<^verbatim>\<open>src/src/host/gui_sdl3_event.h\<close>,
  \<^verbatim>\<open>src/src/host/gui_sdl2_event.h\<close> and \<^verbatim>\<open>src/src/host/gui_event.h\<close>. SDL's queue is a list of its
  events, each with what SDL answers while that event is handled. What the GUI service is promised
  of a poll is the locale \<open>event_queue\<close>: each event once, in order, whatever is asked in between.
\<close>

section \<open>An event of the GUI service\<close>

datatype event_type = Ev_none | Ev_quit | Ev_shown | Ev_resized | Ev_key_down | Ev_key_up
  | Ev_mouse_motion | Ev_mouse_down | Ev_mouse_up | Ev_mouse_wheel
  | Ev_pointer_down | Ev_pointer_motion | Ev_pointer_up

datatype pointer_kind = Kind_mouse | Kind_pen | Kind_eraser | Kind_touch

record host_event =
  ge_type :: event_type
  ge_x :: u32
  ge_y :: u32
  ge_buttons :: u32
  ge_count :: u32
  ge_scode :: u32
  ge_direction :: u32
  ge_id :: u32
  ge_kind :: pointer_kind
  ge_pressure :: u32

text \<open>\<open>memset(out, 0, sizeof(host_gui_event))\<close>\<close>

definition event0 :: host_event where
  "event0 = \<lparr>ge_type = Ev_none, ge_x = 0, ge_y = 0, ge_buttons = 0, ge_count = 0, ge_scode = 0, ge_direction = 0,
     ge_id = 0, ge_kind = Kind_mouse, ge_pressure = 0\<rparr>"

definition buttons_left :: u32 where "buttons_left = 1"
definition buttons_middle :: u32 where "buttons_middle = 2"
definition buttons_right :: u32 where "buttons_right = 4"

section \<open>What SDL3 tells\<close>

text \<open>The ids that SDL keeps for a finger made of a pen or the mouse, and for a mouse made of a finger or
  a pen, are constructors of their own, as are the bits of the state of a pen that are looked at.\<close>

datatype touch_id = Touch_pen | Touch_mouse | Touch_panel u64
datatype mouse_id = Mouse_touch | Mouse_pen | Mouse_other u32
datatype finger_phase = Finger_down | Finger_motion | Finger_up | Finger_canceled

record pen_state =
  ps_down :: bool
  ps_button_1 :: bool
  ps_button_2 :: bool
  ps_eraser :: bool

text \<open>Floats are their bits. A wheel has whole steps from SDL 3.4 on, and float amounts before.\<close>

datatype sdl3_event =
    Quit3
  | Window_resized u32 u32
  | Window_shown
  | Window_restored
  | Key3 bool u32
  | Finger finger_phase touch_id u64 u32 u32 u32 u32
  | Pen_touch bool u32 pen_state u32 u32
  | Pen_motion u32 pen_state u32 u32
  | Pen_button u32 pen_state u32 u32
  | Pen_axis bool u32 pen_state u32 u32 u32
  | Mouse_motion mouse_id u32 u32 u32
  | Mouse_button bool mouse_id u32 u32 u32 u32
  | Mouse_wheel u32 u32 u32 u32 u32
  | Other3

text \<open>What SDL answers while an event is handled. A window is a number.\<close>

record sdl_now =
  now_ticks :: u64
  now_direct :: "u64 \<Rightarrow> bool"
  now_window :: "u32 \<Rightarrow> nat option"
  now_focus :: "nat option"
  now_size :: "nat \<Rightarrow> u32 \<times> u32"

text \<open>What the machine does where C++ leaves it open: a NaN an operation makes, and a float that is out
  of range of the integer it is made.\<close>

record machine =
  mc_fpu :: fpu
  mc_int32 :: "u32 \<Rightarrow> u32"
  mc_uint32 :: "u32 \<Rightarrow> u32"

definition f32_to_int32 :: "machine \<Rightarrow> u32 \<Rightarrow> u32" where
  "f32_to_int32 mc w = (case f32 w of
       Fin s m e \<Rightarrow> (let k = fin_trunc s m e in if - (2 ^ 31) \<le> k \<and> k < 2 ^ 31 then word_of_int k else mc_int32 mc w)
     | _ \<Rightarrow> mc_int32 mc w)"

definition f32_to_uint32 :: "machine \<Rightarrow> u32 \<Rightarrow> u32" where
  "f32_to_uint32 mc w = (case f32 w of
       Fin s m e \<Rightarrow> (let k = fin_trunc s m e in if 0 \<le> k \<and> k < 2 ^ 32 then word_of_int k else mc_uint32 mc w)
     | _ \<Rightarrow> mc_uint32 mc w)"

text \<open>The statics of the driver, and what is set for good: the version of SDL it is built with and whether
  \<^verbatim>\<open>CL_TOUCH_TRACKPAD\<close> is set.\<close>

record sdl3 =
  s3_machine :: machine
  s3_340 :: bool
  s3_trackpad :: bool
  s3_wheel :: u32
  s3_fingers :: bool
  s3_pens_seen :: bool
  s3_devices :: "device list"
  s3_pad_last :: u64
  s3_pens :: "pen list"

section \<open>An event of SDL3 as an event of the service\<close>

definition pen_event :: "event_type \<Rightarrow> u32 \<Rightarrow> pen_state \<Rightarrow> u32 \<Rightarrow> u32 \<Rightarrow> sdl3 \<Rightarrow> host_event \<times> sdl3" where
  "pen_event type which st x y s =
     (case host_gui_sdl3_device DEVICE_PEN (ucast which) (s3_devices s) of (d, devs) \<Rightarrow>
        let i = push_bit 24 (word_of_nat d) in
        (case host_gui_sdl3_pen i (s3_pens s) of (k, pens) \<Rightarrow>
          let pressure = pn_pressure (pens ! k);
              buttons = (if \<not> ps_down st then 0 else if ps_button_1 st then buttons_right
                         else if ps_button_2 st then buttons_middle else buttons_left) in
          (event0\<lparr>ge_type := type, ge_x := f32_to_int32 (s3_machine s) x, ge_y := f32_to_int32 (s3_machine s) y,
             ge_id := i, ge_kind := (if ps_eraser st then Kind_eraser else Kind_pen), ge_buttons := buttons,
             ge_pressure := (if buttons \<noteq> 0 then (if pressure \<noteq> 0 then pressure else 65535) else 0)\<rparr>,
           s\<lparr>s3_devices := devs, s3_pens := pens, s3_pens_seen := True\<rparr>)))"

text \<open>How hard a pen is pressed is kept in its slot.\<close>

definition pen_press :: "u32 \<Rightarrow> u32 \<Rightarrow> sdl3 \<Rightarrow> sdl3" where
  "pen_press which value s =
     (case host_gui_sdl3_device DEVICE_PEN (ucast which) (s3_devices s) of (d, devs) \<Rightarrow>
        (case host_gui_sdl3_pen (push_bit 24 (word_of_nat d)) (s3_pens s) of (k, pens) \<Rightarrow>
          s\<lparr>s3_devices := devs, s3_pens := pens[k := (pens ! k)\<lparr>pn_pressure :=
              f32_to_uint32 (s3_machine s) (f32_mul (mc_fpu (s3_machine s)) value (f32_of_int 65535))\<rparr>]\<rparr>))"

definition finger_window :: "sdl_now \<Rightarrow> u32 \<Rightarrow> nat option" where
  "finger_window now w = (case now_window now w of None \<Rightarrow> now_focus now | Some v \<Rightarrow> Some v)"

definition finger_pressure :: "finger_phase \<Rightarrow> u32 \<Rightarrow> machine \<Rightarrow> u32" where
  "finger_pressure phase p mc =
     (if phase = Finger_up \<or> phase = Finger_canceled then 0
      else if fp_less (f32 0) (f32 p) then f32_to_uint32 mc (f32_mul (mc_fpu mc) p (f32_of_int 65535)) else 65535)"

definition finger_event :: "sdl_now \<Rightarrow> finger_phase \<Rightarrow> u64 \<Rightarrow> u64 \<Rightarrow> u32 \<Rightarrow> u32 \<Rightarrow> u32 \<Rightarrow> u32 \<Rightarrow> u32 \<Rightarrow> sdl3 \<Rightarrow> host_event \<times> sdl3" where
  "finger_event now phase panel finger w h x y p s =
     (let mc = s3_machine s; up = (phase = Finger_up \<or> phase = Finger_canceled) in
      (case host_gui_sdl3_device DEVICE_TOUCH panel (s3_devices s) of (d, devs) \<Rightarrow>
       (case host_gui_sdl3_contact d finger up devs of (n, devs) \<Rightarrow>
         (event0\<lparr>ge_type := (if phase = Finger_down then Ev_pointer_down else if up then Ev_pointer_up else Ev_pointer_motion),
            ge_x := f32_to_int32 mc (f32_mul (mc_fpu mc) x (f32_of_int (sint w))),
            ge_y := f32_to_int32 mc (f32_mul (mc_fpu mc) y (f32_of_int (sint h))),
            ge_id := push_bit 24 (word_of_nat d) OR n, ge_kind := Kind_touch,
            ge_buttons := (if up then 0 else buttons_left), ge_pressure := finger_pressure phase p mc\<rparr>,
          s\<lparr>s3_devices := devs, s3_fingers := True, s3_pad_last := (if s3_trackpad s then now_ticks now else s3_pad_last s)\<rparr>))))"

definition made_by_sdl :: "mouse_id \<Rightarrow> sdl3 \<Rightarrow> bool" where
  "made_by_sdl m s \<longleftrightarrow> (m = Mouse_touch \<and> s3_fingers s) \<or> (m = Mouse_pen \<and> s3_pens_seen s)"

text \<open>The cases of the switch: \<open>None\<close> is a break, the event is not one of the service's.\<close>

fun sdl3_event_of :: "sdl_now \<Rightarrow> sdl3_event \<Rightarrow> sdl3 \<Rightarrow> host_event option \<times> sdl3" where
  "sdl3_event_of now Quit3 s = (Some (event0\<lparr>ge_type := Ev_quit\<rparr>), s)"
| "sdl3_event_of now (Window_resized w h) s = (Some (event0\<lparr>ge_type := Ev_resized, ge_x := w, ge_y := h\<rparr>), s)"
| "sdl3_event_of now Window_shown s = (Some (event0\<lparr>ge_type := Ev_shown\<rparr>), s)"
| "sdl3_event_of now Window_restored s = (Some (event0\<lparr>ge_type := Ev_shown\<rparr>), s)"
| "sdl3_event_of now (Key3 down scancode) s =
     (Some (event0\<lparr>ge_type := (if down then Ev_key_down else Ev_key_up), ge_scode := scancode\<rparr>), s)"
| "sdl3_event_of now (Finger phase touch finger window x y p) s =
     (case touch of
        Touch_pen \<Rightarrow> (None, s)
      | Touch_mouse \<Rightarrow> (None, s)
      | Touch_panel panel \<Rightarrow>
          if \<not> now_direct now panel \<and> \<not> s3_trackpad s then (None, s)
          else (case finger_window now window of
              None \<Rightarrow> (None, s)
            | Some v \<Rightarrow> (case now_size now v of (w, h) \<Rightarrow>
                (case finger_event now phase panel finger w h x y p s of (ev, s) \<Rightarrow> (Some ev, s)))))"
| "sdl3_event_of now (Pen_touch down which st x y) s =
     (case pen_event (if down then Ev_pointer_down else Ev_pointer_up) which st x y s of (ev, s) \<Rightarrow> (Some ev, s))"
| "sdl3_event_of now (Pen_motion which st x y) s =
     (case pen_event Ev_pointer_motion which st x y s of (ev, s) \<Rightarrow> (Some ev, s))"
| "sdl3_event_of now (Pen_button which st x y) s =
     (case pen_event Ev_pointer_motion which st x y s of (ev, s) \<Rightarrow> (Some ev, s))"
| "sdl3_event_of now (Pen_axis pressure which st x y value) s =
     (if pressure then (case pen_event Ev_pointer_motion which st x y (pen_press which value s) of (ev, s) \<Rightarrow> (Some ev, s))
      else (None, s))"
| "sdl3_event_of now (Mouse_motion m x y state) s =
     (if made_by_sdl m s then (None, s)
      else (case host_gui_sdl3_pad_down (s3_trackpad s) (now_ticks now) (s3_devices s) (s3_pad_last s) of
        (True, l) \<Rightarrow> (None, s\<lparr>s3_pad_last := l\<rparr>)
      | (False, l) \<Rightarrow> (Some (event0\<lparr>ge_type := Ev_mouse_motion, ge_x := f32_to_int32 (s3_machine s) x,
          ge_y := f32_to_int32 (s3_machine s) y, ge_buttons := state\<rparr>), s\<lparr>s3_pad_last := l\<rparr>)))"
| "sdl3_event_of now (Mouse_button down m x y button clicks) s =
     (if made_by_sdl m s then (None, s)
      else (Some (event0\<lparr>ge_type := (if down then Ev_mouse_down else Ev_mouse_up), ge_x := f32_to_int32 (s3_machine s) x,
          ge_y := f32_to_int32 (s3_machine s) y, ge_buttons := button, ge_count := clicks\<rparr>), s))"
| "sdl3_event_of now (Mouse_wheel ix iy fx fy dir) s =
     (case host_gui_sdl3_pad_wheel (s3_trackpad s) (now_ticks now) (s3_devices s) (s3_pad_last s) of
        (True, l) \<Rightarrow> (None, s\<lparr>s3_pad_last := l\<rparr>)
      | (False, l) \<Rightarrow>
          (let x = (if s3_340 s then ix else f32_to_int32 (s3_machine s) fx) * s3_wheel s;
               y = (if s3_340 s then iy else f32_to_int32 (s3_machine s) fy) * s3_wheel s in
           (if x \<noteq> 0 \<or> y \<noteq> 0
            then Some (event0\<lparr>ge_type := Ev_mouse_wheel, ge_x := x, ge_y := y, ge_direction := dir\<rparr>) else None,
            s\<lparr>s3_pad_last := l\<rparr>)))"
| "sdl3_event_of now Other3 s = (None, s)"

type_synonym sdl3_queue = "(sdl_now \<times> sdl3_event) list"

fun host_gui_sdl3_next :: "sdl3 \<Rightarrow> sdl3_queue \<Rightarrow> host_event option \<times> sdl3 \<times> sdl3_queue" where
  "host_gui_sdl3_next s [] = (None, s, [])"
| "host_gui_sdl3_next s ((now, e) # q) = (case sdl3_event_of now e s of
     (Some ev, s) \<Rightarrow> (Some ev, s, q)
   | (None, s) \<Rightarrow> host_gui_sdl3_next s q)"

text \<open>The event asked about and kept is \<open>Some\<close> where \<open>have_pending\<close> is set. What SDL has got by the time
  of a poll is \<open>pumped\<close>; the answer is what is written to the handle, if it is, and 1 or 0.\<close>

type_synonym sdl3_poller = "sdl3 \<times> sdl3_queue \<times> host_event option"

definition host_gui_sdl3_poll :: "bool \<Rightarrow> sdl3_queue \<Rightarrow> sdl3_poller \<Rightarrow> host_event option \<times> u64 \<times> sdl3_poller" where
  "host_gui_sdl3_poll handle pumped = (\<lambda>(s, q, pending).
     let q = q @ pumped;
         (pending, s, q) = (case pending of Some ev \<Rightarrow> (Some ev, s, q) | None \<Rightarrow> host_gui_sdl3_next s q) in
     (case pending of
        None \<Rightarrow> (None, 0, (s, q, None))
      | Some ev \<Rightarrow> if handle then (Some ev, 1, (s, q, None)) else (None, 1, (s, q, Some ev))))"

section \<open>The events of SDL2\<close>

datatype sdl2_event =
    Quit2
  | Window_size_changed u32 u32
  | Window_shown2
  | Window_restored2
  | Window_other2
  | Key2 bool u32
  | Mouse_motion2 u32 u32 u32
  | Mouse_button2 bool u32 u32 u32 u32
  | Mouse_wheel2 u32 u32 u32
  | Other2

fun sdl2_event_of :: "sdl2_event \<Rightarrow> host_event option" where
  "sdl2_event_of Quit2 = Some (event0\<lparr>ge_type := Ev_quit\<rparr>)"
| "sdl2_event_of (Window_size_changed w h) = Some (event0\<lparr>ge_type := Ev_resized, ge_x := w, ge_y := h\<rparr>)"
| "sdl2_event_of Window_shown2 = Some (event0\<lparr>ge_type := Ev_shown\<rparr>)"
| "sdl2_event_of Window_restored2 = Some (event0\<lparr>ge_type := Ev_shown\<rparr>)"
| "sdl2_event_of Window_other2 = None"
| "sdl2_event_of (Key2 down scancode) =
     Some (event0\<lparr>ge_type := (if down then Ev_key_down else Ev_key_up), ge_scode := scancode\<rparr>)"
| "sdl2_event_of (Mouse_motion2 x y state) =
     Some (event0\<lparr>ge_type := Ev_mouse_motion, ge_x := x, ge_y := y, ge_buttons := state\<rparr>)"
| "sdl2_event_of (Mouse_button2 down x y button clicks) =
     Some (event0\<lparr>ge_type := (if down then Ev_mouse_down else Ev_mouse_up), ge_x := x, ge_y := y,
       ge_buttons := button, ge_count := clicks\<rparr>)"
| "sdl2_event_of (Mouse_wheel2 x y dir) =
     Some (event0\<lparr>ge_type := Ev_mouse_wheel, ge_x := x, ge_y := y, ge_direction := dir\<rparr>)"
| "sdl2_event_of Other2 = None"

fun host_gui_sdl2_next :: "sdl2_event list \<Rightarrow> host_event option \<times> sdl2_event list" where
  "host_gui_sdl2_next [] = (None, [])"
| "host_gui_sdl2_next (e # q) = (case sdl2_event_of e of Some ev \<Rightarrow> (Some ev, q) | None \<Rightarrow> host_gui_sdl2_next q)"

type_synonym sdl2_poller = "sdl2_event list \<times> host_event option"

definition host_gui_sdl2_poll :: "bool \<Rightarrow> sdl2_event list \<Rightarrow> sdl2_poller \<Rightarrow> host_event option \<times> u64 \<times> sdl2_poller" where
  "host_gui_sdl2_poll handle pumped = (\<lambda>(q, pending).
     let q = q @ pumped;
         (pending, q) = (case pending of Some ev \<Rightarrow> (Some ev, q) | None \<Rightarrow> host_gui_sdl2_next q) in
     (case pending of
        None \<Rightarrow> (None, 0, (q, None))
      | Some ev \<Rightarrow> if handle then (Some ev, 1, (q, None)) else (None, 1, (q, Some ev))))"

section \<open>Each event once, in order\<close>

text \<open>What SDL's events are to the service, whenever they are asked for.\<close>

fun sdl3_translate :: "sdl3_queue \<Rightarrow> sdl3 \<Rightarrow> host_event list \<times> sdl3" where
  "sdl3_translate [] s = ([], s)"
| "sdl3_translate ((now, e) # q) s = (case sdl3_event_of now e s of (ev, s) \<Rightarrow>
     (case sdl3_translate q s of (evs, s) \<Rightarrow> (case ev of None \<Rightarrow> evs | Some e \<Rightarrow> e # evs, s)))"

definition kept_event :: "'e option \<Rightarrow> 'e list" where
  "kept_event p = (case p of None \<Rightarrow> [] | Some ev \<Rightarrow> [ev])"

definition sdl3_come :: "sdl3_poller \<Rightarrow> host_event list" where
  "sdl3_come = (\<lambda>(s, q, p). kept_event p @ fst (sdl3_translate q s))"

definition sdl3_final :: "sdl3_poller \<Rightarrow> sdl3" where
  "sdl3_final = (\<lambda>(s, q, p). snd (sdl3_translate q s))"

definition sdl2_translate :: "sdl2_event list \<Rightarrow> unit \<Rightarrow> host_event list \<times> unit" where
  "sdl2_translate q u = (List.map_filter sdl2_event_of q, u)"

definition sdl2_come :: "sdl2_poller \<Rightarrow> host_event list" where
  "sdl2_come = (\<lambda>(q, p). kept_event p @ List.map_filter sdl2_event_of q)"

lemmas poller_defs = sdl3_come_def sdl3_final_def sdl2_translate_def sdl2_come_def kept_event_def
  host_gui_sdl3_poll_def host_gui_sdl2_poll_def

lemma sdl3_translate_append:
  "sdl3_translate (q @ r) s = (case sdl3_translate q s of (es, s) \<Rightarrow> (case sdl3_translate r s of (fs, s) \<Rightarrow> (es @ fs, s)))"
  by (induction q s rule: sdl3_translate.induct) (auto split: prod.splits option.splits)

lemma sdl3_next_translate:
  "host_gui_sdl3_next s q = (ev, s', q') \<Longrightarrow>
     sdl3_translate q s = (kept_event ev @ fst (sdl3_translate q' s'), snd (sdl3_translate q' s')) \<and> (ev = None \<longrightarrow> q' = [])"
  by (induction s q rule: host_gui_sdl3_next.induct) (auto simp: kept_event_def split: prod.splits option.splits)

lemma sdl2_next_translate:
  "host_gui_sdl2_next q = (ev, q') \<Longrightarrow>
     List.map_filter sdl2_event_of q = kept_event ev @ List.map_filter sdl2_event_of q' \<and> (ev = None \<longrightarrow> q' = [])"
  by (induction q rule: host_gui_sdl2_next.induct) (auto simp: kept_event_def List.map_filter_def split: option.splits)

interpretation sdl3q: event_queue host_gui_sdl3_poll sdl3_come sdl3_final sdl3_translate
proof
  fix s :: sdl3_poller and got st h
  obtain t q p where s: "s = (t, q, p)" by (cases s)
  obtain ev t' q' where n: "host_gui_sdl3_next t (q @ got) = (ev, t', q')" by (cases "host_gui_sdl3_next t (q @ got)")
  obtain as t1 where a: "sdl3_translate q t = (as, t1)" by (cases "sdl3_translate q t")
  obtain bs t2 where b: "sdl3_translate got t1 = (bs, t2)" by (cases "sdl3_translate got t1")
  have ab: "sdl3_translate (q @ got) t = (as @ bs, t2)" by (simp add: sdl3_translate_append a b)
  have s': "sdl3_come s = kept_event p @ as" "sdl3_final s = t1" by (simp_all add: s sdl3_come_def sdl3_final_def a)
  have nx: "as @ bs = kept_event ev @ fst (sdl3_translate q' t')" "t2 = snd (sdl3_translate q' t')" "ev = None \<longrightarrow> q' = []"
    using sdl3_next_translate [OF n] by (simp_all add: ab)
  show "\<exists>s'. host_gui_sdl3_poll h got s = (None, 0, s') \<and> sdl3_come s' = [] \<and> sdl3_final s' = st"
    if "sdl3_come s = []" "sdl3_translate got (sdl3_final s) = ([], st)"
    using that nx n by (cases p; cases ev) (auto simp: s' b kept_event_def, auto simp: s poller_defs)
  fix e es
  assume "sdl3_come s @ fst (sdl3_translate got (sdl3_final s)) = e # es"
  then have e: "kept_event p @ as @ bs = e # es" by (simp add: s' b)
  show "\<exists>s'. host_gui_sdl3_poll h got s = (if h then Some e else None, 1, s') \<and>
      sdl3_come s' = (if h then es else e # es) \<and> sdl3_final s' = snd (sdl3_translate got (sdl3_final s))"
  proof (cases p)
    case None
    with e nx obtain t3 where "ev = Some e" "fst (sdl3_translate q' t') = es" by (cases ev) (auto simp: kept_event_def)
    then show ?thesis using None n nx(2) by (auto simp: s' b, auto simp: s poller_defs)
  next
    case (Some x)
    then have "x = e" "as @ bs = es" using e by (simp_all add: kept_event_def)
    moreover have "host_gui_sdl3_poll h got s = (if h then Some x else None, 1, (t, q @ got, if h then None else Some x))"
      by (simp add: s Some host_gui_sdl3_poll_def)
    ultimately show ?thesis
      using ab unfolding s' b by (simp add: sdl3_come_def sdl3_final_def kept_event_def)
  qed
qed (simp_all add: sdl3_translate_append)

interpretation sdl2q: event_queue host_gui_sdl2_poll sdl2_come "\<lambda>_. ()" sdl2_translate
proof
  fix s :: sdl2_poller and got st h
  obtain q p where s: "s = (q, p)" by (cases s)
  obtain ev q' where n: "host_gui_sdl2_next (q @ got) = (ev, q')" by (cases "host_gui_sdl2_next (q @ got)")
  have tr: "List.map_filter sdl2_event_of q @ List.map_filter sdl2_event_of got
      = kept_event ev @ List.map_filter sdl2_event_of q' \<and> (ev = None \<longrightarrow> q' = [])"
    using sdl2_next_translate [OF n] by (simp add: List.map_filter_def)
  have app: "List.map_filter sdl2_event_of (q @ got) = List.map_filter sdl2_event_of q @ List.map_filter sdl2_event_of got"
    by (simp add: List.map_filter_def)
  show "\<exists>s'. host_gui_sdl2_poll h got s = (None, 0, s') \<and> sdl2_come s' = [] \<and> () = st"
    if "sdl2_come s = []" "sdl2_translate got () = ([], st)"
    using that tr n by (cases p; cases ev) (auto simp: s poller_defs List.map_filter_simps(2))
  fix e es
  assume "sdl2_come s @ fst (sdl2_translate got ()) = e # es"
  then show "\<exists>s'. host_gui_sdl2_poll h got s = (if h then Some e else None, 1, s') \<and>
      sdl2_come s' = (if h then es else e # es) \<and> () = snd (sdl2_translate got ())"
    using tr n app by (cases p; cases ev) (auto simp: s poller_defs)
qed (simp_all add: sdl2_translate_def List.map_filter_def)

text \<open>C17: Polled in any way, with a handle or none, while SDL goes on getting events, the SDL3 driver gives each event of the service once and in order: those given and those still to come are what SDL's events come to.\<close>

theorem sdl3_polls_in_order:
  assumes "poll_run host_gui_sdl3_poll polls (s, [], None) = (given, s')"
  shows "given @ sdl3_come s' = fst (sdl3_translate (concat (map snd polls)) s)"
  using sdl3q.given_in_order [OF assms] by (simp add: sdl3_come_def sdl3_final_def kept_event_def)

text \<open>Polled in any way the SDL2 driver gives each event of the service once and in order.\<close>

theorem sdl2_polls_in_order:
  assumes "poll_run host_gui_sdl2_poll polls ([], None) = (given, s')"
  shows "given @ sdl2_come s' = List.map_filter sdl2_event_of (concat (map snd polls))"
  using sdl2q.given_in_order [OF assms] by (simp add: sdl2_come_def sdl2_translate_def kept_event_def List.map_filter_def)

text \<open>A poll answers 0 only when all there was has been given.\<close>

lemma sdl3_poll_answer:
  "host_gui_sdl3_poll h got s = (ev, n, s') \<Longrightarrow> (n = 0) = (sdl3_come s @ fst (sdl3_translate got (sdl3_final s)) = [])"
  using sdl3q.poll_step(3) by (metis one_neq_zero)

section \<open>A mouse that SDL makes of a finger or a pen\<close>

definition mouse_made :: "mouse_id \<Rightarrow> sdl3_event \<Rightarrow> bool" where
  "mouse_made m e = (case e of Mouse_motion m' _ _ _ \<Rightarrow> m' = m | Mouse_button _ m' _ _ _ _ \<Rightarrow> m' = m | _ \<Rightarrow> False)"

lemma finger_event_seen:
  "finger_event now phase panel finger w h x y p s = (ev, s') \<Longrightarrow>
     s3_fingers s' \<and> s3_pens_seen s' = s3_pens_seen s \<and> ge_kind ev = Kind_touch"
  by (auto simp: finger_event_def Let_def split: prod.splits)

lemma pen_event_seen:
  "pen_event type which st x y s = (ev, s') \<Longrightarrow>
     s3_fingers s' = s3_fingers s \<and> s3_pens_seen s' \<and> ge_kind ev \<in> {Kind_pen, Kind_eraser}"
  by (auto simp: pen_event_def Let_def split: prod.splits)

lemma pen_press_seen [simp]:
  "s3_fingers (pen_press which v s) = s3_fingers s" "s3_pens_seen (pen_press which v s) = s3_pens_seen s"
  by (simp_all add: pen_press_def split: prod.splits)

lemma event_of_seen:
  assumes "sdl3_event_of now e s = (evo, s')"
  shows "(s3_fingers s \<or> (\<exists>ev. evo = Some ev \<and> ge_kind ev = Kind_touch) \<longrightarrow> s3_fingers s') \<and>
    (s3_pens_seen s \<or> (\<exists>ev. evo = Some ev \<and> ge_kind ev \<in> {Kind_pen, Kind_eraser}) \<longrightarrow> s3_pens_seen s')"
  using assms
  by (cases "(now, e, s)" rule: sdl3_event_of.cases)
     (auto simp: event0_def Let_def dest: finger_event_seen pen_event_seen
       split: prod.splits touch_id.splits if_splits bool.splits option.splits)

lemma translate_seen:
  "sdl3_translate q s = (evs, s') \<Longrightarrow> s3_fingers s \<or> (\<exists>ev \<in> set evs. ge_kind ev = Kind_touch) \<longrightarrow> s3_fingers s'"
  "sdl3_translate q s = (evs, s') \<Longrightarrow> s3_pens_seen s \<or> (\<exists>ev \<in> set evs. ge_kind ev \<in> {Kind_pen, Kind_eraser}) \<longrightarrow> s3_pens_seen s'"
proof (induction q s arbitrary: evs s' rule: sdl3_translate.induct)
  case (2 now e q s)
  obtain ev t where e: "sdl3_event_of now e s = (ev, t)" by (cases "sdl3_event_of now e s")
  obtain fs u where q: "sdl3_translate q t = (fs, u)" by (cases "sdl3_translate q t")
  { case 1
    then show ?case using 2(1) [OF e [symmetric] q] event_of_seen [OF e]
      by (auto simp: e q split: option.splits) }
  { case 2
    then show ?case using "2.IH"(2) [OF e [symmetric] q] event_of_seen [OF e]
      by (auto simp: e q split: option.splits) }
qed simp_all

lemma made_left_out:
  assumes "m = Mouse_touch \<and> s3_fingers s \<or> m = Mouse_pen \<and> s3_pens_seen s"
  shows "sdl3_translate (filter (\<lambda>(now, e). \<not> mouse_made m e) q) s = sdl3_translate q s"
  using assms
proof (induction q s rule: sdl3_translate.induct)
  case (2 now e q s)
  show ?case
  proof (cases "mouse_made m e")
    case True
    then have none: "sdl3_event_of now e s = (None, s)"
      using "2.prems" by (auto simp: mouse_made_def made_by_sdl_def split: sdl3_event.splits)
    show ?thesis using "2.IH" [OF none [symmetric] "2.prems"] True by (simp add: none split: prod.splits)
  next
    case False
    obtain ev t where e: "sdl3_event_of now e s = (ev, t)" by (cases "sdl3_event_of now e s")
    have "m = Mouse_touch \<and> s3_fingers t \<or> m = Mouse_pen \<and> s3_pens_seen t"
      using "2.prems" event_of_seen [OF e] by blast
    from "2.IH" [OF e [symmetric] this] show ?thesis using False by (simp add: e)
  qed
qed simp

text \<open>Once a finger, or a pen, has been told of as a pointer, what SDL makes of it as a mouse, moves and buttons, might as well not be there: the events given are those of the queue without them.\<close>

theorem pointer_not_told_twice:
  assumes "sdl3_translate q s = (evs, s')" "ev \<in> set evs"
    "m = Mouse_touch \<and> ge_kind ev = Kind_touch \<or> m = Mouse_pen \<and> ge_kind ev \<in> {Kind_pen, Kind_eraser}"
  shows "fst (sdl3_translate (q @ r) s) = evs @ fst (sdl3_translate (filter (\<lambda>(now, e). \<not> mouse_made m e) r) s')"
proof -
  have "m = Mouse_touch \<and> s3_fingers s' \<or> m = Mouse_pen \<and> s3_pens_seen s'"
    using assms(2,3) translate_seen [OF assms(1)] by blast
  from made_left_out [OF this, of r] show ?thesis
    by (simp add: sdl3_translate_append assms(1) split: prod.splits)
qed

section \<open>What an event says\<close>

definition pointer_types :: "event_type set" where
  "pointer_types = {Ev_pointer_down, Ev_pointer_motion, Ev_pointer_up}"

text \<open>The fields after the direction are set in a pointer event and in no other. A pointer has an id, of
  a device from 1 to 16, one button at most, and is pressed only with a button held.\<close>

definition event_right :: "host_event \<Rightarrow> bool" where
  "event_right ev \<longleftrightarrow> ge_type ev \<noteq> Ev_none \<and>
     (if ge_type ev \<in> pointer_types
      then 1 \<le> drop_bit 24 (ge_id ev) \<and> drop_bit 24 (ge_id ev) \<le> 16 \<and> ge_kind ev \<noteq> Kind_mouse \<and>
        ge_buttons ev \<in> {0, buttons_left, buttons_middle, buttons_right} \<and> (ge_buttons ev = 0 \<longrightarrow> ge_pressure ev = 0)
      else ge_id ev = 0 \<and> ge_kind ev = Kind_mouse \<and> ge_pressure ev = 0) \<and>
     (ge_type ev = Ev_mouse_wheel \<longrightarrow> ge_x ev \<noteq> 0 \<or> ge_y ev \<noteq> 0)"

definition small_numbers :: "device \<Rightarrow> bool" where
  "small_numbers dev \<longleftrightarrow> length (dv_number dev) = CONTACTS \<and> (\<forall>k \<in> set (dv_number dev). k < 2 ^ 24) \<and> dv_next dev < 2 ^ 24"

definition sdl3_ok :: "sdl3 \<Rightarrow> bool" where
  "sdl3_ok s \<longleftrightarrow> table_ok (s3_devices s) \<and> (\<forall>dev \<in> set (s3_devices s). small_numbers dev)"

lemma and_24_less: "(n AND 0xffffff :: u32) < 2 ^ 24"
proof -
  have "n AND 0xffffff \<le> 0xffffff" by (rule word_and_le1)
  then show ?thesis by (simp add: word_less_nat_alt word_le_nat_alt)
qed

lemma contact_small:
  assumes "small_numbers dev" "device_contact f up dev = (k, dev')"
  shows "k < 2 ^ 24 \<and> small_numbers dev'"
proof -
  have spare: "contact_spare dev < CONTACTS"
    by (auto simp: contact_spare_def CONTACTS_def split: option.splits dest!: find_upt_Some)
  show ?thesis
  proof (cases "contact_find f dev")
    case None
    then show ?thesis using assms spare and_24_less [of "dv_next dev + 1"] set_update_subset_insert
      by (auto simp: device_contact_def contact_set_def contact_land_def small_numbers_def Let_def
          dest!: subsetD [OF set_update_subset_insert])
  next
    case (Some i)
    then have "i < CONTACTS" unfolding contact_find_def using find_upt_Some by blast
    then show ?thesis using Some assms by (auto simp: device_contact_def contact_set_def small_numbers_def)
  qed
qed

lemma device_step:
  assumes "table_ok devs" "\<forall>dev \<in> set devs. small_numbers dev" "kind \<noteq> 0"
    "host_gui_sdl3_device kind key devs = (d, devs')"
  shows "table_ok devs' \<and> (\<forall>dev \<in> set devs'. small_numbers dev) \<and> 1 \<le> d \<and> d \<le> DEVICES"
proof -
  have "set devs' \<subseteq> set devs \<union> {dev\<lparr>dv_kind := kind, dv_key := key\<rparr> | dev. dev \<in> set devs}"
  proof (cases "find (\<lambda>i. dv_kind (devs ! i) = 0) [0..<DEVICES]")
    case None
    then show ?thesis using assms(4) by (auto simp: host_gui_sdl3_device_def split: option.splits)
  next
    case (Some i)
    then have "i < length devs" using assms(1) find_upt_Some unfolding table_ok_def by metis
    then have "devs ! i \<in> set devs" by simp
    then show ?thesis
      using Some assms(4) set_update_subset_insert [of devs i "(devs ! i)\<lparr>dv_kind := kind, dv_key := key\<rparr>"]
      by (auto simp: host_gui_sdl3_device_def split: option.splits)
  qed
  then have "\<forall>dev \<in> set devs'. small_numbers dev" using assms(2) by (auto simp: small_numbers_def)
  then show ?thesis using device_table [OF assms(1,3,4)] device_number [OF assms(1,3,4)] by blast
qed

lemma contact_step:
  assumes "table_ok devs" "\<forall>dev \<in> set devs. small_numbers dev" "1 \<le> d" "d \<le> DEVICES"
    "host_gui_sdl3_contact d f up devs = (k, devs')"
  shows "table_ok devs' \<and> (\<forall>dev \<in> set devs'. small_numbers dev) \<and> k < 2 ^ 24"
proof -
  obtain dev' where c: "device_contact f up (devs ! (d - 1)) = (k, dev')" "devs' = devs[d - 1 := dev']"
    using assms(5) by (auto simp: host_gui_sdl3_contact_def split: prod.splits)
  have "d - 1 < length devs" using assms(1,3,4) by (auto simp: table_ok_def DEVICES_def)
  then have "small_numbers (devs ! (d - 1))" using assms(2) by simp
  from contact_small [OF this c(1)] have k: "k < 2 ^ 24" "small_numbers dev'" by auto
  have "dv_kind dev' = dv_kind (devs ! (d - 1))" "dv_key dev' = dv_key (devs ! (d - 1))"
    using c(1) by (auto simp: device_contact_def contact_set_def contact_land_def Let_def split: option.splits)
  from table_update [OF this] have "table_ok devs'" using assms(1) by (simp add: c)
  moreover have "\<forall>dev \<in> set devs'. small_numbers dev"
    using assms(2) k set_update_subset_insert [of devs "d - 1" dev'] by (auto simp: c)
  ultimately show ?thesis using k by simp
qed

text \<open>The two parts of the id of a pointer.\<close>

lemma pointer_id:
  assumes "1 \<le> d" "d \<le> DEVICES" "(k :: u32) < 2 ^ 24"
  shows "drop_bit 24 (push_bit 24 (word_of_nat d) OR k) = (word_of_nat d :: u32)"
    and "take_bit 24 (push_bit 24 (word_of_nat d) OR k) = k"
proof -
  have "unat (take_bit 24 k) = unat k mod 2 ^ 24" unfolding unsigned_take_bit_eq by (rule take_bit_eq_mod)
  moreover have "unat k < 2 ^ 24" using assms(3) by (simp add: word_less_nat_alt)
  ultimately have "unat (take_bit 24 k) = unat k" by simp
  then have k: "take_bit 24 k = k" by (simp only: word_unat_eq_iff)
  then have "\<not> bit k n" if "24 \<le> n" for n using that by (metis bit_take_bit_iff not_le)
  moreover have "\<not> bit (word_of_nat d :: u32) n" if "8 \<le> n" for n
  proof -
    have "d < 2 ^ 8" using assms(2) by (simp add: DEVICES_def)
    then have "take_bit 8 d = d" by (simp add: take_bit_nat_eq_self)
    then show ?thesis using that by (metis bit_take_bit_iff bit_of_nat_iff not_le)
  qed
  ultimately show "drop_bit 24 (push_bit 24 (word_of_nat d) OR k) = (word_of_nat d :: u32)"
    by (intro bit_word_eqI) (auto simp: bit_drop_bit_eq bit_or_iff bit_push_bit_iff, (metis bit_imp_le_length le_add_diff_inverse not_le)?)
  show "take_bit 24 (push_bit 24 (word_of_nat d) OR k) = k"
    by (subst (2) k [symmetric], rule bit_word_eqI) (auto simp: bit_take_bit_iff bit_or_iff bit_push_bit_iff)
qed

lemma pointer_device:
  assumes "1 \<le> d" "d \<le> DEVICES" "(k :: u32) < 2 ^ 24"
  shows "1 \<le> drop_bit 24 (push_bit 24 (word_of_nat d) OR k) \<and> drop_bit 24 (push_bit 24 (word_of_nat d) OR k) \<le> 16"
  using assms(1,2) unfolding pointer_id(1) [OF assms]
  by (simp add: DEVICES_def word_le_nat_alt unat_of_nat)

lemma pen_event_right:
  assumes "sdl3_ok s" "pen_event type which st x y s = (ev, s')" "type \<in> pointer_types"
  shows "sdl3_ok s' \<and> event_right ev"
proof -
  obtain d devs where d: "host_gui_sdl3_device DEVICE_PEN (ucast which) (s3_devices s) = (d, devs)"
    by (cases "host_gui_sdl3_device DEVICE_PEN (ucast which) (s3_devices s)")
  have ok: "table_ok devs \<and> (\<forall>dev \<in> set devs. small_numbers dev) \<and> 1 \<le> d \<and> d \<le> DEVICES"
    using device_step [OF _ _ _ d] assms(1) by (simp add: sdl3_ok_def DEVICE_PEN_def)
  then have "sdl3_ok s'" using assms(2) d by (auto simp: pen_event_def sdl3_ok_def Let_def split: prod.splits)
  moreover have "ge_type ev = type" "ge_id ev = push_bit 24 (word_of_nat d)" "ge_kind ev \<in> {Kind_pen, Kind_eraser}"
    "ge_buttons ev \<in> {0, buttons_left, buttons_middle, buttons_right}" "ge_buttons ev = 0 \<longrightarrow> ge_pressure ev = 0"
    using assms(2) d by (auto simp: pen_event_def Let_def event0_def split: prod.splits)
  moreover have "ge_type ev \<notin> {Ev_none, Ev_mouse_wheel}" using assms(3) calculation(2) by (auto simp: pointer_types_def)
  moreover have "event_right ev"
    using calculation(2-) assms(3) pointer_device [of d 0] ok by (auto simp: event_right_def)
  ultimately show ?thesis by blast
qed

lemma pen_press_ok: "sdl3_ok s \<Longrightarrow> sdl3_ok (pen_press which v s)"
  using device_step [of "s3_devices s" DEVICE_PEN]
  by (auto simp: pen_press_def sdl3_ok_def DEVICE_PEN_def split: prod.splits)

lemma finger_event_right:
  assumes "sdl3_ok s" "finger_event now phase panel finger w h x y p s = (ev, s')"
  shows "sdl3_ok s' \<and> event_right ev"
proof -
  let ?up = "phase = Finger_up \<or> phase = Finger_canceled"
  obtain d devs where d: "host_gui_sdl3_device DEVICE_TOUCH panel (s3_devices s) = (d, devs)"
    by (cases "host_gui_sdl3_device DEVICE_TOUCH panel (s3_devices s)")
  obtain n devs' where n: "host_gui_sdl3_contact d finger ?up devs = (n, devs')"
    by (cases "host_gui_sdl3_contact d finger ?up devs")
  have ok: "table_ok devs \<and> (\<forall>dev \<in> set devs. small_numbers dev) \<and> 1 \<le> d \<and> d \<le> DEVICES"
    using device_step [OF _ _ _ d] assms(1) by (simp add: sdl3_ok_def DEVICE_TOUCH_def)
  then have ok': "table_ok devs' \<and> (\<forall>dev \<in> set devs'. small_numbers dev) \<and> n < 2 ^ 24"
    using contact_step [OF _ _ _ _ n] by blast
  have out: "ge_id ev = push_bit 24 (word_of_nat d) OR n" "ge_kind ev = Kind_touch"
    "ge_type ev = (if phase = Finger_down then Ev_pointer_down else if ?up then Ev_pointer_up else Ev_pointer_motion)"
    "ge_buttons ev = (if ?up then 0 else buttons_left)" "ge_pressure ev = finger_pressure phase p (s3_machine s)"
    "s3_devices s' = devs'"
    using assms(2) d n by (auto simp: finger_event_def event0_def Let_def)
  have "sdl3_ok s'" using ok' out by (simp add: sdl3_ok_def)
  moreover have "event_right ev"
    using pointer_device [of d n] ok ok' 
    by (simp add: event_right_def out pointer_types_def finger_pressure_def buttons_left_def)
  ultimately show ?thesis by blast
qed

lemma event_of_right:
  assumes "sdl3_ok s" "sdl3_event_of now e s = (evo, s')"
  shows "sdl3_ok s' \<and> (\<forall>ev. evo = Some ev \<longrightarrow> event_right ev)"
  using assms
proof (cases e)
  case (Finger phase touch finger window x y p)
  then show ?thesis
    using assms finger_event_right [OF assms(1)]
    by (auto split: touch_id.splits if_splits option.splits prod.splits)
next
  case (Pen_axis pressure which st x y v)
  then show ?thesis
    using assms pen_press_ok [OF assms(1), of which v] pen_event_right
    by (auto simp: pointer_types_def split: prod.splits if_splits)
next
  case (Pen_touch down which st x y)
  then show ?thesis
    using assms pen_event_right [OF assms(1), of _ which st x y]
    by (auto simp: pointer_types_def split: prod.splits)
next
  case (Pen_motion which st x y)
  then show ?thesis
    using assms pen_event_right [OF assms(1), of Ev_pointer_motion which st x y]
    by (auto simp: pointer_types_def split: prod.splits)
next
  case (Pen_button which st x y)
  then show ?thesis
    using assms pen_event_right [OF assms(1), of Ev_pointer_motion which st x y]
    by (auto simp: pointer_types_def split: prod.splits)
qed (use assms in \<open>auto simp: event_right_def event0_def pointer_types_def sdl3_ok_def Let_def
     split: prod.splits if_splits bool.splits\<close>)

lemma translate_right:
  "sdl3_translate q s = (evs, s') \<Longrightarrow> sdl3_ok s \<Longrightarrow> sdl3_ok s' \<and> (\<forall>ev \<in> set evs. event_right ev)"
proof (induction q s arbitrary: evs s' rule: sdl3_translate.induct)
  case (2 now e q s)
  obtain evo t where e: "sdl3_event_of now e s = (evo, t)" by (cases "sdl3_event_of now e s")
  obtain fs u where q: "sdl3_translate q t = (fs, u)" by (cases "sdl3_translate q t")
  show ?case
    using "2.IH" [OF e [symmetric] q] "2.prems" event_of_right [OF "2.prems"(2) e] by (auto simp: e q split: option.splits)
qed simp

definition sdl3_start :: "machine \<Rightarrow> bool \<Rightarrow> bool \<Rightarrow> sdl3" where
  "sdl3_start mc v340 trackpad = \<lparr>s3_machine = mc, s3_340 = v340, s3_trackpad = trackpad, s3_wheel = 1, s3_fingers = False,
     s3_pens_seen = False, s3_devices = devices0, s3_pad_last = 0, s3_pens = pens0\<rparr>"

lemma sdl3_start_ok: "sdl3_ok (sdl3_start mc v t)"
  by (simp add: sdl3_ok_def sdl3_start_def table_ok0) (simp add: devices0_def device0_def small_numbers_def)

text \<open>C34: Whatever SDL3 tells from the start, an event that is given is one: a pointer event has an id, of one of 16 devices, and is pressed only with its button held, no other event has an id, a kind or a pressure, and a wheel has turned.\<close>

theorem sdl3_events_right:
  assumes "poll_run host_gui_sdl3_poll polls (sdl3_start mc v trackpad, [], None) = (given, s')" "ev \<in> set given"
  shows "event_right ev"
proof -
  let ?tr = "sdl3_translate (concat (map snd polls)) (sdl3_start mc v trackpad)"
  have "given @ sdl3_come s' = fst ?tr"
    using sdl3q.given_in_order [OF assms(1)] by (simp add: sdl3_come_def sdl3_final_def kept_event_def)
  then have "ev \<in> set (fst ?tr)" using assms(2) by (metis UnCI set_append)
  then show ?thesis
    using translate_right [of "concat (map snd polls)" "sdl3_start mc v trackpad"] sdl3_start_ok by (cases ?tr) auto
qed

section \<open>The two drivers tell the same\<close>

text \<open>An event of SDL2 and one of SDL3 of the same thing.\<close>

definition same_told :: "machine \<Rightarrow> sdl2_event \<Rightarrow> sdl3_event \<Rightarrow> bool" where
  "same_told mc e2 e3 = (case e2 of
       Quit2 \<Rightarrow> e3 = Quit3
     | Window_size_changed w h \<Rightarrow> e3 = Window_resized w h
     | Window_shown2 \<Rightarrow> e3 = Window_shown
     | Window_restored2 \<Rightarrow> e3 = Window_restored
     | Key2 d c \<Rightarrow> e3 = Key3 d c
     | Mouse_motion2 x y st \<Rightarrow> (case e3 of
         Mouse_motion m fx fy st' \<Rightarrow> f32_to_int32 mc fx = x \<and> f32_to_int32 mc fy = y \<and> st = st' | _ \<Rightarrow> False)
     | Mouse_button2 d x y b c \<Rightarrow> (case e3 of
         Mouse_button d' m fx fy b' c' \<Rightarrow> d = d' \<and> f32_to_int32 mc fx = x \<and> f32_to_int32 mc fy = y \<and> b = b' \<and> c = c'
       | _ \<Rightarrow> False)
     | Mouse_wheel2 x y dir \<Rightarrow> (case e3 of Mouse_wheel ix iy fx fy dir' \<Rightarrow> x = ix \<and> y = iy \<and> dir = dir' | _ \<Rightarrow> False)
     | Window_other2 \<Rightarrow> e3 = Other3
     | Other2 \<Rightarrow> e3 = Other3)"

definition only_mouse :: "sdl3 \<Rightarrow> bool" where
  "only_mouse s \<longleftrightarrow> s3_340 s \<and> \<not> s3_trackpad s \<and> s3_wheel s = 1 \<and> \<not> s3_fingers s \<and> \<not> s3_pens_seen s"

definition still_wheel :: "host_event \<Rightarrow> bool" where
  "still_wheel ev \<longleftrightarrow> ge_type ev = Ev_mouse_wheel \<and> ge_x ev = 0 \<and> ge_y ev = 0"

lemma told_same:
  "only_mouse s \<Longrightarrow> same_told (s3_machine s) e2 e3 \<Longrightarrow>
     sdl3_event_of now e3 s = (case sdl2_event_of e2 of None \<Rightarrow> None | Some ev \<Rightarrow> if still_wheel ev then None else Some ev, s)"
  by (cases e2)
     (auto simp: same_told_def split: sdl3_event.splits, auto simp: only_mouse_def still_wheel_def made_by_sdl_def host_gui_sdl3_pad_down_def host_gui_sdl3_pad_wheel_def event0_def)


section \<open>The properties at work\<close>

definition quiet :: sdl_now where
  "quiet = \<lparr>now_ticks = 5, now_direct = (\<lambda>_. True), now_window = (\<lambda>_. Some 0), now_focus = None, now_size = (\<lambda>_. (640, 480))\<rparr>"

definition plain_machine :: machine where
  "plain_machine = \<lparr>mc_fpu = fpu0, mc_int32 = (\<lambda>_. 0), mc_uint32 = (\<lambda>_. 0)\<rparr>"

text \<open>A key is asked about, and then taken, with a wheel after it.\<close>

definition two_polls :: "(bool \<times> sdl3_queue) list" where
  "two_polls = [(False, [(quiet, Other3), (quiet, Key3 True 4)]), (True, [(quiet, Mouse_wheel 0 1 0 0 0)]), (True, [])]"

lemmas run_defs = two_polls_def host_gui_sdl3_poll_def sdl3_start_def event0_def host_gui_sdl3_pad_wheel_def host_gui_sdl3_pad_down_def

lemma two_polls_run:
  "poll_run host_gui_sdl3_poll two_polls (sdl3_start plain_machine True False, [], None) =
     ([event0\<lparr>ge_type := Ev_key_down, ge_scode := 4\<rparr>, event0\<lparr>ge_type := Ev_mouse_wheel, ge_y := 1\<rparr>],
      (sdl3_start plain_machine True False, [], None))"
  by (simp add: run_defs)

theorem sdl3_polls_in_order_witness:
  "fst (sdl3_translate (concat (map snd two_polls)) (sdl3_start plain_machine True False)) =
     [event0\<lparr>ge_type := Ev_key_down, ge_scode := 4\<rparr>, event0\<lparr>ge_type := Ev_mouse_wheel, ge_y := 1\<rparr>]"
  using sdl3_polls_in_order [OF two_polls_run] by (simp add: sdl3_come_def kept_event_def)

theorem sdl3_events_right_witness:
  "event_right (event0\<lparr>ge_type := Ev_mouse_wheel, ge_y := 1\<rparr>)"
  by (rule sdl3_events_right [OF two_polls_run]) simp

theorem sdl2_polls_in_order_witness:
  "List.map_filter sdl2_event_of [Other2, Key2 True 4] = [event0\<lparr>ge_type := Ev_key_down, ge_scode := 4\<rparr>]"
proof -
  have "poll_run host_gui_sdl2_poll [(False, [Other2, Key2 True 4]), (True, [])] ([], None) =
      ([event0\<lparr>ge_type := Ev_key_down, ge_scode := 4\<rparr>], ([], None))"
    by (simp add: host_gui_sdl2_poll_def)
  from sdl2_polls_in_order [OF this] show ?thesis by (simp add: sdl2_come_def kept_event_def List.map_filter_def)
qed


text \<open>A finger lands, and SDL moves a mouse for it.\<close>

theorem pointer_not_told_twice_witness:
  "fst (sdl3_translate ([(quiet, Finger Finger_down (Touch_panel 9) 1 0 0 0 0)] @
      [(quiet, Mouse_motion Mouse_touch 0 0 1), (quiet, Quit3)]) (sdl3_start plain_machine True False)) =
   fst (sdl3_translate ([(quiet, Finger Finger_down (Touch_panel 9) 1 0 0 0 0)] @
      [(quiet, Quit3)]) (sdl3_start plain_machine True False))"
proof -
  let ?q = "[(quiet, Finger Finger_down (Touch_panel 9) 1 0 0 0 0)]" and ?s = "sdl3_start plain_machine True False"
  obtain ev s' where f: "finger_event quiet Finger_down 9 1 640 480 0 0 0 ?s = (ev, s')"
    by (cases "finger_event quiet Finger_down 9 1 640 480 0 0 0 ?s")
  then have q: "sdl3_translate ?q ?s = ([ev], s')"
    by (simp add: quiet_def finger_window_def)
  have "ge_kind ev = Kind_touch" using finger_event_seen [OF f] by simp
  then have "fst (sdl3_translate (?q @ r) ?s) = [ev] @ fst (sdl3_translate (filter (\<lambda>(now, e). \<not> mouse_made Mouse_touch e) r) s')" for r
    by (intro pointer_not_told_twice [OF q, of ev Mouse_touch r]) simp_all
  from this [of "[(quiet, Mouse_motion Mouse_touch 0 0 1), (quiet, Quit3)]"] this [of "[(quiet, Quit3)]"]
  show ?thesis by (simp add: mouse_made_def)
qed

end
