(* ===== verification/Holders.thy ===== *)
theory Holders
  imports Prelude
begin

text \<open>
  Things that are handed out and held, each by one holder: a map from holders to things, and the set
  of the things that are held. The fences, targets and pipelines of the SDL3 driver are such things.
\<close>

definition holds_once :: "('h \<rightharpoonup> 'x) \<Rightarrow> 'x set \<Rightarrow> bool" where
  "holds_once m S \<longleftrightarrow> ran m = S \<and> inj_on m (dom m)"

lemma holds_in: "holds_once m S \<Longrightarrow> m h = Some x \<Longrightarrow> x \<in> S"
  by (auto simp: holds_once_def ran_def)

lemma holds_only: "holds_once m S \<Longrightarrow> m h = Some x \<Longrightarrow> m k = Some x \<Longrightarrow> h = k"
  unfolding holds_once_def inj_on_def by (metis domI)

lemma holds_empty [simp]: "holds_once Map.empty S \<longleftrightarrow> S = {}"
  by (auto simp: holds_once_def)

lemma holds_ex: "holds_once m S \<Longrightarrow> x \<in> S \<longleftrightarrow> (\<exists>h. m h = Some x)"
  by (auto simp: holds_once_def ran_def)

lemma holdsI:
  assumes "\<And>x. x \<in> S \<longleftrightarrow> (\<exists>h. m h = Some x)" "\<And>h k x. m h = Some x \<Longrightarrow> m k = Some x \<Longrightarrow> h = k"
  shows "holds_once m S"
proof -
  have "ran m = S" unfolding ran_def using assms(1) by blast
  moreover have "inj_on m (dom m)"
  proof (rule inj_onI)
    fix h k assume "h \<in> dom m" "m h = m k"
    then obtain x where "m h = Some x" by blast
    moreover from this have "m k = Some x" using \<open>m h = m k\<close> by simp
    ultimately show "h = k" by (rule assms(2))
  qed
  ultimately show ?thesis by (simp add: holds_once_def)
qed

lemma holds_add:
  assumes "holds_once m S" "m h = None" "x \<notin> S"
  shows "holds_once (m(h \<mapsto> x)) (insert x S)"
proof -
  have "(\<exists>k. (m(h \<mapsto> x)) k = Some y) \<longleftrightarrow> y = x \<or> (\<exists>k. m k = Some y)" for y
    using assms(2) by (cases "y = x") (auto, metis option.distinct(1))
  then have "y \<in> insert x S \<longleftrightarrow> (\<exists>k. (m(h \<mapsto> x)) k = Some y)" for y
    using holds_ex [OF assms(1)] by simp
  moreover have "j = k" if "(m(h \<mapsto> x)) j = Some y" "(m(h \<mapsto> x)) k = Some y" for j k y
    using that assms holds_in [OF assms(1)] holds_only [OF assms(1)] by (auto split: if_splits)
  ultimately show ?thesis by (rule holdsI)
qed

lemma holds_remove:
  assumes "holds_once m S" "m h = Some x"
  shows "holds_once (m(h := None)) (S - {x})"
proof -
  have "(\<exists>k. (m(h := None)) k = Some y) \<longleftrightarrow> y \<noteq> x \<and> (\<exists>k. m k = Some y)" for y
  proof (cases "y = x")
    case True
    then show ?thesis by (auto dest: holds_only [OF assms])
  next
    case False
    then have "m h \<noteq> Some y" using assms(2) by simp
    then have "m k = Some y \<longleftrightarrow> (m(h := None)) k = Some y" for k by simp
    then show ?thesis using False by metis
  qed
  then have "y \<in> S - {x} \<longleftrightarrow> (\<exists>k. (m(h := None)) k = Some y)" for y
    using holds_ex [OF assms(1)] by auto
  moreover have "j = k" if "(m(h := None)) j = Some y" "(m(h := None)) k = Some y" for j k y
    using that holds_only [OF assms(1)] by (auto split: if_splits)
  ultimately show ?thesis by (rule holdsI)
qed

lemma holds_move:
  assumes "holds_once m S" "m h = Some x" "y \<notin> S"
  shows "holds_once (m(h \<mapsto> y)) (insert y (S - {x}))"
  using holds_add [OF holds_remove [OF assms(1,2)], of h y] assms(3) by simp

lemma holds_drop: "holds_once m S \<Longrightarrow> holds_once (m(h := None)) (S - set_option (m h))"
  using holds_remove [of m S h] by (cases "m h") (auto simp: fun_upd_idem)

lemma holds_put: "holds_once m S \<Longrightarrow> m h = None \<Longrightarrow> set_option v \<inter> S = {} \<Longrightarrow> holds_once (m(h := v)) (S \<union> set_option v)"
  using holds_add [of m S h] by (cases v) (auto simp: fun_upd_idem)

end
