(* ===== verification/Gpu_Flights.thy ===== *)
theory Gpu_Flights
  imports Holders "HOL-Library.Multiset"
begin

text \<open>
  The textures of the SDL3 driver and who may draw on the GPU, \<^verbatim>\<open>src/src/host/gui_sdl3.cpp\<close>. A
  texture is a record found by its handle, and what it holds of the GPU, the fence of its last draw
  and the two targets that triangles are drawn to, are numbers SDL hands out. The numbers that are
  held are kept track of: a fence that is asked about, or a thing that is released, when it is not
  held any more, makes the call \<open>None\<close>, as does an index outside \<open>gpu_flights\<close>.
\<close>

section \<open>Textures\<close>

record gpu_tex =
  tx_texture :: nat
  tx_mode :: u64
  tx_fence :: "nat option"
  tx_drawn_at :: u64
  tx_made_at :: u64
  tx_depth :: "nat option"
  tx_samples :: "nat option"
  tx_depth_w :: u32
  tx_depth_h :: u32

record gpu =
  gp_device :: bool
  gp_textures :: "nat \<rightharpoonup> gpu_tex"
  gp_fences :: "nat set"  \<comment> \<open>fences held\<close>
  gp_targets :: "nat set"  \<comment> \<open>depth buffers and sample targets held\<close>
  gp_flights :: "nat list"
  gp_waiting :: "nat option"
  gp_since :: u64
  gp_presents :: u64

definition gpu0 :: gpu where
  "gpu0 = \<lparr>gp_device = True, gp_textures = Map.empty, gp_fences = {}, gp_targets = {}, gp_flights = [], gp_waiting = None,
     gp_since = 0, gp_presents = 0\<rparr>"

definition FLIGHTS :: nat where "FLIGHTS = 32"
definition gpu_fresh_ns :: u64 where "gpu_fresh_ns = 3000000"
definition gpu_turn_ns :: u64 where "gpu_turn_ns = 100000000"

definition new_texture :: "nat \<Rightarrow> u64 \<Rightarrow> gpu \<Rightarrow> gpu_tex" where
  "new_texture t mode g = \<lparr>tx_texture = t, tx_mode = mode, tx_fence = None, tx_drawn_at = 0, tx_made_at = gp_presents g,
     tx_depth = None, tx_samples = None, tx_depth_w = 0, tx_depth_h = 0\<rparr>"

text \<open>A texture is made by \<open>host_gui_create_texture\<close>, or by \<open>host_gui_shader_texture\<close> with a device:
  of SDL's texture, if there is one, at the handle that is free.\<close>

definition gpu_create_texture :: "nat option \<Rightarrow> u64 \<Rightarrow> nat \<Rightarrow> gpu \<Rightarrow> nat option \<times> gpu" where
  "gpu_create_texture t mode h g = (case t of
       None \<Rightarrow> (None, g)
     | Some t \<Rightarrow> (Some h, g\<lparr>gp_textures := (gp_textures g)(h \<mapsto> new_texture t mode g)\<rparr>))"

definition gpu_shader_texture :: "nat option \<Rightarrow> nat \<Rightarrow> gpu \<Rightarrow> nat option \<times> gpu" where
  "gpu_shader_texture t h g = (if \<not> gp_device g then (None, g) else gpu_create_texture t 0 h g)"

section \<open>The draws that are on the go\<close>

text \<open>\<open>gpu_flights[i--] = gpu_flights[--gpu_num_flights]\<close>\<close>

definition drop_flight :: "nat \<Rightarrow> nat list \<Rightarrow> nat list" where
  "drop_flight i fl = butlast (fl[i := last fl])"

function forget_loop :: "nat \<Rightarrow> nat \<Rightarrow> nat list \<Rightarrow> nat list" where
  "forget_loop h i fl =
     (if i < length fl then (if fl ! i = h then forget_loop h i (drop_flight i fl) else forget_loop h (i + 1) fl) else fl)"
  by pat_completeness auto
termination by (relation "measure (\<lambda>(h, i, fl). length fl - i)") (auto simp: drop_flight_def)

declare forget_loop.simps [simp del]

definition gpu_forget :: "nat \<Rightarrow> gpu \<Rightarrow> gpu" where
  "gpu_forget h g = g\<lparr>gp_flights := forget_loop h 0 (gp_flights g)\<rparr>"

definition release_fence :: "nat \<Rightarrow> gpu \<Rightarrow> gpu option" where
  "release_fence f g = (if f \<in> gp_fences g then Some (g\<lparr>gp_fences := gp_fences g - {f}\<rparr>) else None)"

definition release_target :: "nat option \<Rightarrow> gpu \<Rightarrow> gpu option" where
  "release_target t g = (case t of None \<Rightarrow> Some g
     | Some t \<Rightarrow> if t \<in> gp_targets g then Some (g\<lparr>gp_targets := gp_targets g - {t}\<rparr>) else None)"

definition set_tex :: "nat \<Rightarrow> gpu_tex \<Rightarrow> gpu \<Rightarrow> gpu" where
  "set_tex h t g = g\<lparr>gp_textures := (gp_textures g)(h \<mapsto> t)\<rparr>"

text \<open>A texture is destroyed. With no device what it held went with the device.\<close>

definition host_gui_destroy_texture :: "nat \<Rightarrow> gpu \<Rightarrow> gpu option" where
  "host_gui_destroy_texture h g = (case gp_textures g h of
       None \<Rightarrow> None
     | Some t \<Rightarrow>
         Option.bind (if gp_device g then (case tx_fence t of Some f \<Rightarrow> release_fence f g | None \<Rightarrow> Some g) else Some g) (\<lambda>g.
         Option.bind (if gp_device g then release_target (tx_depth t) g else Some g) (\<lambda>g.
         Option.bind (if gp_device g then release_target (tx_samples t) g else Some g) (\<lambda>g.
         let g = gpu_forget h g;
             g = (if gp_waiting g = Some h then g\<lparr>gp_waiting := None\<rparr> else g) in
         Some (g\<lparr>gp_textures := (gp_textures g)(h := None)\<rparr>)))))"

section \<open>May this texture have a draw now ?\<close>

text \<open>The loop over the flights: those the GPU is done with leave, and whether one of the others is
  not fresh. \<open>done f\<close> is what \<open>SDL_QueryGPUFence\<close> answers.\<close>

function flights_loop :: "(nat \<Rightarrow> bool) \<Rightarrow> u64 \<Rightarrow> nat \<Rightarrow> bool \<Rightarrow> gpu \<Rightarrow> (bool \<times> gpu) option" where
  "flights_loop fin now i busy g =
     (if i < length (gp_flights g) then
        (let other = gp_flights g ! i in
         (case gp_textures g other of
            None \<Rightarrow> None
          | Some t \<Rightarrow> (case tx_fence t of
              None \<Rightarrow> None
            | Some f \<Rightarrow>
                if f \<notin> gp_fences g then None
                else if fin f then
                  flights_loop fin now i busy
                    (set_tex other (t\<lparr>tx_fence := None\<rparr>)
                       (g\<lparr>gp_fences := gp_fences g - {f}, gp_flights := drop_flight i (gp_flights g)\<rparr>))
                else flights_loop fin now (i + 1) (busy \<or> gpu_fresh_ns < now - tx_drawn_at t) g)))
      else Some (busy, g))"
  by pat_completeness auto
termination
  by (relation "measure (\<lambda>(fin, now, i, busy, g). length (gp_flights g) - i)") (auto simp: drop_flight_def set_tex_def)

declare flights_loop.simps [simp del]

text \<open>Its own last draw: \<open>Some (True, g)\<close> when that is still on the go.\<close>

definition own_draw :: "(nat \<Rightarrow> bool) \<Rightarrow> nat \<Rightarrow> gpu_tex \<Rightarrow> gpu \<Rightarrow> (bool \<times> gpu) option" where
  "own_draw fin h t g = (case tx_fence t of
       None \<Rightarrow> Some (False, g)
     | Some f \<Rightarrow>
         if f \<notin> gp_fences g then None
         else if \<not> fin f then Some (True, g)
         else map_option (\<lambda>g. (False, gpu_forget h (set_tex h (t\<lparr>tx_fence := None\<rparr>) g))) (release_fence f g))"

text \<open>Whose turn it is.\<close>

definition gpu_turn :: "u64 \<Rightarrow> nat \<Rightarrow> bool \<Rightarrow> gpu \<Rightarrow> bool \<times> gpu" where
  "gpu_turn now h busy g =
     (let g = (if gp_waiting g \<noteq> None \<and> gpu_turn_ns < now - gp_since g then g\<lparr>gp_waiting := None\<rparr> else g) in
      if busy \<or> (gp_waiting g \<noteq> None \<and> gp_waiting g \<noteq> Some h) \<or> FLIGHTS \<le> length (gp_flights g)
      then (False, if gp_waiting g = None then g\<lparr>gp_waiting := Some h, gp_since := now\<rparr> else g)
      else (True, if gp_waiting g = Some h then g\<lparr>gp_waiting := None\<rparr> else g))"

definition gpu_may_draw :: "(nat \<Rightarrow> bool) \<Rightarrow> u64 \<Rightarrow> nat \<Rightarrow> gpu \<Rightarrow> (bool \<times> gpu) option" where
  "gpu_may_draw fin now h g = (case gp_textures g h of
       None \<Rightarrow> None
     | Some t \<Rightarrow> (case own_draw fin h t g of
         None \<Rightarrow> None
       | Some (True, g) \<Rightarrow> Some (False, g)
       | Some (False, g) \<Rightarrow> map_option (\<lambda>(busy, g). gpu_turn now h busy g) (flights_loop fin now 0 False g)))"

text \<open>A draw has been handed to the GPU, with the fence SDL gives for it, if it gives one.\<close>

definition gpu_drawing :: "nat \<Rightarrow> nat option \<Rightarrow> u64 \<Rightarrow> gpu \<Rightarrow> gpu option" where
  "gpu_drawing h fence now g = (case gp_textures g h of
       None \<Rightarrow> None
     | Some t \<Rightarrow>
         (let g = set_tex h (t\<lparr>tx_fence := fence, tx_drawn_at := now\<rparr>) g in
          (case fence of
             None \<Rightarrow> Some g
           | Some f \<Rightarrow> if length (gp_flights g) < FLIGHTS
               then Some (g\<lparr>gp_flights := gp_flights g @ [h], gp_fences := insert f (gp_fences g)\<rparr>) else None)))"

text \<open>A frame of the GUI is shown.\<close>

definition gpu_present :: "gpu \<Rightarrow> gpu" where
  "gpu_present g = g\<lparr>gp_presents := gp_presents g + 1\<rparr>"

text \<open>The device goes, with the fences and targets that were made on it, and another is made: what the driver
  keeps of textures and flights is as it was.\<close>

definition gpu_deinit :: "gpu \<Rightarrow> gpu" where
  "gpu_deinit g = (if gp_device g then g\<lparr>gp_device := False, gp_fences := {}, gp_targets := {}\<rparr> else g)"

definition gpu_init :: "bool \<Rightarrow> gpu \<Rightarrow> gpu" where
  "gpu_init device g = g\<lparr>gp_device := device\<rparr>"

section \<open>Leaving the flights\<close>

lemma drop_flight_mset:
  assumes "i < length fl"
  shows "mset (drop_flight i fl) = mset fl - {#fl ! i#}"
proof -
  have ne: "fl \<noteq> []" "fl[i := last fl] \<noteq> []" using assms by auto
  have "last (fl[i := last fl]) = last fl" using ne assms by (simp add: last_conv_nth nth_list_update)
  then have "mset (fl[i := last fl]) = add_mset (last fl) (mset (drop_flight i fl))"
    using append_butlast_last_id [OF ne(2)] unfolding drop_flight_def
    by (metis mset_append mset.simps add_mset_add_single union_commute)
  then show ?thesis using assms by (simp add: mset_update)
qed

lemma take_drop_flight [simp]: "i < length fl \<Longrightarrow> take i (drop_flight i fl) = take i fl"
  by (simp add: drop_flight_def butlast_conv_take min_def) (auto simp: take_update_cancel)

lemma drop_flight_distinct:
  assumes "distinct fl" "i < length fl"
  shows "set (drop_flight i fl) = set fl - {fl ! i}" "distinct (drop_flight i fl)" "length (drop_flight i fl) = length fl - 1"
proof -
  have c: "count (mset (drop_flight i fl)) a = (if a \<in> set fl - {fl ! i} then 1 else 0)" for a
    using assms by (auto simp: drop_flight_mset distinct_count_atmost_1)
  then have "a \<in> set (drop_flight i fl) \<longleftrightarrow> a \<in> set fl - {fl ! i}" for a
    by (metis count_eq_zero_iff in_multiset_in_set zero_neq_one)
  then show s: "set (drop_flight i fl) = set fl - {fl ! i}" by blast
  then show "distinct (drop_flight i fl)" using c by (simp add: distinct_count_atmost_1)
  show "length (drop_flight i fl) = length fl - 1" by (simp add: drop_flight_def)
qed

lemma forget_loop_spec:
  assumes "distinct fl" "h \<notin> set (take i fl)"
  shows "distinct (forget_loop h i fl) \<and> set (forget_loop h i fl) = set fl - {h} \<and> length (forget_loop h i fl) \<le> length fl"
  using assms
proof (induction h i fl rule: forget_loop.induct)
  case (1 h i fl)
  show ?case
  proof (cases "i < length fl")
    case False
    then show ?thesis using 1(3,4) by (simp add: forget_loop.simps [of h i fl])
  next
    case True
    note d = drop_flight_distinct [OF 1(3) True]
    show ?thesis
    proof (cases "fl ! i = h")
      case yes: True
      have eq: "forget_loop h i fl = forget_loop h i (drop_flight i fl)"
        using True yes by (subst forget_loop.simps) simp
      have "h \<notin> set (take i (drop_flight i fl))" using True 1(4) by simp
      from "1.IH"(1) [OF True yes d(2) this] show ?thesis
        unfolding eq d(1) yes using d(3) by (metis Diff_idemp diff_le_self le_trans)
    next
      case no: False
      have eq: "forget_loop h i fl = forget_loop h (i + 1) fl"
        using True no by (subst forget_loop.simps) simp
      have "h \<notin> set (take (i + 1) fl)" using True 1(4) no by (simp add: take_Suc_conv_app_nth)
      from "1.IH"(2) [OF True no 1(3) this] show ?thesis unfolding eq .
    qed
  qed
qed

section \<open>What holds of the flights\<close>

definition held :: "gpu \<Rightarrow> nat \<Rightarrow> nat option" where
  "held g h = Option.bind (gp_textures g h) tx_fence"

text \<open>With a device, the flights are the textures with a fence, each once, and the fences held are theirs.\<close>

definition flights_ok :: "gpu \<Rightarrow> bool" where
  "flights_ok g \<longleftrightarrow> distinct (gp_flights g) \<and> set (gp_flights g) = dom (held g) \<and> length (gp_flights g) \<le> FLIGHTS \<and>
     holds_once (held g) (gp_fences g) \<and> (\<forall>h. gp_waiting g = Some h \<longrightarrow> h \<in> dom (gp_textures g))"

lemma held_set_tex: "held (set_tex h t g) = (held g)(h := tx_fence t)"
  by (auto simp: held_def set_tex_def)

lemma held_gpu_update [simp]:
  "held (g\<lparr>gp_fences := F\<rparr>) = held g" "held (g\<lparr>gp_flights := l\<rparr>) = held g" "held (g\<lparr>gp_targets := F\<rparr>) = held g"
  "held (g\<lparr>gp_waiting := w\<rparr>) = held g" "held (g\<lparr>gp_since := n\<rparr>) = held g" "held (gpu_forget h g) = held g"
  by (simp_all add: held_def gpu_forget_def fun_eq_iff)

text \<open>A fence the GPU is done with goes, and its texture leaves the flights.\<close>

definition land :: "nat \<Rightarrow> gpu_tex \<Rightarrow> nat \<Rightarrow> nat list \<Rightarrow> gpu \<Rightarrow> gpu" where
  "land h t f fl g = set_tex h (t\<lparr>tx_fence := None\<rparr>) (g\<lparr>gp_fences := gp_fences g - {f}, gp_flights := fl\<rparr>)"

lemma land_ok:
  assumes "flights_ok g" "gp_textures g h = Some t" "tx_fence t = Some f"
    "distinct fl" "set fl = set (gp_flights g) - {h}" "length fl \<le> length (gp_flights g)"
  shows "flights_ok (land h t f fl g)"
proof -
  have h: "held g h = Some f" using assms(2,3) by (simp add: held_def)
  have held: "held (land h t f fl g) = (held g)(h := None)" by (simp add: land_def held_set_tex)
  have "holds_once ((held g)(h := None)) (gp_fences g - {f})"
    using holds_remove [of "held g" "gp_fences g" h f] h assms(1) by (simp add: flights_ok_def)
  moreover have "set fl = dom ((held g)(h := None))" using assms(1,5) by (auto simp: flights_ok_def)
  ultimately show ?thesis
    using assms(1,2,4,6) unfolding flights_ok_def held
    by (auto simp: land_def set_tex_def)
qed

text \<open>Whether a draw is still on the go, and whether it is one that holds others up.\<close>

definition going :: "(nat \<Rightarrow> bool) \<Rightarrow> gpu \<Rightarrow> nat \<Rightarrow> bool" where
  "going fin g h \<longleftrightarrow> (\<exists>f. held g h = Some f \<and> \<not> fin f)"

definition stale :: "u64 \<Rightarrow> gpu \<Rightarrow> nat \<Rightarrow> bool" where
  "stale now g h \<longleftrightarrow> (\<exists>t. gp_textures g h = Some t \<and> gpu_fresh_ns < now - tx_drawn_at t)"

text \<open>What the loop leaves: the textures but for the fences of the draws that are done.\<close>

definition settled :: "(nat \<Rightarrow> bool) \<Rightarrow> gpu \<Rightarrow> gpu \<Rightarrow> bool" where
  "settled fin g g' \<longleftrightarrow> flights_ok g' \<and> set (gp_flights g') = {h. going fin g h} \<and>
     gp_textures g' = (\<lambda>h. map_option (\<lambda>t. if going fin g h then t else t\<lparr>tx_fence := None\<rparr>) (gp_textures g h)) \<and>
     gp_device g' = gp_device g \<and> gp_targets g' = gp_targets g \<and> gp_waiting g' = gp_waiting g \<and> gp_since g' = gp_since g \<and>
     gp_presents g' = gp_presents g"

lemma all_going_settled:
  assumes "flights_ok g" "\<forall>x \<in> set (gp_flights g). going fin g x"
  shows "settled fin g g"
proof -
  have fl: "set (gp_flights g) = dom (held g)" using assms(1) by (auto simp: flights_ok_def)
  have "x \<in> set (gp_flights g) \<longleftrightarrow> going fin g x" for x using assms(2) fl by (auto simp: going_def)
  moreover have "gp_textures g h = map_option (\<lambda>t. if going fin g h then t else t\<lparr>tx_fence := None\<rparr>) (gp_textures g h)" for h
  proof (cases "gp_textures g h")
    case (Some t)
    have "tx_fence t = None" if "\<not> going fin g h"
      using that assms(2) fl Some by (cases "tx_fence t") (auto simp: held_def)
    then have "\<not> going fin g h \<Longrightarrow> t\<lparr>tx_fence := None\<rparr> = t" by (cases t) simp
    then show ?thesis by (simp add: Some)
  qed simp
  ultimately show ?thesis using assms(1) by (auto simp: settled_def)
qed

text \<open>Landing one that is done changes nothing of what the loop is to find.\<close>

lemma land_settles:
  assumes "gp_textures g h = Some t" "tx_fence t = Some f" "fin f"
  shows "going fin (land h t f fl g) x = going fin g x"
    "(\<exists>x. going fin (land h t f fl g) x \<and> stale now (land h t f fl g) x) \<longleftrightarrow> (\<exists>x. going fin g x \<and> stale now g x)"
    "x \<noteq> h \<Longrightarrow> stale now (land h t f fl g) x = stale now g x"
    "settled fin (land h t f fl g) g' \<Longrightarrow> settled fin g g'"
proof -
  let ?g = "land h t f fl g"
  have notgo: "\<not> going fin g h" using assms by (auto simp: going_def held_def)
  have go: "going fin ?g x = going fin g x" for x using notgo by (auto simp: going_def land_def held_set_tex)
  have tex: "gp_textures ?g x = (if x = h then Some (t\<lparr>tx_fence := None\<rparr>) else gp_textures g x)" for x
    by (simp add: land_def set_tex_def)
  have others: "gp_device ?g = gp_device g" "gp_targets ?g = gp_targets g" "gp_waiting ?g = gp_waiting g"
    "gp_since ?g = gp_since g" "gp_presents ?g = gp_presents g" by (simp_all add: land_def set_tex_def)
  have st: "x \<noteq> h \<Longrightarrow> stale now ?g x = stale now g x" for x by (simp add: stale_def tex)
  show "going fin ?g x = going fin g x" by (rule go)
  show "x \<noteq> h \<Longrightarrow> stale now ?g x = stale now g x" by (rule st)
  show "(\<exists>x. going fin ?g x \<and> stale now ?g x) \<longleftrightarrow> (\<exists>x. going fin g x \<and> stale now g x)"
    using notgo st by (auto simp: go) metis+
  show "settled fin ?g g' \<Longrightarrow> settled fin g g'"
    using notgo assms(1) by (auto simp: settled_def go tex others fun_eq_iff)
qed

lemma flights_loop_settles:
  assumes "flights_ok g" "\<forall>x \<in> set (take i (gp_flights g)). going fin g x"
    "busy \<longleftrightarrow> (\<exists>x \<in> set (take i (gp_flights g)). stale now g x)"
  shows "\<exists>busy' g'. flights_loop fin now i busy g = Some (busy', g') \<and> settled fin g g' \<and>
    (busy' \<longleftrightarrow> (\<exists>x. going fin g x \<and> stale now g x))"
  using assms
proof (induction fin now i busy g rule: flights_loop.induct)
  case (1 fin now i busy g)
  have fl: "distinct (gp_flights g)" "set (gp_flights g) = dom (held g)" using "1.prems"(1) by (auto simp: flights_ok_def)
  note step = flights_loop.simps [of fin now i busy g]
  show ?case
  proof (cases "i < length (gp_flights g)")
    case False
    then have all: "take i (gp_flights g) = gp_flights g" by simp
    have "settled fin g g" using all_going_settled "1.prems"(1,2) by (simp add: all)
    moreover from this have "set (gp_flights g) = {x. going fin g x}" by (simp add: settled_def)
    ultimately show ?thesis using "1.prems"(3) False step by (auto simp: all)
  next
    case True
    let ?h = "gp_flights g ! i"
    have "?h \<in> dom (held g)" using True fl(2) by (metis nth_mem)
    then obtain t f where t: "gp_textures g ?h = Some t" "tx_fence t = Some f"
      by (auto simp: held_def bind_eq_Some_conv)
    have h: "held g ?h = Some f" using t by (simp add: held_def)
    then have f: "f \<in> gp_fences g" using "1.prems"(1) by (auto simp: flights_ok_def holds_in)
    show ?thesis
    proof (cases "fin f")
      case False
      have eq: "flights_loop fin now i busy g = flights_loop fin now (i + 1) (busy \<or> gpu_fresh_ns < now - tx_drawn_at t) g"
        using step True t f False by simp
      have "going fin g ?h" "stale now g ?h \<longleftrightarrow> gpu_fresh_ns < now - tx_drawn_at t"
        using h False t by (auto simp: going_def stale_def)
      then show ?thesis
        unfolding eq using "1.prems"
        by (intro "1.IH"(2) [OF True refl t(1,2) _ False]) (auto simp: f take_Suc_conv_app_nth True)
    next
      case fin: True
      let ?g = "land ?h t f (drop_flight i (gp_flights g)) g"
      note d = drop_flight_distinct [OF fl(1) True] and land = land_settles [of g ?h t f fin, OF t fin]
      have eq: "flights_loop fin now i busy g = flights_loop fin now i busy ?g"
        using step True t f fin by (simp add: land_def)
      have ok: "flights_ok ?g" using land_ok [OF "1.prems"(1) t d(2,1)] d(3) by simp
      have fl': "take i (gp_flights ?g) = take i (gp_flights g)" using True by (simp add: land_def set_tex_def)
      have "\<not> going fin g ?h" using h fin by (auto simp: going_def)
      then have "x \<noteq> ?h" if "x \<in> set (take i (gp_flights g))" for x using that "1.prems"(2) by auto
      then have pre: "\<forall>x \<in> set (take i (gp_flights ?g)). going fin ?g x"
        "busy \<longleftrightarrow> (\<exists>x \<in> set (take i (gp_flights ?g)). stale now ?g x)"
        using "1.prems"(2,3) by (auto simp: land(1,3) fl')
      have "\<exists>busy' g'. flights_loop fin now i busy ?g = Some (busy', g') \<and> settled fin ?g g' \<and>
          (busy' \<longleftrightarrow> (\<exists>x. going fin ?g x \<and> stale now ?g x))"
        using "1.IH"(1) [OF True refl t _ fin] f ok pre unfolding land_def by blast
      then show ?thesis using eq land(2,4) by auto
    qed
  qed
qed

section \<open>Who may draw\<close>

text \<open>Whose turn it is, with a turn that has run out.\<close>

definition turn_of :: "u64 \<Rightarrow> gpu \<Rightarrow> nat option" where
  "turn_of now g = (if gpu_turn_ns < now - gp_since g then None else gp_waiting g)"

definition held_up :: "(nat \<Rightarrow> bool) \<Rightarrow> u64 \<Rightarrow> nat \<Rightarrow> gpu \<Rightarrow> bool" where
  "held_up fin now h g \<longleftrightarrow> (\<exists>x. going fin g x \<and> stale now g x) \<or> turn_of now g \<notin> {None, Some h} \<or> FLIGHTS \<le> card {x. going fin g x}"

lemma flights_card: "flights_ok g \<Longrightarrow> length (gp_flights g) = card (set (gp_flights g))"
  using distinct_card by (metis flights_ok_def)

lemma flights_ok_waiting:
  "flights_ok g \<Longrightarrow> flights_ok (g\<lparr>gp_waiting := None\<rparr>)"
  "flights_ok (g\<lparr>gp_waiting := None\<rparr>) \<Longrightarrow> gp_textures g h = Some t \<Longrightarrow> flights_ok (g\<lparr>gp_waiting := Some h, gp_since := n\<rparr>)"
  by (auto simp: flights_ok_def)

lemma turn_ok:
  assumes "flights_ok g" "h \<in> dom (gp_textures g)" "gpu_turn now h busy g = (ok, g')"
  shows "flights_ok g' \<and> gp_flights g' = gp_flights g \<and> gp_textures g' = gp_textures g \<and> gp_targets g' = gp_targets g \<and>
    gp_device g' = gp_device g \<and> gp_presents g' = gp_presents g \<and>
    (ok \<longleftrightarrow> \<not> busy \<and> turn_of now g \<in> {None, Some h} \<and> length (gp_flights g) < FLIGHTS) \<and>
    gp_waiting g' = (if ok then None else case turn_of now g of None \<Rightarrow> Some h | Some w \<Rightarrow> Some w) \<and>
    gp_since g' = (if \<not> ok \<and> turn_of now g = None then now else gp_since g)"
proof -
  let ?g = "if gp_waiting g \<noteq> None \<and> gpu_turn_ns < now - gp_since g then g\<lparr>gp_waiting := None\<rparr> else g"
  have w: "gp_waiting ?g = turn_of now g" "gp_flights ?g = gp_flights g" "gp_since ?g = gp_since g"
    "gp_textures ?g = gp_textures g" "gp_targets ?g = gp_targets g" "gp_device ?g = gp_device g" "gp_presents ?g = gp_presents g"
    by (auto simp: turn_of_def)
  have ok: "flights_ok ?g" using assms(1) by (simp add: flights_ok_waiting)
  show ?thesis
    using assms(2,3) w ok unfolding gpu_turn_def Let_def
    by (auto simp: flights_ok_waiting split: if_splits option.splits)
qed

lemma own_draw_done:
  assumes "flights_ok g" "gp_textures g h = Some t" "\<not> going fin g h"
  obtains g1 where "own_draw fin h t g = Some (False, g1)" "flights_ok g1" "\<forall>x. going fin g1 x = going fin g x"
    "gp_textures g1 = (gp_textures g)(h \<mapsto> t\<lparr>tx_fence := None\<rparr>)"
    "gp_device g1 = gp_device g" "gp_targets g1 = gp_targets g" "gp_waiting g1 = gp_waiting g"
    "gp_since g1 = gp_since g" "gp_presents g1 = gp_presents g"
proof (cases "tx_fence t")
  case None
  then have "t\<lparr>tx_fence := None\<rparr> = t" by (cases t) simp
  with None show ?thesis
    using assms by (intro that [of g]) (auto simp: own_draw_def fun_eq_iff)
next
  case (Some f)
  then have h: "held g h = Some f" using assms(2) by (simp add: held_def)
  then have f: "fin f" "f \<in> gp_fences g" using assms(1,3) by (auto simp: going_def flights_ok_def holds_in)
  let ?fl = "forget_loop h 0 (gp_flights g)"
  let ?g = "land h t f ?fl g"
  have fl: "distinct ?fl \<and> set ?fl = set (gp_flights g) - {h} \<and> length ?fl \<le> length (gp_flights g)"
    using forget_loop_spec [of "gp_flights g" h 0] assms(1) by (simp add: flights_ok_def)
  have "own_draw fin h t g = Some (False, ?g)"
    using Some f by (simp add: own_draw_def release_fence_def land_def gpu_forget_def set_tex_def)
  moreover have "flights_ok ?g" using land_ok [OF assms(1,2) Some] fl by blast
  moreover note land_settles(1) [of g h t f fin ?fl, OF assms(2) Some f(1)]
  ultimately show ?thesis
    by (intro that [of ?g]) (auto simp: land_def set_tex_def)
qed

lemma may_draw_spec:
  assumes "flights_ok g" "gp_textures g h = Some t"
  shows "\<exists>ok g'. gpu_may_draw fin now h g = Some (ok, g') \<and> flights_ok g' \<and> gp_device g' = gp_device g \<and>
    gp_targets g' = gp_targets g \<and> gp_presents g' = gp_presents g \<and>
    (if going fin g h then \<not> ok \<and> g' = g
     else set (gp_flights g') = {x. going fin g x} \<and>
       gp_textures g' = (\<lambda>x. map_option (\<lambda>t. if going fin g x then t else t\<lparr>tx_fence := None\<rparr>) (gp_textures g x)) \<and>
       (ok \<longleftrightarrow> \<not> held_up fin now h g) \<and>
       gp_waiting g' = (if ok then None else case turn_of now g of None \<Rightarrow> Some h | Some w \<Rightarrow> Some w) \<and>
       gp_since g' = (if \<not> ok \<and> turn_of now g = None then now else gp_since g))"
proof (cases "going fin g h")
  case True
  then obtain f where h: "held g h = Some f" "\<not> fin f" by (auto simp: going_def)
  then have f: "f \<in> gp_fences g" using assms(1) by (auto simp: flights_ok_def holds_in)
  moreover have "tx_fence t = Some f" using h(1) assms(2) by (simp add: held_def)
  ultimately show ?thesis using assms True h(2)
    by (intro exI [of _ False] exI [of _ g]) (simp add: gpu_may_draw_def own_draw_def)
next
  case False
  text \<open>its own draw is done, or it has none\<close>
  obtain g1 where own: "own_draw fin h t g = Some (False, g1)" "flights_ok g1" and go': "\<forall>x. going fin g1 x = going fin g x"
    and tex: "gp_textures g1 = (gp_textures g)(h \<mapsto> t\<lparr>tx_fence := None\<rparr>)"
    and rest: "gp_device g1 = gp_device g" "gp_targets g1 = gp_targets g" "gp_waiting g1 = gp_waiting g"
      "gp_since g1 = gp_since g" "gp_presents g1 = gp_presents g"
    by (rule own_draw_done [of g h t fin, OF assms False])
  have go: "going fin g1 x = going fin g x" for x using go' by blast
  obtain busy g2 where l: "flights_loop fin now 0 False g1 = Some (busy, g2)" "settled fin g1 g2"
    "busy \<longleftrightarrow> (\<exists>x. going fin g1 x \<and> stale now g1 x)"
    using flights_loop_settles [OF own(2), of 0 fin False now] by auto
  obtain ok g3 where turn: "gpu_turn now h busy g2 = (ok, g3)" by (cases "gpu_turn now h busy g2")
  have tex2: "gp_textures g2 = (\<lambda>x. map_option (\<lambda>t. if going fin g x then t else t\<lparr>tx_fence := None\<rparr>) (gp_textures g x))"
    using l(2) assms(2) False by (auto simp: settled_def tex go fun_eq_iff)
  have g2: "flights_ok g2" "set (gp_flights g2) = {x. going fin g x}" "gp_device g2 = gp_device g" "gp_targets g2 = gp_targets g"
    "gp_presents g2 = gp_presents g" "turn_of now g2 = turn_of now g" "gp_since g2 = gp_since g"
    using l(2) rest by (auto simp: settled_def go turn_of_def)
  have h2: "h \<in> dom (gp_textures g2)" using assms(2) by (simp add: tex2 dom_def)
  have "stale now g1 x = stale now g x" if "x \<noteq> h" for x using that by (simp add: stale_def tex)
  then have b: "busy \<longleftrightarrow> (\<exists>x. going fin g x \<and> stale now g x)" using l(3) False by (auto simp: go) metis+
  have len: "length (gp_flights g2) = card {x. going fin g x}" using flights_card [OF g2(1)] g2(2) by simp
  have "gpu_may_draw fin now h g = Some (ok, g3)" using assms(2) own l turn by (simp add: gpu_may_draw_def)
  moreover have "ok \<longleftrightarrow> \<not> held_up fin now h g"
    using turn_ok [OF g2(1) h2 turn] b len g2 by (auto simp: held_up_def)
  ultimately show ?thesis
    using turn_ok [OF g2(1) h2 turn] False g2 tex2 by auto
qed

lemma may_draw_going:
  "flights_ok g \<Longrightarrow> gp_textures g h = Some t \<Longrightarrow> going fin g h \<Longrightarrow> gpu_may_draw fin now h g = Some (False, g)"
  using may_draw_spec [of g h t fin now] by auto

lemma may_draw_settles:
  assumes "flights_ok g" "gp_textures g h = Some t" "\<not> going fin g h"
  obtains g' where "gpu_may_draw fin now h g = Some (\<not> held_up fin now h g, g')" "flights_ok g'"
    "gp_device g' = gp_device g" "gp_targets g' = gp_targets g" "set (gp_flights g') = {x. going fin g x}"
    "gp_textures g' = (\<lambda>x. map_option (\<lambda>t. if going fin g x then t else t\<lparr>tx_fence := None\<rparr>) (gp_textures g x))"
    "gp_waiting g' = (if \<not> held_up fin now h g then None else case turn_of now g of None \<Rightarrow> Some h | Some w \<Rightarrow> Some w)"
    "gp_since g' = (if held_up fin now h g \<and> turn_of now g = None then now else gp_since g)"
  using may_draw_spec [OF assms(1,2), of fin now] assms(3) by (auto simp del: split_paired_Ex)

text \<open>Asked with a right table of flights, the driver lets a texture draw exactly when its own last draw is done, no other draw that is still on the go is older than 3 ms, no other texture has the turn, and fewer than 32 draws are on the go; nothing is asked of, or released of, a fence that is not held.\<close>

theorem who_may_draw:
  assumes "flights_ok g" "gp_textures g h = Some t"
  shows "\<exists>ok g'. gpu_may_draw fin now h g = Some (ok, g') \<and> flights_ok g' \<and>
    (ok \<longleftrightarrow> \<not> going fin g h \<and> (\<forall>x. going fin g x \<longrightarrow> \<not> stale now g x) \<and> turn_of now g \<in> {None, Some h} \<and>
      card {x. going fin g x} < FLIGHTS)"
proof (cases "going fin g h")
  case True
  then show ?thesis using may_draw_going [OF assms True] assms(1) by (intro exI [of _ False] exI [of _ g]) simp
next
  case False
  obtain g' where "gpu_may_draw fin now h g = Some (\<not> held_up fin now h g, g')" "flights_ok g'"
    by (rule may_draw_settles [OF assms False, of now])
  then show ?thesis using False
    by (intro exI [of _ "\<not> held_up fin now h g"] exI [of _ g']) (auto simp: held_up_def not_le)
qed

text \<open>Textures that ask one after another, each at its time, with what the GPU is done with by then.\<close>

fun ask_run :: "((nat \<Rightarrow> bool) \<times> u64 \<times> nat) list \<Rightarrow> gpu \<Rightarrow> (bool list \<times> gpu) option" where
  "ask_run [] g = Some ([], g)"
| "ask_run ((fin, now, h) # asks) g = (case gpu_may_draw fin now h g of
     None \<Rightarrow> None
   | Some (ok, g) \<Rightarrow> (case ask_run asks g of None \<Rightarrow> None | Some (oks, g) \<Rightarrow> Some (ok # oks, g)))"

definition others_ask :: "nat \<Rightarrow> gpu \<Rightarrow> ((nat \<Rightarrow> bool) \<times> u64 \<times> nat) list \<Rightarrow> bool" where
  "others_ask h g asks \<longleftrightarrow> (\<forall>(fin, now, x) \<in> set asks. x \<noteq> h \<and> x \<in> dom (gp_textures g) \<and> now - gp_since g \<le> gpu_turn_ns)"

lemma other_is_refused:
  assumes "flights_ok g" "gp_waiting g = Some h" "x \<noteq> h" "x \<in> dom (gp_textures g)" "now - gp_since g \<le> gpu_turn_ns"
  shows "\<exists>g'. gpu_may_draw fin now x g = Some (False, g') \<and> flights_ok g' \<and> gp_waiting g' = Some h \<and> gp_since g' = gp_since g \<and>
    dom (gp_textures g') = dom (gp_textures g)"
proof -
  obtain t where t: "gp_textures g x = Some t" using assms(4) by auto
  have turn: "turn_of now g = Some h" using assms(2,5) by (simp add: turn_of_def)
  then have up: "held_up fin now x g" using assms(3) by (simp add: held_up_def)
  show ?thesis
  proof (cases "going fin g x")
    case True
    then show ?thesis using may_draw_going [OF assms(1) t True] assms(1,2) by simp
  next
    case False
    obtain g' where m: "gpu_may_draw fin now x g = Some (\<not> held_up fin now x g, g')" "flights_ok g'"
      and tex: "gp_textures g' = (\<lambda>y. map_option (\<lambda>t. if going fin g y then t else t\<lparr>tx_fence := None\<rparr>) (gp_textures g y))"
      and w: "gp_waiting g' = (if \<not> held_up fin now x g then None else case turn_of now g of None \<Rightarrow> Some x | Some w \<Rightarrow> Some w)"
        "gp_since g' = (if held_up fin now x g \<and> turn_of now g = None then now else gp_since g)"
      by (rule may_draw_settles [OF assms(1) t False, of now])
    have "dom (gp_textures g') = dom (gp_textures g)" unfolding tex by (auto simp: dom_def)
    then show ?thesis using m w up turn by simp
  qed
qed

lemma others_are_refused:
  assumes "flights_ok g" "gp_waiting g = Some h" "others_ask h g asks"
  shows "\<exists>g'. ask_run asks g = Some (replicate (length asks) False, g') \<and> flights_ok g' \<and> gp_waiting g' = Some h \<and>
    gp_since g' = gp_since g \<and> dom (gp_textures g') = dom (gp_textures g)"
  using assms
proof (induction asks g rule: ask_run.induct)
  case (2 fin now x asks g)
  have "x \<noteq> h" "x \<in> dom (gp_textures g)" "now - gp_since g \<le> gpu_turn_ns"
    using "2.prems"(3) by (auto simp: others_ask_def)
  from other_is_refused [OF "2.prems"(1,2) this, of fin]
  obtain g1 where g1: "gpu_may_draw fin now x g = Some (False, g1)" "flights_ok g1" "gp_waiting g1 = Some h"
    "gp_since g1 = gp_since g" "dom (gp_textures g1) = dom (gp_textures g)" by auto
  have "others_ask h g1 asks" using "2.prems"(3) g1(4,5) by (auto simp: others_ask_def)
  from "2.IH" [OF g1(1) refl g1(2,3) this] show ?case using g1 by auto
qed auto


section \<open>A draw handed over, a texture made and a texture destroyed\<close>

lemma drawing_ok:
  assumes "flights_ok g" "gp_textures g h = Some t" "held g h = None" "length (gp_flights g) < FLIGHTS"
    "fence = None \<or> fence = Some f \<and> f \<notin> gp_fences g"
  shows "\<exists>g'. gpu_drawing h fence now g = Some g' \<and> flights_ok g' \<and> gp_device g' = gp_device g \<and> gp_targets g' = gp_targets g \<and>
    gp_textures g' = (gp_textures g)(h \<mapsto> t\<lparr>tx_fence := fence, tx_drawn_at := now\<rparr>)"
proof (cases fence)
  case None
  let ?g = "set_tex h (t\<lparr>tx_fence := None, tx_drawn_at := now\<rparr>) g"
  have "held ?g = held g" using assms(3) by (auto simp: held_set_tex)
  then have "flights_ok ?g" using assms(1,2) unfolding flights_ok_def by (auto simp: set_tex_def)
  then show ?thesis using None assms(2) by (simp add: gpu_drawing_def Let_def) (simp add: set_tex_def)
next
  case (Some f')
  then have f: "fence = Some f" "f \<notin> gp_fences g" using assms(5) by auto
  let ?g = "set_tex h (t\<lparr>tx_fence := Some f, tx_drawn_at := now\<rparr>) g\<lparr>gp_flights := gp_flights g @ [h], gp_fences := insert f (gp_fences g)\<rparr>"
  have held: "held ?g = (held g)(h \<mapsto> f)" by (simp add: held_set_tex)
  have dom: "set (gp_flights g) = dom (held g)" using assms(1) by (auto simp: flights_ok_def)
  have "holds_once ((held g)(h \<mapsto> f)) (insert f (gp_fences g))"
    using holds_add [of "held g" "gp_fences g" h f] assms(1,3) f(2) by (simp add: flights_ok_def)
  moreover have "h \<notin> set (gp_flights g)" using assms(3) dom by auto
  ultimately have "flights_ok ?g"
    using assms(1,2,4) dom unfolding flights_ok_def held by (auto simp: set_tex_def)
  then show ?thesis using f assms(2,4) by (simp add: gpu_drawing_def Let_def set_tex_def)
qed

section \<open>A device that is made again\<close>

text \<open>Neither the end of the driver nor its start forgets the draws on the go: after both, a texture that is asked about while another had a draw has the driver ask the new device about a fence of the old one.\<close>

theorem fence_outlives_device:
  assumes "flights_ok g" "gp_device g" "h \<in> dom (held g)" "gp_textures g x = Some t" "tx_fence t = None"
  shows "gpu_may_draw fin now x (gpu_init True (gpu_deinit g)) = None"
proof -
  let ?g = "gpu_init True (gpu_deinit g)"
  have g: "gp_textures ?g = gp_textures g" "gp_flights ?g = gp_flights g" "gp_fences ?g = {}"
    using assms(2) by (simp_all add: gpu_init_def gpu_deinit_def)
  have fl: "set (gp_flights g) = dom (held g)" using assms(1) by (simp add: flights_ok_def)
  then have n: "0 < length (gp_flights g)" using assms(3) by auto
  then have "gp_flights g ! 0 \<in> dom (held g)" using fl nth_mem by blast
  then obtain u f where "gp_textures g (gp_flights g ! 0) = Some u" "tx_fence u = Some f"
    by (auto simp: held_def bind_eq_Some_conv)
  then have "flights_loop fin now 0 False ?g = None"
    using n by (subst flights_loop.simps) (simp add: g)
  then show ?thesis using assms(4,5) by (simp add: gpu_may_draw_def own_draw_def g)
qed

section \<open>The properties at work\<close>

text \<open>Two textures: the draw of the first is on the go, and the second was refused.\<close>

definition two_textures :: gpu where
  "two_textures = (let g = snd (gpu_create_texture (Some 8) 0 1 (snd (gpu_create_texture (Some 7) 0 0 gpu0))) in
     set_tex 0 ((new_texture 7 0 g)\<lparr>tx_fence := Some 40\<rparr>) g\<lparr>gp_fences := {40}, gp_flights := [0], gp_waiting := Some 1\<rparr>)"

lemmas two_textures_defs = two_textures_def gpu_create_texture_def gpu0_def new_texture_def set_tex_def

lemma two_textures_held: "held two_textures = [0 \<mapsto> 40]"
  by (auto simp: held_def two_textures_defs fun_eq_iff)

lemma two_textures_there: "gp_textures two_textures 1 = Some (new_texture 8 0 gpu0)" "gp_waiting two_textures = Some 1"
  "dom (gp_textures two_textures) = {0, 1}" "gp_since two_textures = 0"
  by (auto simp: two_textures_defs split: if_splits)

lemma two_textures_ok: "flights_ok two_textures"
  unfolding flights_ok_def two_textures_held
  by (auto simp: two_textures_there holds_once_def FLIGHTS_def) (auto simp: two_textures_defs)

theorem who_may_draw_witness:
  "\<exists>ok g'. gpu_may_draw (\<lambda>f. f = 40) 3000001 1 two_textures = Some (ok, g') \<and> ok"
proof -
  have "\<not> going (\<lambda>f. f = 40) two_textures x" for x by (auto simp: going_def two_textures_held split: if_splits)
  moreover have "turn_of 3000001 two_textures = Some 1" by (simp add: turn_of_def two_textures_there gpu_turn_ns_def)
  ultimately show ?thesis
    using who_may_draw [OF two_textures_ok two_textures_there(1), of "\<lambda>f. f = 40" 3000001] by (auto simp: FLIGHTS_def)
qed



theorem fence_outlives_device_witness: "gpu_may_draw fin now 1 (gpu_init True (gpu_deinit two_textures)) = None"
  by (rule fence_outlives_device [where h = 0, OF two_textures_ok _ _ two_textures_there(1)])
    (simp_all add: two_textures_held, simp_all add: new_texture_def two_textures_def gpu0_def set_tex_def gpu_create_texture_def Let_def)

end
