(* ===== verification/Gpu_Shaders.thy ===== *)
theory Gpu_Shaders
  imports Holders
begin

text \<open>
  The shaders of the SDL3 driver, \<^verbatim>\<open>src/src/host/gui_sdl3.cpp\<close>: made by the GUI service, built by a
  thread of their own, and destroyed while they may still be building. A thread takes its steps one
  at a time between the calls. What the thread and the service share is the state of the shader,
  which is only changed by compare and swap, so a step of the model is what lies between two of
  those. Memory of a shader that is read or freed after it was freed, a pipeline that is released
  when it is not held, and a thread that uses a device that is gone, make a step \<open>None\<close>.
\<close>

section \<open>Shaders\<close>

datatype shader_state = Shader_building | Shader_ready | Shader_failed | Shader_dropped

record shader =
  sh_pipeline :: "nat option"
  sh_state :: shader_state
  sh_format :: u64
  sh_vertex :: "u8 list"
  sh_fragment :: "u8 list"
  sh_mesh :: bool
  sh_num_attrs :: nat
  sh_attrs :: "nat list"
  sh_cull :: u8
  sh_stride :: u32
  sh_num_textures :: nat

text \<open>Where a thread that builds is: at its start, or with the pipeline made, if it could be.\<close>

datatype build_phase = Build_start | Build_made "nat option"

record shade =
  sd_device :: bool
  sd_msl :: bool  \<comment> \<open>the formats SDL says the device takes\<close>
  sd_spirv :: bool
  sd_depth :: bool  \<comment> \<open>and whether it has a depth format\<close>
  sd_shaders :: "nat \<rightharpoonup> shader"
  sd_pipelines :: "nat set"  \<comment> \<open>pipelines held\<close>
  sd_working :: "nat \<rightharpoonup> build_phase"
  sd_leaving :: nat  \<comment> \<open>threads that have only the count left to do\<close>
  sd_builds :: nat
  sd_handles :: "nat set"  \<comment> \<open>handles the service has\<close>

definition host_gui_shader_format :: "shade \<Rightarrow> u64" where
  "host_gui_shader_format s = (if \<not> sd_device s then 0 else if sd_msl s then 1 else if sd_spirv s then 2 else 0)"

text \<open>A copy of the code is a byte more, and zero.\<close>

definition copy_code :: "u8 list \<Rightarrow> u8 list" where
  "copy_code code = code @ [0]"

definition start_shader :: "nat \<Rightarrow> shader \<Rightarrow> u8 list \<Rightarrow> u8 list \<Rightarrow> shade \<Rightarrow> shade" where
  "start_shader h sh vertex fragment s =
     s\<lparr>sd_shaders := (sd_shaders s)(h \<mapsto> sh\<lparr>sh_pipeline := None, sh_format := host_gui_shader_format s,
          sh_vertex := copy_code vertex, sh_fragment := copy_code fragment, sh_state := Shader_building\<rparr>),
       sd_working := (sd_working s)(h \<mapsto> Build_start), sd_builds := sd_builds s + 1, sd_handles := insert h (sd_handles s)\<rparr>"

definition shader0 :: shader where
  "shader0 = \<lparr>sh_pipeline = None, sh_state = Shader_building, sh_format = 0, sh_vertex = [], sh_fragment = [], sh_mesh = False,
     sh_num_attrs = 0, sh_attrs = [], sh_cull = 0, sh_stride = 0, sh_num_textures = 0\<rparr>"

definition host_gui_shader_create :: "nat \<Rightarrow> u8 list \<Rightarrow> u8 list \<Rightarrow> shade \<Rightarrow> nat option \<times> shade" where
  "host_gui_shader_create h vertex fragment s =
     (if host_gui_shader_format s = 0 then (None, s)
      else (Some h, start_shader h (shader0\<lparr>sh_mesh := False, sh_num_textures := 0\<rparr>) vertex fragment s))"

section \<open>A pair that draws triangles\<close>

definition max_pair_textures :: nat where "max_pair_textures = 8"

text \<open>The layout is bytes: the count of the attrs, the cull, the floats of each attr, the pictures. \<open>None\<close> is a
  read past its end.\<close>

definition layout_byte :: "u8 list \<Rightarrow> nat \<Rightarrow> nat option" where
  "layout_byte layout i = (if i < length layout then Some (unat (layout ! i)) else None)"

definition pair_attr :: "nat \<Rightarrow> nat" where
  "pair_attr n = (if n < 1 then 1 else if n > 4 then 4 else n)"

fun pair_attrs :: "u8 list \<Rightarrow> nat \<Rightarrow> nat \<Rightarrow> nat list option" where
  "pair_attrs layout i 0 = Some []"
| "pair_attrs layout i (Suc n) = (case layout_byte layout (2 + i) of
     None \<Rightarrow> None
   | Some b \<Rightarrow> map_option ((#) (pair_attr b)) (pair_attrs layout (i + 1) n))"

definition pair_shader :: "u8 list \<Rightarrow> shader option" where
  "pair_shader layout =
     Option.bind (layout_byte layout 0) (\<lambda>count.
     Option.bind (layout_byte layout 1) (\<lambda>cull.
     Option.bind (pair_attrs layout 0 (if count > 8 then 8 else count)) (\<lambda>attrs.
     Option.bind (layout_byte layout (2 + count)) (\<lambda>textures.
     Some (shader0\<lparr>sh_mesh := True, sh_num_attrs := (if count > 8 then 8 else count), sh_attrs := attrs,
       sh_cull := word_of_nat cull, sh_stride := word_of_nat (sum_list attrs),
       sh_num_textures := (if textures > max_pair_textures then max_pair_textures else textures)\<rparr>)))))"

definition host_gui_pair_create :: "nat \<Rightarrow> u8 list \<Rightarrow> u8 list \<Rightarrow> u8 list \<Rightarrow> shade \<Rightarrow> (nat option \<times> shade) option" where
  "host_gui_pair_create h vertex fragment layout s =
     (if host_gui_shader_format s = 0 \<or> \<not> sd_depth s then Some (None, s)
      else map_option (\<lambda>sh. (Some h, start_shader h sh vertex fragment s)) (pair_shader layout))"

text \<open>Where each attr is in the vertex, and how far it is to the next vertex, in bytes.\<close>

fun attr_offsets :: "nat \<Rightarrow> nat list \<Rightarrow> nat list \<times> nat" where
  "attr_offsets offset [] = ([], offset)"
| "attr_offsets offset (a # as) = (case attr_offsets (offset + a * 4) as of (os, pitch) \<Rightarrow> (offset # os, pitch))"

section \<open>The thread that builds\<close>

text \<open>To the end of \<open>shader->pipeline = pipeline\<close>. What SDL makes of the code is \<open>p\<close>.\<close>

definition build_make :: "nat \<Rightarrow> nat option \<Rightarrow> shade \<Rightarrow> shade option" where
  "build_make h p s = (case sd_shaders s h of
       None \<Rightarrow> None
     | Some sh \<Rightarrow> if \<not> sd_device s then None else
         Some (s\<lparr>sd_shaders := (sd_shaders s)(h \<mapsto> sh\<lparr>sh_vertex := [], sh_fragment := [], sh_pipeline := p\<rparr>),
           sd_pipelines := sd_pipelines s \<union> set_option p, sd_working := (sd_working s)(h \<mapsto> Build_made p)\<rparr>))"

definition release_pipeline :: "nat option \<Rightarrow> shade \<Rightarrow> shade option" where
  "release_pipeline p s = (case p of
       None \<Rightarrow> Some s
     | Some p \<Rightarrow> if sd_device s \<and> p \<in> sd_pipelines s then Some (s\<lparr>sd_pipelines := sd_pipelines s - {p}\<rparr>) else None)"

definition free_shader :: "nat \<Rightarrow> shade \<Rightarrow> shade" where
  "free_shader h s = s\<lparr>sd_shaders := (sd_shaders s)(h := None)\<rparr>"

text \<open>\<open>SDL_CompareAndSwapAtomicInt(&shader->state, shader_building, ...)\<close>, and what is done when it fails.\<close>

definition build_swap :: "nat \<Rightarrow> nat option \<Rightarrow> shade \<Rightarrow> shade option" where
  "build_swap h p s = (case sd_shaders s h of
       None \<Rightarrow> None
     | Some sh \<Rightarrow>
         map_option (\<lambda>s. s\<lparr>sd_working := (sd_working s)(h := None), sd_leaving := sd_leaving s + 1\<rparr>)
          (if sh_state sh = Shader_building
           then Some (s\<lparr>sd_shaders := (sd_shaders s)(h \<mapsto> sh\<lparr>sh_state := (if p \<noteq> None then Shader_ready else Shader_failed)\<rparr>)\<rparr>)
           else map_option (free_shader h) (release_pipeline p s)))"

text \<open>\<open>SDL_AddAtomicInt(&shader_builds, -1)\<close>\<close>

definition build_leave :: "shade \<Rightarrow> shade" where
  "build_leave s = s\<lparr>sd_leaving := sd_leaving s - 1, sd_builds := sd_builds s - 1\<rparr>"

section \<open>Destroying\<close>

definition host_gui_shader_destroy :: "nat \<Rightarrow> shade \<Rightarrow> shade option" where
  "host_gui_shader_destroy h s = (case sd_shaders s h of
       None \<Rightarrow> None
     | Some sh \<Rightarrow>
         map_option (\<lambda>s. s\<lparr>sd_handles := sd_handles s - {h}\<rparr>)
          (if sh_state sh = Shader_building
           then Some (s\<lparr>sd_shaders := (sd_shaders s)(h \<mapsto> sh\<lparr>sh_state := Shader_dropped\<rparr>)\<rparr>)
           else map_option (free_shader h) (if sd_device s then release_pipeline (sh_pipeline sh) s else Some s)))"

text \<open>\<open>host_gui_deinit\<close> waits till no shader is being built, then the device goes, with all that was made on it.\<close>

definition shade_deinit :: "shade \<Rightarrow> shade option" where
  "shade_deinit s = (if sd_builds s > 0 then None else Some (s\<lparr>sd_device := False, sd_pipelines := {}\<rparr>))"

section \<open>A run: calls of the service and steps of the threads\<close>

text \<open>Memory is got that is free, a pipeline is new when SDL makes it, a handle is destroyed by who has it,
  and a layout is whole.\<close>

inductive shade_step :: "shade \<Rightarrow> shade option \<Rightarrow> bool" where
  create: "sd_shaders s h = None \<Longrightarrow> shade_step s (Some (snd (host_gui_shader_create h vertex fragment s)))"
| pair: "sd_shaders s h = None \<Longrightarrow> pair_shader layout = Some sh \<Longrightarrow>
    shade_step s (map_option snd (host_gui_pair_create h vertex fragment layout s))"
| make: "sd_working s h = Some Build_start \<Longrightarrow> \<forall>x. p = Some x \<longrightarrow> x \<notin> sd_pipelines s \<Longrightarrow> shade_step s (build_make h p s)"
| swap: "sd_working s h = Some (Build_made p) \<Longrightarrow> shade_step s (build_swap h p s)"
| leave: "0 < sd_leaving s \<Longrightarrow> shade_step s (Some (build_leave s))"
| destroy: "h \<in> sd_handles s \<Longrightarrow> shade_step s (host_gui_shader_destroy h s)"
| deinit: "sd_builds s = 0 \<Longrightarrow> shade_step s (shade_deinit s)"

definition shade0 :: "bool \<Rightarrow> bool \<Rightarrow> bool \<Rightarrow> shade" where
  "shade0 msl spirv depth = \<lparr>sd_device = True, sd_msl = msl, sd_spirv = spirv, sd_depth = depth, sd_shaders = Map.empty,
     sd_pipelines = {}, sd_working = Map.empty, sd_leaving = 0, sd_builds = 0, sd_handles = {}\<rparr>"

inductive shade_reaches :: "shade \<Rightarrow> bool" where
  start: "shade_reaches (shade0 msl spirv depth)"
| step: "shade_reaches s \<Longrightarrow> shade_step s (Some s') \<Longrightarrow> shade_reaches s'"

section \<open>What holds in every state\<close>

definition pipe :: "shade \<Rightarrow> nat \<rightharpoonup> nat" where
  "pipe s h = Option.bind (sd_shaders s h) sh_pipeline"

text \<open>A shader belongs to the service once it is built, and before that to the thread that builds it; it is
  dropped when the service has no handle to it any more.\<close>

definition owned_right :: "shade \<Rightarrow> nat \<Rightarrow> bool" where
  "owned_right s h = (case sd_shaders s h of
       None \<Rightarrow> sd_working s h = None \<and> h \<notin> sd_handles s
     | Some sh \<Rightarrow> (case sd_working s h of
         None \<Rightarrow> h \<in> sd_handles s \<and> sh_state sh = (if sh_pipeline sh = None then Shader_failed else Shader_ready)
       | Some ph \<Rightarrow> sh_state sh = (if h \<in> sd_handles s then Shader_building else Shader_dropped) \<and>
           sh_pipeline sh = (case ph of Build_start \<Rightarrow> None | Build_made p \<Rightarrow> p)))"

definition counted :: "shade \<Rightarrow> bool" where
  "counted s \<longleftrightarrow> finite (dom (sd_working s)) \<and> sd_builds s = card (dom (sd_working s)) + sd_leaving s"

definition shade_ok :: "shade \<Rightarrow> bool" where
  "shade_ok s \<longleftrightarrow> (\<forall>h. owned_right s h) \<and> counted s \<and> (sd_working s \<noteq> Map.empty \<longrightarrow> sd_device s) \<and>
     (sd_device s \<longrightarrow> holds_once (pipe s) (sd_pipelines s))"

lemma shade_ok0: "shade_ok (shade0 msl spirv depth)"
proof -
  have "pipe (shade0 msl spirv depth) = Map.empty" by (simp add: pipe_def shade0_def fun_eq_iff)
  then show ?thesis by (simp add: shade_ok_def owned_right_def counted_def) (simp add: shade0_def)
qed

text \<open>One shader at a time is changed.\<close>

definition elsewhere :: "nat \<Rightarrow> shade \<Rightarrow> shade \<Rightarrow> bool" where
  "elsewhere h s s' \<longleftrightarrow> (\<forall>k. k \<noteq> h \<longrightarrow> sd_shaders s' k = sd_shaders s k \<and> sd_working s' k = sd_working s k \<and>
     (k \<in> sd_handles s' \<longleftrightarrow> k \<in> sd_handles s))"

lemma owned_same:
  "sd_shaders s' k = sd_shaders s k \<Longrightarrow> sd_working s' k = sd_working s k \<Longrightarrow> (k \<in> sd_handles s' \<longleftrightarrow> k \<in> sd_handles s) \<Longrightarrow>
     owned_right s' k = owned_right s k"
  by (simp only: owned_right_def)

lemma elsewhere_right:
  assumes "elsewhere h s s'" "shade_ok s" "owned_right s' h"
  shows "\<forall>k. owned_right s' k"
  using assms owned_same [of s' _ s] unfolding elsewhere_def shade_ok_def by metis

lemma pipe_simps:
  "sd_shaders s' = (sd_shaders s)(h \<mapsto> sh) \<Longrightarrow> pipe s' = (pipe s)(h := sh_pipeline sh)"
  "sd_shaders s' = (sd_shaders s)(h := None) \<Longrightarrow> pipe s' = (pipe s)(h := None)"
  by (simp_all add: pipe_def fun_eq_iff)

lemma start_shader_ok:
  assumes "shade_ok s" "sd_shaders s h = None" "sd_device s"
  shows "shade_ok (start_shader h sh v f s)"
proof -
  let ?s = "start_shader h sh v f s"
  have h: "owned_right s h" using assms(1) by (simp add: shade_ok_def)
  then have w: "sd_working s h = None" "h \<notin> sd_handles s" using assms(2) by (auto simp: owned_right_def)
  have "owned_right ?s h" by (simp add: owned_right_def start_shader_def)
  moreover have "elsewhere h s ?s" by (simp add: elsewhere_def start_shader_def)
  ultimately have own: "\<forall>k. owned_right ?s k" using elsewhere_right [OF _ assms(1)] by blast
  have "h \<notin> dom (sd_working s)" using w by auto
  then have "counted ?s" using assms(1) by (simp add: shade_ok_def counted_def start_shader_def)
  moreover have "pipe ?s = pipe s" using assms(2) by (auto simp: pipe_def start_shader_def fun_eq_iff)
  moreover have "sd_pipelines ?s = sd_pipelines s" "sd_device ?s = sd_device s" by (simp_all add: start_shader_def)
  ultimately show ?thesis using assms(1,3) own unfolding shade_ok_def by simp
qed

lemma create_ok:
  assumes "shade_ok s" "sd_shaders s h = None"
  shows "shade_ok (snd (host_gui_shader_create h v f s))"
  using assms start_shader_ok [OF assms] by (auto simp: host_gui_shader_create_def host_gui_shader_format_def)

lemma pair_ok:
  assumes "shade_ok s" "sd_shaders s h = None" "pair_shader layout = Some sh"
  shows "\<exists>s'. map_option snd (host_gui_pair_create h v f layout s) = Some s' \<and> shade_ok s'"
  using assms start_shader_ok [OF assms(1,2)] by (auto simp: host_gui_pair_create_def host_gui_shader_format_def)

lemma make_ok:
  assumes "shade_ok s" "sd_working s h = Some Build_start" "\<forall>x. p = Some x \<longrightarrow> x \<notin> sd_pipelines s"
  shows "\<exists>s'. build_make h p s = Some s' \<and> shade_ok s'"
proof -
  have own: "owned_right s h" and dev: "sd_device s" and ho: "holds_once (pipe s) (sd_pipelines s)"
    using assms(1,2) by (auto simp: shade_ok_def)
  obtain sh where sh: "sd_shaders s h = Some sh" "sh_pipeline sh = None"
    using own assms(2) by (cases "sd_shaders s h") (auto simp: owned_right_def)
  obtain s' where s': "build_make h p s = Some s'" using sh dev by (simp add: build_make_def)
  have new: "sd_shaders s' = (sd_shaders s)(h \<mapsto> sh\<lparr>sh_vertex := [], sh_fragment := [], sh_pipeline := p\<rparr>)"
    "sd_working s' = (sd_working s)(h \<mapsto> Build_made p)" "sd_handles s' = sd_handles s" "sd_device s'"
    "sd_pipelines s' = sd_pipelines s \<union> set_option p" "sd_builds s' = sd_builds s" "sd_leaving s' = sd_leaving s"
    using s' sh dev by (auto simp: build_make_def)
  have "owned_right s' h" using own sh assms(2) by (simp add: owned_right_def new)
  moreover have "elsewhere h s s'" by (simp add: elsewhere_def new)
  ultimately have own': "\<forall>k. owned_right s' k" using elsewhere_right [OF _ assms(1)] by blast
  have "dom (sd_working s') = dom (sd_working s)" using assms(2) by (auto simp: new)
  then have "counted s'" using assms(1) by (simp add: shade_ok_def counted_def new)
  moreover have "pipe s h = None" using sh by (simp add: pipe_def)
  then have "holds_once (pipe s') (sd_pipelines s')"
    using ho assms(3) by (cases p) (auto simp: pipe_simps(1) [OF new(1)] new(5) holds_add fun_upd_idem)
  ultimately show ?thesis using s' own' dev unfolding shade_ok_def by (simp add: new)
qed

text \<open>A pipeline that is held is released, and its shader freed.\<close>

lemma release_ok:
  assumes "holds_once (pipe s) (sd_pipelines s)" "sd_shaders s h = Some sh" "sd_device s"
  shows "\<exists>P. release_pipeline (sh_pipeline sh) s = Some (s\<lparr>sd_pipelines := P\<rparr>) \<and> holds_once ((pipe s)(h := None)) P"
proof (cases "sh_pipeline sh")
  case None
  then have "pipe s h = None" using assms(2) by (simp add: pipe_def)
  then show ?thesis
    using None assms(1) by (intro exI [of _ "sd_pipelines s"]) (auto simp: release_pipeline_def fun_upd_idem)
next
  case (Some p)
  then have p: "pipe s h = Some p" using assms(2) by (simp add: pipe_def)
  then show ?thesis
    using Some assms holds_in [OF assms(1) p] holds_remove [OF assms(1) p] by (auto simp: release_pipeline_def)
qed

lemma swap_ok:
  assumes "shade_ok s" "sd_working s h = Some (Build_made p)"
  shows "\<exists>s'. build_swap h p s = Some s' \<and> shade_ok s'"
proof -
  have own: "owned_right s h" and dev: "sd_device s" and ho: "holds_once (pipe s) (sd_pipelines s)" and c: "counted s"
    using assms(1,2) by (auto simp: shade_ok_def)
  obtain sh where sh: "sd_shaders s h = Some sh" "sh_pipeline sh = p"
    "sh_state sh = (if h \<in> sd_handles s then Shader_building else Shader_dropped)"
    using own assms(2) by (cases "sd_shaders s h") (auto simp: owned_right_def)
  have count: "finite (dom (sd_working s) - {h})" "sd_builds s = card (dom (sd_working s) - {h}) + (sd_leaving s + 1)"
    using c assms(2) card_Suc_Diff1 [of "dom (sd_working s)" h] by (auto simp: counted_def dom_def)
  show ?thesis
  proof (cases "h \<in> sd_handles s")
    case True
    let ?sh = "sh\<lparr>sh_state := (if p \<noteq> None then Shader_ready else Shader_failed)\<rparr>"
    obtain s' where s': "build_swap h p s = Some s'" using sh True by (simp add: build_swap_def)
    have new: "sd_shaders s' = (sd_shaders s)(h \<mapsto> ?sh)"
      "sd_working s' = (sd_working s)(h := None)" "sd_handles s' = sd_handles s" "sd_device s'"
      "sd_pipelines s' = sd_pipelines s" "sd_builds s' = sd_builds s" "sd_leaving s' = sd_leaving s + 1"
      using s' sh dev True by (auto simp: build_swap_def)
    have "owned_right s' h" using True sh by (simp add: owned_right_def new)
    moreover have "elsewhere h s s'" by (simp add: elsewhere_def new)
    ultimately have own': "\<forall>k. owned_right s' k" using elsewhere_right [OF _ assms(1)] by blast
    have "counted s'" using count by (simp add: counted_def new)
    moreover have "pipe s' = pipe s" using sh by (simp add: pipe_simps(1) [OF new(1)]) (simp add: pipe_def fun_upd_idem)
    ultimately show ?thesis using s' own' ho unfolding shade_ok_def by (simp add: new)
  next
    case False
    obtain P where P: "release_pipeline p s = Some (s\<lparr>sd_pipelines := P\<rparr>)" "holds_once ((pipe s)(h := None)) P"
      using release_ok [OF ho sh(1) dev] sh(2) by auto
    obtain s' where s': "build_swap h p s = Some s'" using sh False P by (simp add: build_swap_def)
    have new: "sd_shaders s' = (sd_shaders s)(h := None)"
      "sd_working s' = (sd_working s)(h := None)" "sd_handles s' = sd_handles s" "sd_device s'"
      "sd_pipelines s' = P" "sd_builds s' = sd_builds s" "sd_leaving s' = sd_leaving s + 1"
      using s' sh dev False P by (auto simp: build_swap_def free_shader_def)
    have "owned_right s' h" using False by (simp add: owned_right_def new)
    moreover have "elsewhere h s s'" by (simp add: elsewhere_def new)
    ultimately have own': "\<forall>k. owned_right s' k" using elsewhere_right [OF _ assms(1)] by blast
    have "counted s'" using count by (simp add: counted_def new)
    then show ?thesis using s' own' P(2) unfolding shade_ok_def by (simp add: new pipe_simps(2) [OF new(1)])
  qed
qed

lemma destroy_ok:
  assumes "shade_ok s" "h \<in> sd_handles s"
  shows "\<exists>s'. host_gui_shader_destroy h s = Some s' \<and> shade_ok s'"
proof -
  have own: "owned_right s h" and ho: "sd_device s \<longrightarrow> holds_once (pipe s) (sd_pipelines s)" and c: "counted s"
    using assms(1) by (auto simp: shade_ok_def)
  obtain sh where sh: "sd_shaders s h = Some sh" using own assms(2) by (cases "sd_shaders s h") (auto simp: owned_right_def)
  show ?thesis
  proof (cases "sd_working s h")
    case (Some ph)
    then have st: "sh_state sh = Shader_building" using own sh assms(2) by (simp add: owned_right_def)
    obtain s' where s': "host_gui_shader_destroy h s = Some s'" using sh st by (simp add: host_gui_shader_destroy_def)
    have new: "sd_shaders s' = (sd_shaders s)(h \<mapsto> sh\<lparr>sh_state := Shader_dropped\<rparr>)"
      "sd_working s' = sd_working s" "sd_handles s' = sd_handles s - {h}" "sd_device s' = sd_device s"
      "sd_pipelines s' = sd_pipelines s" "sd_builds s' = sd_builds s" "sd_leaving s' = sd_leaving s"
      using s' sh st by (auto simp: host_gui_shader_destroy_def)
    have "owned_right s' h" using Some own sh by (simp add: owned_right_def new)
    moreover have "elsewhere h s s'" by (simp add: elsewhere_def new)
    ultimately have own': "\<forall>k. owned_right s' k" using elsewhere_right [OF _ assms(1)] by blast
    have "pipe s' = pipe s" using sh by (simp add: pipe_simps(1) [OF new(1)]) (simp add: pipe_def fun_upd_idem)
    moreover have "counted s'" using c by (simp add: counted_def new)
    ultimately show ?thesis using s' own' ho assms(1) unfolding shade_ok_def by (simp add: new)
  next
    case None
    then have st: "sh_state sh \<noteq> Shader_building" using own sh by (auto simp: owned_right_def)
    obtain P where P: "(if sd_device s then release_pipeline (sh_pipeline sh) s else Some s) = Some (s\<lparr>sd_pipelines := P\<rparr>)"
      "sd_device s \<longrightarrow> holds_once ((pipe s)(h := None)) P"
      using release_ok [of s h sh] ho sh by (cases "sd_device s") (auto intro: that [of "sd_pipelines s"])
    obtain s' where s': "host_gui_shader_destroy h s = Some s'" using sh st P(1) by (simp add: host_gui_shader_destroy_def)
    have new: "sd_shaders s' = (sd_shaders s)(h := None)"
      "sd_working s' = sd_working s" "sd_handles s' = sd_handles s - {h}" "sd_device s' = sd_device s"
      "sd_pipelines s' = P" "sd_builds s' = sd_builds s" "sd_leaving s' = sd_leaving s"
      using s' sh st P(1) by (auto simp: host_gui_shader_destroy_def free_shader_def)
    have "owned_right s' h" using None by (simp add: owned_right_def new)
    moreover have "elsewhere h s s'" by (simp add: elsewhere_def new)
    ultimately have own': "\<forall>k. owned_right s' k" using elsewhere_right [OF _ assms(1)] by blast
    have "counted s'" using c by (simp add: counted_def new)
    then show ?thesis
      using s' own' P(2) assms(1) unfolding shade_ok_def by (simp add: new pipe_simps(2) [OF new(1)])
  qed
qed

lemma leave_ok: "shade_ok s \<Longrightarrow> 0 < sd_leaving s \<Longrightarrow> shade_ok (build_leave s)"
proof -
  assume s: "shade_ok s" "0 < sd_leaving s"
  have "owned_right (build_leave s) k = owned_right s k" for k by (rule owned_same) (simp_all add: build_leave_def)
  then have "\<forall>k. owned_right (build_leave s) k" using s(1) by (simp add: shade_ok_def)
  moreover have fields: "sd_working (build_leave s) = sd_working s" "sd_device (build_leave s) = sd_device s"
    "sd_pipelines (build_leave s) = sd_pipelines s" by (simp_all add: build_leave_def)
  moreover have "pipe (build_leave s) = pipe s" by (simp add: pipe_def build_leave_def fun_eq_iff)
  moreover have "counted (build_leave s)" using s by (simp add: shade_ok_def counted_def build_leave_def)
  ultimately show ?thesis using s(1) unfolding shade_ok_def by simp
qed

lemma deinit_ok: "shade_ok s \<Longrightarrow> sd_builds s = 0 \<Longrightarrow> \<exists>s'. shade_deinit s = Some s' \<and> shade_ok s'"
proof -
  assume s: "shade_ok s" "sd_builds s = 0"
  let ?s = "s\<lparr>sd_device := False, sd_pipelines := {}\<rparr>"
  have "sd_working s = Map.empty" using s by (auto simp: shade_ok_def counted_def)
  moreover have "owned_right ?s k = owned_right s k" for k by (rule owned_same) simp_all
  ultimately have "shade_ok ?s" using s(1) by (simp add: shade_ok_def counted_def)
  then show ?thesis using s(2) by (simp add: shade_deinit_def)
qed

lemma shade_step_ok:
  assumes "shade_step s r" "shade_ok s"
  shows "\<exists>s'. r = Some s' \<and> shade_ok s'"
  using assms
proof (induction rule: shade_step.induct)
  case (create s h vertex fragment)
  then show ?case using create_ok by blast
next
  case (pair s h layout sh vertex fragment)
  then show ?case using pair_ok by blast
next
  case (make s h p)
  then show ?case using make_ok by blast
next
  case (swap s h p)
  then show ?case using swap_ok by blast
next
  case (leave s)
  then show ?case using leave_ok by blast
next
  case (destroy h s)
  then show ?case using destroy_ok by blast
next
  case (deinit s)
  then show ?case using deinit_ok by blast
qed

lemma shade_reaches_ok: "shade_reaches s \<Longrightarrow> shade_ok s"
  by (induction rule: shade_reaches.induct) (use shade_ok0 shade_step_ok in blast)+

text \<open>C6: However the service makes and destroys shaders, and stops the driver, while threads build them, no step reads or frees the memory of a shader that was freed, releases a pipeline that is not held, or uses a device that is gone.\<close>

theorem shaders_safe:
  assumes "shade_reaches s" "shade_step s r"
  shows "r \<noteq> None"
  using shade_step_ok [OF assms(2) shade_reaches_ok [OF assms(1)]] by auto

text \<open>Nothing is left over: when the service has destroyed all its shaders and no thread builds one, no memory of a shader and no pipeline is held, and none is counted as being built but those about to be counted off.\<close>

theorem no_shader_left:
  assumes "shade_reaches s" "sd_handles s = {}" "sd_working s = Map.empty"
  shows "sd_shaders s = Map.empty \<and> (sd_device s \<longrightarrow> sd_pipelines s = {}) \<and> sd_builds s = sd_leaving s"
proof -
  have ok: "shade_ok s" by (rule shade_reaches_ok [OF assms(1)])
  have none: "sd_shaders s = Map.empty"
  proof
    fix h
    have "owned_right s h" using ok by (simp add: shade_ok_def)
    then show "sd_shaders s h = None" using assms(2,3) by (cases "sd_shaders s h") (auto simp: owned_right_def)
  qed
  then have "pipe s = Map.empty" by (simp add: pipe_def fun_eq_iff)
  then show ?thesis using ok none assms(3) by (auto simp: shade_ok_def counted_def)
qed

section \<open>The layout of a vertex\<close>

lemma pair_attrs_right: "pair_attrs layout i n = Some as \<Longrightarrow> length as = n \<and> (\<forall>a \<in> set as. 1 \<le> a \<and> a \<le> 4)"
  by (induction layout i n arbitrary: as rule: pair_attrs.induct) (auto simp: pair_attr_def split: option.splits)

lemma attr_offsets_right:
  "attr_offsets offset as = (os, pitch) \<Longrightarrow>
     length os = length as \<and> pitch = offset + 4 * sum_list as \<and>
     (\<forall>i < length as. os ! i + 4 * as ! i = (if i + 1 < length as then os ! (i + 1) else pitch))"
proof (induction offset as arbitrary: os pitch rule: attr_offsets.induct)
  case (2 offset a as)
  obtain os' pitch' where r: "attr_offsets (offset + a * 4) as = (os', pitch')" by (cases "attr_offsets (offset + a * 4) as")
  then have eq: "os = offset # os'" "pitch = pitch'" using "2.prems" by simp_all
  have first: "as \<noteq> [] \<Longrightarrow> os' ! 0 = offset + a * 4" using r by (cases as) (auto split: prod.splits)
  note ih = "2.IH" [OF r]
  show ?case
  proof (intro conjI allI impI)
    fix i assume "i < length (a # as)"
    then show "os ! i + 4 * (a # as) ! i = (if i + 1 < length (a # as) then os ! (i + 1) else pitch)"
      using ih first eq by (cases i) auto
  qed (use ih eq in auto)
qed simp

text \<open>Whatever the layout of a pair says, a vertex has at most 8 attributes of 1 to 4 floats, they lie one after another with no gap, and the distance from a vertex to the next, that the GPU is told in bytes, is the stride in floats that the vertices of a mesh are counted with.\<close>

theorem pair_layout_right:
  assumes "pair_shader layout = Some sh" "attr_offsets 0 (sh_attrs sh) = (os, pitch)"
  shows "length os = sh_num_attrs sh \<and> sh_num_attrs sh \<le> 8 \<and> pitch = 4 * unat (sh_stride sh) \<and> sh_num_textures sh \<le> max_pair_textures \<and>
    (\<forall>i < sh_num_attrs sh. 1 \<le> sh_attrs sh ! i \<and> sh_attrs sh ! i \<le> 4 \<and>
      os ! i + 4 * sh_attrs sh ! i = (if i + 1 < sh_num_attrs sh then os ! (i + 1) else pitch))"
proof -
  obtain count as where as: "pair_attrs layout 0 count = Some as" "count \<le> 8" "sh_attrs sh = as" "sh_num_attrs sh = count"
    "sh_stride sh = word_of_nat (sum_list as)" "sh_num_textures sh \<le> max_pair_textures"
    using assms(1) by (auto simp: pair_shader_def shader0_def bind_eq_Some_conv split: if_splits)
  note r = pair_attrs_right [OF as(1)] and o' = attr_offsets_right [OF assms(2)]
  have "\<forall>a \<in> set as. a \<le> 4" using r by blast
  then have "sum_list as \<le> 4 * length as" by (induction as) auto
  then have "unat (sh_stride sh) = sum_list as" using r as(2) by (simp add: as(5) unsigned_of_nat take_bit_nat_eq_self)
  then show ?thesis using r o' as by auto
qed

section \<open>The properties at work\<close>

theorem pair_layout_right_witness:
  "pair_shader [2, 1, 3, 9, 1] = Some (shader0\<lparr>sh_mesh := True, sh_num_attrs := 2, sh_attrs := [3, 4], sh_cull := 1,
     sh_stride := 7, sh_num_textures := 1\<rparr>) \<and> (28 :: nat) = 4 * unat (7 :: u32)"
proof -
  have "pair_attrs [2, 1, 3, 9, 1] 0 (Suc (Suc 0)) = Some [3, 4]" by (simp add: layout_byte_def pair_attr_def)
  then have attrs: "pair_attrs [2, 1, 3, 9, 1] 0 2 = Some [3, 4]" by (simp only: numeral_2_eq_2)
  have "pair_shader [2, 1, 3, 9, 1] = Some (shader0\<lparr>sh_mesh := True, sh_num_attrs := 2, sh_attrs := [3, 4], sh_cull := 1,
      sh_stride := 7, sh_num_textures := 1\<rparr>)" (is "_ = Some ?sh")
    by (simp add: pair_shader_def layout_byte_def attrs max_pair_textures_def)
  moreover have "attr_offsets 0 (sh_attrs ?sh) = ([0, 12], 28)" by simp
  ultimately show ?thesis using pair_layout_right [of "[2, 1, 3, 9, 1]" ?sh "[0, 12]" 28] by simp
qed

text \<open>A shader is made, and destroyed before its thread has begun. The thread makes a pipeline, finds
  the shader dropped, and gives both back.\<close>

definition one_shader :: shade where
  "one_shader = snd (host_gui_shader_create 1 [7] [8] (shade0 True False True))"

definition dropped_shader :: shade where
  "dropped_shader = the (host_gui_shader_destroy 1 one_shader)"

definition built_shader :: shade where
  "built_shader = the (build_make 1 (Some 5) dropped_shader)"

definition freed_shader :: shade where
  "freed_shader = the (build_swap 1 (Some 5) built_shader)"

lemmas one_shader_defs = freed_shader_def built_shader_def dropped_shader_def one_shader_def shade0_def host_gui_shader_create_def
  host_gui_shader_format_def start_shader_def shader0_def host_gui_shader_destroy_def build_make_def build_swap_def
  release_pipeline_def free_shader_def

lemma one_shader_reached: "shade_reaches built_shader"
proof -
  have one: "shade_reaches one_shader"
    unfolding one_shader_def
    by (rule shade_reaches.step [OF shade_reaches.start shade_step.create]) (simp add: shade0_def)
  have "shade_step one_shader (Some dropped_shader)"
    using shade_step.destroy [of 1 one_shader] by (simp add: one_shader_defs)
  then have dropped: "shade_reaches dropped_shader" by (rule shade_reaches.step [OF one])
  have "shade_step dropped_shader (Some built_shader)"
    using shade_step.make [of dropped_shader 1 "Some 5"] by (simp add: one_shader_defs)
  then show ?thesis by (rule shade_reaches.step [OF dropped])
qed

theorem shaders_safe_witness: "build_swap 1 (Some 5) built_shader \<noteq> None"
  by (rule shaders_safe [OF one_shader_reached shade_step.swap]) (simp add: one_shader_defs)

theorem no_shader_left_witness: "sd_shaders freed_shader = Map.empty \<and> sd_pipelines freed_shader = {}"
proof -
  have "shade_step built_shader (Some freed_shader)"
    using shade_step.swap [of built_shader 1 "Some 5"] by (simp add: one_shader_defs)
  then have "shade_reaches freed_shader" by (rule shade_reaches.step [OF one_shader_reached])
  then show ?thesis using no_shader_left [of freed_shader] by (simp add: one_shader_defs)
qed

end
