(* ===== verification/Gpu_Draw.thy ===== *)
theory Gpu_Draw
  imports Gpu_Flights Gpu_Shaders Vp64_Memory
begin

text \<open>
  The draws of the SDL3 driver, \<^verbatim>\<open>src/src/host/gui_sdl3.cpp\<close>: a shader drawn into a texture, and a
  frame of triangles, which comes as bytes and is read before any of it is drawn. The memory the
  frame is in is that of the emulator, bytes at 64 bit addresses, and all of it that may be read is
  the frame: a read outside it is an error, as is an entry written past the table that is made for
  the draws, and a handle that is not of a shader or a texture.
\<close>

unbundle bit_operations_syntax

section \<open>The frame\<close>

text \<open>\<open>struct Draw\<close>, 56 bytes of it.\<close>

record draw =
  dr_pair :: u64
  dr_mesh :: u64
  dr_vlen :: u64
  dr_plen :: u64
  dr_vblock :: u64
  dr_pblock :: u64
  dr_textures :: u64

datatype frame_error = Outside_frame | Outside_draws | Not_a_handle | Gpu_fault

text \<open>\<open>SDL_malloc(sizeof(Draw) * (count ? count : 1))\<close>: what the product comes to in 64 bits, and a byte
  for none.\<close>

definition draws_bytes :: "u64 \<Rightarrow> nat" where
  "draws_bytes cnt = (let n = 56 * (if cnt \<noteq> 0 then cnt else 1) in if n = 0 then 1 else unat n)"

definition pad8 :: "u64 \<Rightarrow> u64" where
  "pad8 n = (n + 7) AND NOT 7"

text \<open>The pictures of a pair: the frame waits, result 0, for one whose pixels have not gone to the GPU yet.\<close>

fun frame_pictures :: "vmem \<Rightarrow> gpu \<Rightarrow> u64 \<Rightarrow> nat \<Rightarrow> u64 \<Rightarrow> frame_error + u64" where
  "frame_pictures m g a 0 result = Inr result"
| "frame_pictures m g a (Suc n) result = (case mread I64 m a of
     None \<Rightarrow> Inl Outside_frame
   | Some picture \<Rightarrow>
       if picture = 0 then frame_pictures m g (a + 8) n result
       else (case gp_textures g (unat picture) of
           None \<Rightarrow> Inl Not_a_handle
         | Some t \<Rightarrow> frame_pictures m g (a + 8) n (if tx_made_at t = gp_presents g then 0 else result)))"

text \<open>The four words at the start of an entry.\<close>

definition draw_head :: "vmem \<Rightarrow> u64 \<Rightarrow> (u64 \<times> u64 \<times> u64 \<times> u64) option" where
  "draw_head m a = Option.bind (mread I64 m a) (\<lambda>p. Option.bind (mread I64 m (a + 8)) (\<lambda>n.
     Option.bind (mread I64 m (a + 16)) (\<lambda>v. map_option (\<lambda>q. (p, n, v, q)) (mread I64 m (a + 24)))))"

text \<open>One entry. The state of its shader is read twice, and the thread that builds it may come between:
  \<open>look h = (a, b)\<close> is what the two reads see. The answer is the entry, where the next is and the
  result so far; \<open>None\<close> is a break before the result is known, \<open>Some (Inl r)\<close> one with it.\<close>

definition frame_pair :: "shade \<Rightarrow> u64 \<Rightarrow> frame_error + shader option" where
  "frame_pair s p = (if p = 0 then Inr None else (case sd_shaders s (unat p) of None \<Rightarrow> Inl Not_a_handle | Some sh \<Rightarrow> Inr (Some sh)))"

definition frame_entry :: "vmem \<Rightarrow> gpu \<Rightarrow> shade \<Rightarrow> (nat \<Rightarrow> shader_state \<times> shader_state) \<Rightarrow> u64 \<Rightarrow> u64 \<Rightarrow> u64 \<Rightarrow>
    frame_error + (u64 + (u64 \<times> u64 \<times> draw))" where
  "frame_entry m g s look stop a result = (case draw_head m a of
     None \<Rightarrow> Inl Outside_frame
   | Some (pair, mesh, vlen, plen) \<Rightarrow>
       (let a = a + 32; vpad = pad8 vlen; ppad = pad8 plen in
        if stop < a + vpad + ppad then Inr (Inl result)
        else
          (let d = \<lparr>dr_pair = pair, dr_mesh = mesh, dr_vlen = vlen, dr_plen = plen, dr_vblock = a, dr_pblock = a + vpad,
               dr_textures = a + (vpad + ppad)\<rparr>;
               a = a + (vpad + ppad) in
           (case frame_pair s pair of
              Inl e \<Rightarrow> Inl e
            | Inr None \<Rightarrow> Inr (Inl (- 1))
            | Inr (Some sh) \<Rightarrow>
                (let n = sh_num_textures sh; first = (fst (look (unat pair)) = Shader_ready \<and> sh_mesh sh) in
                 if first \<and> stop < a + 8 * word_of_nat n then Inr (Inl (- 1))
                 else (case (if first then frame_pictures m g a n result else Inr result) of
                     Inl e \<Rightarrow> Inl e
                   | Inr result \<Rightarrow>
                       (let a = (if first then a + 8 * word_of_nat n else a); state = snd (look (unat pair)) in
                        if state = Shader_building then Inr (Inr (a, 0, d))
                        else if state \<noteq> Shader_ready \<or> \<not> sh_mesh sh then Inr (Inl (- 1))
                        else Inr (Inr (a, result, d)))))))))"

text \<open>The loop over the entries, \<open>cap\<close> bytes for the table of the draws. \<open>good\<close> is the length of the list.\<close>

function frame_loop :: "vmem \<Rightarrow> gpu \<Rightarrow> shade \<Rightarrow> (nat \<Rightarrow> shader_state \<times> shader_state) \<Rightarrow> u64 \<Rightarrow> u64 \<Rightarrow> nat \<Rightarrow> u64 \<Rightarrow> u64 \<Rightarrow> draw list \<Rightarrow>
    frame_error + (u64 \<times> draw list)" where
  "frame_loop m g s look stop cnt cap a result draws =
     (if length draws < unat cnt \<and> a + 32 \<le> stop then
        (if cap < 56 * (length draws + 1) then Inl Outside_draws
         else (case frame_entry m g s look stop a result of
             Inl e \<Rightarrow> Inl e
           | Inr (Inl result) \<Rightarrow> Inr (result, draws)
           | Inr (Inr (a, result, d)) \<Rightarrow> frame_loop m g s look stop cnt cap a result (draws @ [d])))
      else Inr (result, draws))"
  by pat_completeness auto
termination
  by (relation "measure (\<lambda>(m, g, s, look, stop, cnt, cap, a, result, draws). unat cnt - length draws)") auto

declare frame_loop.simps [simp del]

definition frame_parse :: "vmem \<Rightarrow> gpu \<Rightarrow> shade \<Rightarrow> (nat \<Rightarrow> shader_state \<times> shader_state) \<Rightarrow> u64 \<Rightarrow> u64 \<Rightarrow> frame_error + (u64 \<times> draw list)" where
  "frame_parse m g s look data len = (case mread I64 m data of
     None \<Rightarrow> Inl Outside_frame
   | Some cnt \<Rightarrow> frame_loop m g s look (data + len) cnt (draws_bytes cnt) (data + 8) 1 [])"

section \<open>What is read is inside the frame\<close>

definition frame_memory :: "vmem \<Rightarrow> u64 \<Rightarrow> u64 \<Rightarrow> bool" where
  "frame_memory m data len \<longleftrightarrow> dom m = cells data (unat len) \<and> unat data + unat len < 2 ^ 63"

definition inside :: "u64 \<Rightarrow> u64 \<Rightarrow> nat \<Rightarrow> nat \<Rightarrow> bool" where
  "inside data len a n \<longleftrightarrow> unat data \<le> a \<and> a + n \<le> unat data + unat len"

lemma cells_inside:
  assumes "frame_memory m data len" "inside data len (unat a) n"
  shows "cells a n \<subseteq> dom m"
proof
  fix x assume "x \<in> cells a n"
  then obtain i where i: "i < n" "x = a + word_of_nat i" by (auto simp: cells_def)
  let ?j = "unat a - unat data + i"
  have le: "unat data \<le> unat a" and j: "?j < unat len" and b: "unat data + unat len < 2 ^ 64"
    using assms i(1) by (auto simp: inside_def frame_memory_def)
  have "data + word_of_nat ?j = a + word_of_nat i"
    using le by (simp add: of_nat_diff)
  then have "x = data + word_of_nat ?j" by (simp add: i(2))
  then have "x \<in> cells data (unat len)" unfolding cells_def using j by blast
  then show "x \<in> dom m" using assms(1) by (simp add: frame_memory_def)
qed

lemma mread_inside: "frame_memory m data len \<Longrightarrow> inside data len (unat a) 8 \<Longrightarrow> \<exists>w. mread I64 m a = Some w"
  using load_le_None [of m a 8] cells_inside [of m data len a 8] by (auto simp: mread_def)

lemma unat_add_small: "unat (a :: u64) + k < 2 ^ 64 \<Longrightarrow> unat (a + word_of_nat k) = unat a + k"
  by (simp add: unat_word_ariths unat_of_nat)

lemma draw_head_inside:
  assumes "frame_memory m data len" "inside data len (unat a) 32"
  shows "\<exists>h. draw_head m a = Some h"
proof -
  have b: "unat a + 32 < 2 ^ 64" using assms by (simp add: inside_def frame_memory_def)
  have "\<exists>w. mread I64 m (a + word_of_nat k) = Some w" if "k \<le> 24" for k
    using that b assms unat_add_small [of a k] by (intro mread_inside [OF assms(1)]) (simp add: inside_def)
  from this [of 0] this [of 8] this [of 16] this [of 24] show ?thesis
    by (auto simp: draw_head_def)
qed

lemma pad8_unat:
  assumes "n < 2 ^ 61"
  shows "unat n \<le> unat (pad8 n)" "unat (pad8 n) \<le> unat n + 7" "unat (pad8 n) mod 8 = 0"
proof -
  have n: "unat n < 2 ^ 61" using assms by (simp add: word_less_nat_alt)
  then have n7: "unat (n + 7) = unat n + 7" using unat_add_small [of n 7] by simp
  have "(7 :: u64) = mask 3" by (simp add: mask_eq_exp_minus_1)
  then have "pad8 n = (n + 7) AND NOT (mask 3)" by (simp add: pad8_def)
  also have "\<dots> = push_bit 3 (drop_bit 3 (n + 7))"
    by (rule bit_word_eqI) (auto simp: bit_and_iff bit_not_iff bit_mask_iff bit_push_bit_iff bit_drop_bit_eq not_less)
  finally have "pad8 n = n + 7 - take_bit 3 (n + 7)" using bits_ident [of 3 "n + 7"] by (simp add: eq_diff_eq)
  moreover have "unat (take_bit 3 (n + 7)) = unat (n + 7) mod 8" unfolding unsigned_take_bit_eq by (simp add: take_bit_eq_mod)
  moreover from this have "take_bit 3 (n + 7) \<le> n + 7" by (simp only: word_le_nat_alt)
  ultimately have "unat (pad8 n) = (unat n + 7) - (unat n + 7) mod 8" by (simp add: unat_sub n7)
  then show "unat n \<le> unat (pad8 n)" "unat (pad8 n) \<le> unat n + 7" "unat (pad8 n) mod 8 = 0"
    by (simp_all add: minus_mod_eq_mult_div)
qed

text \<open>The pictures of an entry.\<close>

lemma pictures_inside:
  assumes "frame_memory m data len" "inside data len (unat a) (8 * n)"
  shows "frame_pictures m g a n r \<noteq> Inl Outside_frame" "frame_pictures m g a n r \<noteq> Inl Outside_draws"
  using assms
proof (induction m g a n r rule: frame_pictures.induct)
  case (2 m g a n result)
  { case 1
    have b: "unat a + 8 < 2 ^ 64" using 1 by (simp add: inside_def frame_memory_def)
    have "inside data len (unat (a + 8)) (8 * n)" using 1 b unat_add_small [of a 8] by (simp add: inside_def)
    moreover obtain w where "mread I64 m a = Some w" using mread_inside 1 by (fastforce simp: inside_def)
    ultimately show ?case using 2(1,3) 1 by (auto split: option.splits) }
  { case 2
    have b: "unat a + 8 < 2 ^ 64" using 2 by (simp add: inside_def frame_memory_def)
    have "inside data len (unat (a + 8)) (8 * n)" using 2 b unat_add_small [of a 8] by (simp add: inside_def)
    then show ?case using "2.IH"(2,4) 2 by (auto split: option.splits) }
qed simp_all

text \<open>The two blocks of a draw, and the handles of its pictures, lie in the frame.\<close>

definition blocks_inside :: "u64 \<Rightarrow> u64 \<Rightarrow> draw \<Rightarrow> bool" where
  "blocks_inside data len d \<longleftrightarrow> inside data len (unat (dr_vblock d)) (unat (dr_vlen d)) \<and>
     inside data len (unat (dr_pblock d)) (unat (dr_plen d))"

definition pictures_in :: "shade \<Rightarrow> u64 \<Rightarrow> u64 \<Rightarrow> draw \<Rightarrow> bool" where
  "pictures_in s data len d \<longleftrightarrow> (\<forall>sh. sd_shaders s (unat (dr_pair d)) = Some sh \<longrightarrow>
     inside data len (unat (dr_textures d)) (8 * sh_num_textures sh))"

definition few_pictures :: "shade \<Rightarrow> bool" where
  "few_pictures s \<longleftrightarrow> (\<forall>h sh. sd_shaders s h = Some sh \<longrightarrow> sh_num_textures sh \<le> max_pair_textures)"

lemma entry_places:
  assumes "frame_memory m data len" "inside data len (unat a) 32" "vlen < 2 ^ 61" "plen < 2 ^ 61"
    "\<not> data + len < a + 32 + pad8 vlen + pad8 plen"
  shows "unat (a + 32) = unat a + 32" "unat (a + 32 + pad8 vlen) = unat a + 32 + unat (pad8 vlen)"
    "unat (a + 32 + (pad8 vlen + pad8 plen)) = unat a + 32 + unat (pad8 vlen) + unat (pad8 plen)"
    "unat a + 32 + unat (pad8 vlen) + unat (pad8 plen) \<le> unat data + unat len"
proof -
  have stop: "unat (data + len) = unat data + unat len" and a: "unat a + 32 < 2 ^ 63"
    using assms(1,2) by (auto simp: frame_memory_def inside_def unat_word_ariths)
  have p: "unat (pad8 vlen) \<le> 2 ^ 61 + 7" "unat (pad8 plen) \<le> 2 ^ 61 + 7"
    using pad8_unat(2) [OF assms(3)] pad8_unat(2) [OF assms(4)] assms(3,4) by (auto simp: word_less_nat_alt)
  show 1: "unat (a + 32) = unat a + 32" using unat_add_small [of a 32] a by simp
  show 2: "unat (a + 32 + pad8 vlen) = unat a + 32 + unat (pad8 vlen)"
    using p a unat_add_small [of "a + 32" "unat (pad8 vlen)"] by (simp add: 1)
  have 3: "unat (a + 32 + pad8 vlen + pad8 plen) = unat a + 32 + unat (pad8 vlen) + unat (pad8 plen)"
    using p a unat_add_small [of "a + 32 + pad8 vlen" "unat (pad8 plen)"] by (simp add: 2)
  then show "unat (a + 32 + (pad8 vlen + pad8 plen)) = unat a + 32 + unat (pad8 vlen) + unat (pad8 plen)"
    by (simp add: add.assoc)
  show "unat a + 32 + unat (pad8 vlen) + unat (pad8 plen) \<le> unat data + unat len"
    using assms(5) by (simp add: not_less word_le_nat_alt 3 stop)
qed

lemma entry_pictures_fit:
  assumes "frame_memory m data len" "unat (a :: u64) \<le> unat data + unat len" "unat data \<le> unat a" "n \<le> max_pair_textures"
    "\<not> data + len < a + 8 * word_of_nat n"
  shows "inside data len (unat a) (8 * n)" "unat (a + 8 * word_of_nat n) = unat a + 8 * n"
proof -
  have stop: "unat (data + len) = unat data + unat len" and b: "unat a + 64 < 2 ^ 64"
    using assms(1,2) by (auto simp: frame_memory_def unat_word_ariths)
  have "a + 8 * word_of_nat n = a + word_of_nat (8 * n)" by simp
  then show e: "unat (a + 8 * word_of_nat n) = unat a + 8 * n"
    using b assms(4) unat_add_small [of a "8 * n"] by (simp add: max_pair_textures_def)
  then show "inside data len (unat a) (8 * n)"
    using assms(3,5) stop by (simp add: inside_def not_less word_le_nat_alt)
qed

lemma frame_entry_goes_on:
  assumes "draw_head m a = Some (p, n, v, q)" "frame_entry m g s look stop a r = Inr (Inr (a', r', d))"
  obtains sh where "frame_pair s p = Inr (Some sh)" "\<not> stop < a + 32 + pad8 v + pad8 q"
    "d = \<lparr>dr_pair = p, dr_mesh = n, dr_vlen = v, dr_plen = q, dr_vblock = a + 32, dr_pblock = a + 32 + pad8 v,
       dr_textures = a + 32 + (pad8 v + pad8 q)\<rparr>"
    "a' = a + 32 + (pad8 v + pad8 q) \<or> fst (look (unat p)) = Shader_ready \<and> sh_mesh sh \<and>
       a' = a + 32 + (pad8 v + pad8 q) + 8 * word_of_nat (sh_num_textures sh) \<and> \<not> stop < a'"
    "r' \<noteq> 0 \<longrightarrow> snd (look (unat p)) = Shader_ready \<and> (fst (look (unat p)) = Shader_ready \<longrightarrow>
       \<not> stop < a + 32 + (pad8 v + pad8 q) + 8 * word_of_nat (sh_num_textures sh))"
  using assms by (auto simp: frame_entry_def Let_def split: sum.splits if_splits option.splits)

lemma frame_entry_fails:
  assumes "draw_head m a = Some (p, n, v, q)" "frame_entry m g s look stop a r = Inl e"
  obtains "e = Not_a_handle"
  | sh where "frame_pair s p = Inr (Some sh)" "\<not> stop < a + 32 + pad8 v + pad8 q"
    "\<not> stop < a + 32 + (pad8 v + pad8 q) + 8 * word_of_nat (sh_num_textures sh)"
    "frame_pictures m g (a + 32 + (pad8 v + pad8 q)) (sh_num_textures sh) r = Inl e"
  using assms by (auto simp: frame_entry_def frame_pair_def Let_def split: sum.splits if_splits option.splits)

lemma frame_pair_few: "few_pictures s \<Longrightarrow> frame_pair s p = Inr (Some sh) \<Longrightarrow> sh_num_textures sh \<le> max_pair_textures"
  "frame_pair s p = Inr (Some sh) \<Longrightarrow> sd_shaders s (unat p) = Some sh"
  by (auto simp: frame_pair_def few_pictures_def split: if_splits option.splits)

lemma frame_entry_no_error:
  assumes fm: "frame_memory m data len" and i: "inside data len (unat a) 32" and few: "few_pictures s"
    and h: "draw_head m a = Some (p, n, v, q)" "v < 2 ^ 61" "q < 2 ^ 61"
  shows "frame_entry m g s look (data + len) a r \<noteq> Inl Outside_frame" "frame_entry m g s look (data + len) a r \<noteq> Inl Outside_draws"
proof -
  have "e = Not_a_handle \<or> e \<noteq> Outside_frame \<and> e \<noteq> Outside_draws" if e: "frame_entry m g s look (data + len) a r = Inl e" for e
    using h(1) e
  proof (cases rule: frame_entry_fails)
    case (2 sh)
    note pl = entry_places [OF fm i h(2,3) 2(2)]
    have "inside data len (unat (a + 32 + (pad8 v + pad8 q))) (8 * sh_num_textures sh)"
      using pl i by (intro entry_pictures_fit(1) [OF fm _ _ frame_pair_few(1) [OF few 2(1)] 2(3)]) (auto simp: inside_def)
    from pictures_inside [OF fm this, of g r] 2(4) show ?thesis by auto
  qed simp
  then show "frame_entry m g s look (data + len) a r \<noteq> Inl Outside_frame" "frame_entry m g s look (data + len) a r \<noteq> Inl Outside_draws"
    by auto
qed

lemma frame_entry_inside:
  assumes fm: "frame_memory m data len" and i: "inside data len (unat a) 32" and few: "few_pictures s"
    and h: "draw_head m a = Some (p, n, v, q)" "v < 2 ^ 61" "q < 2 ^ 61"
    and e: "frame_entry m g s look (data + len) a r = Inr (Inr (a', r', d))"
  shows "unat data \<le> unat a' \<and> unat a' \<le> unat data + unat len" "blocks_inside data len d"
    "fst (look (unat (dr_pair d))) = snd (look (unat (dr_pair d))) \<Longrightarrow> r' \<noteq> 0 \<Longrightarrow> pictures_in s data len d"
proof -
  let ?a = "a + 32 + (pad8 v + pad8 q)"
  obtain sh where sh: "frame_pair s p = Inr (Some sh)" "\<not> data + len < a + 32 + pad8 v + pad8 q"
    and d: "d = \<lparr>dr_pair = p, dr_mesh = n, dr_vlen = v, dr_plen = q, dr_vblock = a + 32, dr_pblock = a + 32 + pad8 v, dr_textures = ?a\<rparr>"
    and a': "a' = ?a \<or> fst (look (unat p)) = Shader_ready \<and> sh_mesh sh \<and> a' = ?a + 8 * word_of_nat (sh_num_textures sh) \<and> \<not> data + len < a'"
    and r': "r' \<noteq> 0 \<longrightarrow> snd (look (unat p)) = Shader_ready \<and> (fst (look (unat p)) = Shader_ready \<longrightarrow>
       \<not> data + len < ?a + 8 * word_of_nat (sh_num_textures sh))"
    using h(1) e by (rule frame_entry_goes_on)
  note pl = entry_places [OF fm i h(2,3) sh(2)] and pads = pad8_unat(1) [OF h(2)] pad8_unat(1) [OF h(3)]
  have lo: "unat data \<le> unat a" using i by (simp add: inside_def)
  have hi: "unat ?a \<le> unat data + unat len" "unat data \<le> unat ?a" using pl lo by simp_all
  note fit = entry_pictures_fit [OF fm hi frame_pair_few(1) [OF few sh(1)]]
  show "unat data \<le> unat a' \<and> unat a' \<le> unat data + unat len"
    using a' hi fit by (auto simp: inside_def)
  show "blocks_inside data len d" using pl pads lo by (simp add: d blocks_inside_def inside_def)
  show "pictures_in s data len d" if "fst (look (unat (dr_pair d))) = snd (look (unat (dr_pair d)))" "r' \<noteq> 0"
    using that r' fit(1) frame_pair_few(2) [OF sh(1)] by (simp add: pictures_in_def d)
qed

text \<open>As far as the loop goes, no length comes near to going round.\<close>

fun lengths_fit :: "vmem \<Rightarrow> gpu \<Rightarrow> shade \<Rightarrow> (nat \<Rightarrow> shader_state \<times> shader_state) \<Rightarrow> u64 \<Rightarrow> nat \<Rightarrow> u64 \<Rightarrow> u64 \<Rightarrow> bool" where
  "lengths_fit m g s look stop 0 a r = True"
| "lengths_fit m g s look stop (Suc k) a r = (case draw_head m a of
     None \<Rightarrow> True
   | Some (p, n, v, q) \<Rightarrow> v < 2 ^ 61 \<and> q < 2 ^ 61 \<and> (case frame_entry m g s look stop a r of
       Inr (Inr (a, r, d)) \<Rightarrow> lengths_fit m g s look stop k a r | _ \<Rightarrow> True))"

definition looks_agree :: "(nat \<Rightarrow> shader_state \<times> shader_state) \<Rightarrow> bool" where
  "looks_agree look \<longleftrightarrow> (\<forall>h. fst (look h) = snd (look h))"

lemma pictures_result: "frame_pictures m g a n r = Inr r' \<Longrightarrow> r' = 0 \<or> r' = r"
proof (induction n arbitrary: a r)
  case (Suc n)
  then show ?case by (auto split: option.splits if_splits dest!: Suc.IH)
qed simp

lemma entry_result:
  "frame_entry m g s look stop a r = Inr (Inr (a', r', d)) \<Longrightarrow> r' = 0 \<or> r' = r"
  "frame_entry m g s look stop a r = Inr (Inl r') \<Longrightarrow> r' = - 1 \<or> r' = r"
  by (auto simp: frame_entry_def Let_def dest: pictures_result split: option.splits sum.splits if_splits)

definition draws_inside :: "shade \<Rightarrow> (nat \<Rightarrow> shader_state \<times> shader_state) \<Rightarrow> u64 \<Rightarrow> u64 \<Rightarrow> u64 \<Rightarrow> draw list \<Rightarrow> bool" where
  "draws_inside s look data len r ds \<longleftrightarrow>
     (\<forall>d \<in> set ds. blocks_inside data len d \<and> (looks_agree look \<and> r \<noteq> 0 \<longrightarrow> pictures_in s data len d))"

lemma frame_loop_inside:
  assumes "frame_memory m data len" "few_pictures s" "stop = data + len" "56 * unat cnt \<le> cap"
    "unat data \<le> unat a" "unat a \<le> unat data + unat len" "lengths_fit m g s look stop (unat cnt - length draws) a r" "r = 0 \<or> r = 1"
    "draws_inside s look data len r draws" "length draws \<le> unat cnt"
  shows "\<exists>e. frame_loop m g s look stop cnt cap a r draws = e \<and> e \<noteq> Inl Outside_frame \<and> e \<noteq> Inl Outside_draws \<and>
    (\<forall>r' ds. e = Inr (r', ds) \<longrightarrow> length ds \<le> unat cnt \<and> (\<forall>d \<in> set ds. blocks_inside data len d) \<and>
      (r' = 1 \<longrightarrow> draws_inside s look data len 1 ds))"
  using assms
proof (induction m g s look stop cnt cap a r draws rule: frame_loop.induct)
  case (1 m g s look stop cnt cap a r draws)
  note fm = "1.prems"(1) and few = "1.prems"(2) and stop = "1.prems"(3)
  show ?case
  proof (cases "length draws < unat cnt \<and> a + 32 \<le> stop")
    case False
    then show ?thesis using "1.prems"(8-10) by (subst frame_loop.simps) (auto simp: draws_inside_def)
  next
    case True
    have stop': "unat (data + len) = unat data + unat len" "unat (a + 32) = unat a + 32"
      using fm "1.prems"(6) by (auto simp: frame_memory_def unat_word_ariths)
    then have i: "inside data len (unat a) 32" using True "1.prems"(5) by (simp add: inside_def stop word_le_nat_alt)
    obtain p n v q where h: "draw_head m a = Some (p, n, v, q)" using draw_head_inside [OF fm i] by auto
    obtain k where k: "unat cnt - length draws = Suc k" "k = unat cnt - length (draws @ [d])" for d
      using True by (metis Suc_diff_Suc length_append_singleton)
    have lens: "v < 2 ^ 61" "q < 2 ^ 61" using "1.prems"(7) h by (simp_all add: k(1))
    note e = frame_entry_no_error [OF fm i few h lens, of g look r, folded stop]
      frame_entry_inside [OF fm i few h lens, of g look r, folded stop]
    have cap: "\<not> cap < 56 * (length draws + 1)" using True "1.prems"(4) by simp
    have step: "frame_loop m g s look stop cnt cap a r draws = (case frame_entry m g s look stop a r of
        Inl e \<Rightarrow> Inl e | Inr (Inl r) \<Rightarrow> Inr (r, draws) | Inr (Inr (a, r, d)) \<Rightarrow> frame_loop m g s look stop cnt cap a r (draws @ [d]))"
      using True cap by (subst frame_loop.simps) simp
    consider (err) x where "frame_entry m g s look stop a r = Inl x" | (brk) r' where "frame_entry m g s look stop a r = Inr (Inl r')"
      | (more) a' r' d where "frame_entry m g s look stop a r = Inr (Inr (a', r', d))"
      by (metis surj_pair sum.exhaust)
    then show ?thesis
    proof cases
      case err
      then show ?thesis using e(1,2) step by simp
    next
      case brk
      then have "r' = - 1 \<or> r' = r" by (rule entry_result(2))
      then show ?thesis using brk step "1.prems"(8-10) by (auto simp: draws_inside_def)
    next
      case more
      note in' = e(3-5) [OF more] and r' = entry_result(1) [OF more]
      have "lengths_fit m g s look stop (unat cnt - length (draws @ [d])) a' r'"
        using "1.prems"(7) h more k(2) [of d] by (simp add: k(1))
      moreover have "draws_inside s look data len r' (draws @ [d])"
        using in' r' "1.prems"(9) by (auto simp: draws_inside_def looks_agree_def)
      ultimately show ?thesis
        using "1.IH" [OF True cap more refl refl refl fm few stop "1.prems"(4)] in' r' "1.prems"(8) True step more by auto
    qed
  qed
qed

text \<open>What a layout says of a shader stays with it, so what holds of all layouts holds of all shaders: the
  pictures are no more than that, and the stride is what the attributes come to.\<close>

definition layout_of :: "shader \<Rightarrow> nat list \<times> u32 \<times> nat" where
  "layout_of sh = (sh_attrs sh, sh_stride sh, sh_num_textures sh)"

lemma reaches_layout:
  assumes "shade_reaches s" "Q (layout_of shader0)" "\<And>layout sh. pair_shader layout = Some sh \<Longrightarrow> Q (layout_of sh)"
  shows "\<forall>h sh. sd_shaders s h = Some sh \<longrightarrow> Q (layout_of sh)"
  using assms(1)
proof (induction rule: shade_reaches.induct)
  case (start msl spirv depth)
  then show ?case by (simp add: shade0_def)
next
  case (step s s')
  from step(2,3) show ?case
  proof (cases rule: shade_step.cases)
    case (pair h layout sh vertex fragment)
    then show ?thesis using assms(3) [of layout sh] step(3)
      by (auto simp: layout_of_def host_gui_pair_create_def start_shader_def split: if_splits)
  qed (use assms(2) in \<open>auto simp: layout_of_def host_gui_shader_create_def start_shader_def shader0_def build_make_def
      build_swap_def build_leave_def host_gui_shader_destroy_def shade_deinit_def release_pipeline_def free_shader_def
      split: if_splits option.splits\<close>)
qed

lemma pair_layout_of:
  "pair_shader layout = Some sh \<Longrightarrow> sh_num_textures sh \<le> max_pair_textures \<and> sum_list (sh_attrs sh) \<le> 32 \<and>
     sh_stride sh = word_of_nat (sum_list (sh_attrs sh))"
proof -
  assume a: "pair_shader layout = Some sh"
  obtain n where n: "pair_attrs layout 0 n = Some (sh_attrs sh)" "n \<le> 8" and r: "sh_num_textures sh \<le> max_pair_textures"
    "sh_stride sh = word_of_nat (sum_list (sh_attrs sh))"
    using a by (auto simp: pair_shader_def shader0_def bind_eq_Some_conv split: if_splits)
  have "\<forall>a \<in> set as. a \<le> 4 \<Longrightarrow> sum_list as \<le> 4 * length as" for as :: "nat list" by (induction as) auto
  from this [of "sh_attrs sh"] show ?thesis using pair_attrs_right [OF n(1)] n(2) r by simp
qed

lemma reaches_few_pictures: "shade_reaches s \<Longrightarrow> few_pictures s"
  using reaches_layout [of s "\<lambda>(as, st, n). n \<le> max_pair_textures"] pair_layout_of
  by (auto simp: few_pictures_def layout_of_def shader0_def)

lemma reaches_strides:
  assumes "shade_reaches s" "sd_shaders s h = Some sh"
  shows "unat (sh_stride sh) = sum_list (sh_attrs sh)"
proof -
  have "case layout_of sh of (as, st, n) \<Rightarrow> unat st = sum_list as"
  proof (rule reaches_layout [OF assms(1), THEN spec, THEN spec, THEN mp, OF _ _ assms(2)])
    fix layout sh assume "pair_shader layout = Some sh"
    from pair_layout_of [OF this] show "case layout_of sh of (as, st, n) \<Rightarrow> unat st = sum_list as"
      by (simp add: layout_of_def unsigned_of_nat take_bit_nat_eq_self)
  qed (simp add: layout_of_def shader0_def)
  then show ?thesis by (simp add: layout_of_def)
qed

text \<open>C9: Of a frame whose lengths do not come near to going round in 64 bits, nothing outside it is read and nothing is written past the table of the draws, whatever its bytes and the states of its shaders; the blocks of every draw lie in it, and, when all of it is to be drawn and no shader was finished while it was read, so do the handles of the pictures.\<close>

theorem frame_read_inside:
  assumes "frame_memory m data len" "8 \<le> unat len" "few_pictures s" "mread I64 m data = Some cnt" "56 * unat cnt < 2 ^ 64"
    "lengths_fit m g s look (data + len) (unat cnt) (data + 8) 1" "frame_parse m g s look data len = r"
  shows "r \<noteq> Inl Outside_frame \<and> r \<noteq> Inl Outside_draws \<and>
    (\<forall>result ds. r = Inr (result, ds) \<longrightarrow> length ds \<le> unat cnt \<and> (\<forall>d \<in> set ds. blocks_inside data len d) \<and>
      (result = 1 \<and> looks_agree look \<longrightarrow> (\<forall>d \<in> set ds. pictures_in s data len d)))"
proof -
  have "unat (data + 8) = unat data + 8" using assms(1,2) unat_add_small [of data 8] by (simp add: frame_memory_def)
  moreover have "unat (56 * cnt) = 56 * unat cnt" using assms(5) by (simp add: unat_word_ariths)
  then have "56 * unat cnt \<le> draws_bytes cnt" by (auto simp: draws_bytes_def Let_def)
  moreover have "draws_inside s look data len 1 []" by (simp add: draws_inside_def)
  moreover have "r = frame_loop m g s look (data + len) cnt (draws_bytes cnt) (data + 8) 1 []"
    using assms(4,7) by (simp add: frame_parse_def)
  ultimately show ?thesis
    using frame_loop_inside [OF assms(1,3) refl, where cnt = cnt and cap = "draws_bytes cnt" and a = "data + 8" and g = g and
        look = look and r = 1 and draws = "[]"] assms(2,6)
    by (auto simp: draws_inside_def)
qed

section \<open>Formats and samples\<close>

text \<open>The format of a depth buffer, the first the device has, found once; and whether it draws 4 samples a
  pixel into the color target and into that depth buffer. What the device has are answers.\<close>

datatype depth_format = Depth_32_float | Depth_24_unorm | Depth_16_unorm

record formats =
  fm_depth :: "depth_format option"
  fm_found :: bool
  fm_four :: bool  \<comment> \<open>\<open>sample_count\<close> is 4 and not 1\<close>

definition find_depth_format :: "(depth_format \<Rightarrow> bool) \<Rightarrow> formats \<Rightarrow> formats" where
  "find_depth_format has f = (if fm_depth f \<noteq> None then f
     else f\<lparr>fm_depth := find has [Depth_32_float, Depth_24_unorm, Depth_16_unorm]\<rparr>)"

definition find_sample_count :: "(depth_format \<Rightarrow> bool) \<Rightarrow> bool \<Rightarrow> (depth_format \<Rightarrow> bool) \<Rightarrow> formats \<Rightarrow> formats" where
  "find_sample_count has color4 depth4 f = (if fm_found f then f
     else (let f = find_depth_format has f in
       f\<lparr>fm_four := fm_four f \<or> (case fm_depth f of None \<Rightarrow> False | Some d \<Rightarrow> color4 \<and> depth4 d), fm_found := True\<rparr>))"

section \<open>The targets of triangles\<close>

text \<open>What a texture needs of its own to have triangles drawn into it, made the first time and when its
  size has changed. What SDL makes are \<open>depth\<close> and \<open>samples\<close>, if it does. The answer is the result, 1 or 0.\<close>

definition take_target :: "nat option \<Rightarrow> gpu \<Rightarrow> gpu" where
  "take_target t g = g\<lparr>gp_targets := gp_targets g \<union> set_option t\<rparr>"

definition make_targets :: "bool \<Rightarrow> nat option \<Rightarrow> nat option \<Rightarrow> u32 \<Rightarrow> u32 \<Rightarrow> nat \<Rightarrow> gpu_tex \<Rightarrow> gpu \<Rightarrow> u64 \<times> gpu" where
  "make_targets four depth samples w h tex t g =
     (let t = t\<lparr>tx_samples := None, tx_depth := depth, tx_depth_w := w, tx_depth_h := h\<rparr>; g = take_target depth g in
      if depth = None then (0, set_tex tex t g)
      else if four
      then (if samples = None then 0 else 1, set_tex tex (t\<lparr>tx_samples := samples\<rparr>) (take_target samples g))
      else (1, set_tex tex t g))"

definition tris_targets :: "bool \<Rightarrow> nat option \<Rightarrow> nat option \<Rightarrow> u32 \<Rightarrow> u32 \<Rightarrow> nat \<Rightarrow> gpu \<Rightarrow> (u64 \<times> gpu) option" where
  "tris_targets four depth samples w h tex g = (case gp_textures g tex of
     None \<Rightarrow> None
   | Some t \<Rightarrow>
       if tx_depth t = None \<or> tx_depth_w t \<noteq> w \<or> tx_depth_h t \<noteq> h
       then Option.bind (release_target (tx_depth t) g) (\<lambda>g.
            map_option (make_targets four depth samples w h tex t) (release_target (tx_samples t) g))
       else Some (1, g))"

section \<open>What is drawn\<close>

text \<open>A pass: the target drawn to, what it is resolved to, and the depth buffer.\<close>

record pass =
  pa_color :: nat
  pa_resolve :: "nat option"
  pa_depth :: "nat option"

definition tris_pass :: "nat \<Rightarrow> gpu_tex \<Rightarrow> pass" where
  "tris_pass target t = (case tx_samples t of
     None \<Rightarrow> \<lparr>pa_color = target, pa_resolve = None, pa_depth = tx_depth t\<rparr>
   | Some s \<Rightarrow> \<lparr>pa_color = s, pa_resolve = Some target, pa_depth = tx_depth t\<rparr>)"

text \<open>The handles of the pictures of a draw as the renderer has them on the GPU, \<open>None\<close> when one is not there
  or is what is drawn into. \<open>gpu_of t\<close> is SDL's property of the texture.\<close>

fun bind_pictures :: "vmem \<Rightarrow> gpu \<Rightarrow> (nat \<Rightarrow> nat option) \<Rightarrow> nat \<Rightarrow> u64 \<Rightarrow> nat \<Rightarrow> frame_error + nat list option" where
  "bind_pictures m g gpu_of target a 0 = Inr (Some [])"
| "bind_pictures m g gpu_of target a (Suc n) = (case mread I64 m a of
     None \<Rightarrow> Inl Outside_frame
   | Some picture \<Rightarrow>
       if picture = 0 then Inr None
       else (case gp_textures g (unat picture) of
           None \<Rightarrow> Inl Not_a_handle
         | Some t \<Rightarrow> (case gpu_of (tx_texture t) of
             None \<Rightarrow> Inr None
           | Some x \<Rightarrow> if x = target then Inr None
               else (case bind_pictures m g gpu_of target (a + 8) n of
                   Inl e \<Rightarrow> Inl e | Inr None \<Rightarrow> Inr None | Inr (Some xs) \<Rightarrow> Inr (Some (x # xs))))))"

text \<open>One draw of the pass: its shader, its mesh, the pictures bound and how many vertices are drawn.\<close>

record drawn =
  dn_draw :: draw
  dn_pictures :: "nat list"
  dn_vertices :: u32

text \<open>\<open>meshes\<close> are the floats of each mesh there is.\<close>

fun draw_items :: "vmem \<Rightarrow> gpu \<Rightarrow> shade \<Rightarrow> (nat \<rightharpoonup> u32) \<Rightarrow> bool \<Rightarrow> (nat \<Rightarrow> nat option) \<Rightarrow> nat \<Rightarrow> draw list \<Rightarrow> frame_error + drawn list" where
  "draw_items m g s meshes sampler gpu_of target [] = Inr []"
| "draw_items m g s meshes sampler gpu_of target (d # ds) =
     (if dr_mesh d = 0 then draw_items m g s meshes sampler gpu_of target ds
      else (case sd_shaders s (unat (dr_pair d)) of
          None \<Rightarrow> Inl Not_a_handle
        | Some sh \<Rightarrow>
            if sh_stride sh = 0 then draw_items m g s meshes sampler gpu_of target ds
            else (case meshes (unat (dr_mesh d)) of
                None \<Rightarrow> Inl Not_a_handle
              | Some floats \<Rightarrow>
                  (case (if sh_num_textures sh = 0 then Inr (Some [])
                         else if \<not> sampler then Inr None
                         else bind_pictures m g gpu_of target (dr_textures d) (sh_num_textures sh)) of
                     Inl e \<Rightarrow> Inl e
                   | Inr None \<Rightarrow> draw_items m g s meshes sampler gpu_of target ds
                   | Inr (Some xs) \<Rightarrow> (case draw_items m g s meshes sampler gpu_of target ds of
                       Inl e \<Rightarrow> Inl e
                     | Inr out \<Rightarrow> Inr (\<lparr>dn_draw = d, dn_pictures = xs, dn_vertices = floats div sh_stride sh\<rparr> # out))))))"

section \<open>The draws\<close>

text \<open>What SDL answers in the course of a draw.\<close>

record draw_now =
  nw_fin :: "nat \<Rightarrow> bool"
  nw_now :: u64
  nw_gpu_of :: "nat \<Rightarrow> nat option"
  nw_w :: u32
  nw_h :: u32
  nw_depth :: "nat option"
  nw_samples :: "nat option"
  nw_sampler :: bool
  nw_cmd :: bool
  nw_fence :: "nat option"
  nw_after :: u64

definition lift_gpu :: "'a option \<Rightarrow> frame_error + 'a" where
  "lift_gpu r = (case r of None \<Rightarrow> Inl Gpu_fault | Some x \<Rightarrow> Inr x)"

definition bind_sum :: "'e + 'a \<Rightarrow> ('a \<Rightarrow> 'e + 'b) \<Rightarrow> 'e + 'b" where
  "bind_sum r f = (case r of Inl e \<Rightarrow> Inl e | Inr x \<Rightarrow> f x)"

text \<open>A shader is drawn into a texture, all of it or a part. The answer is the result and, of a draw, the
  target and whether what was in it is kept.\<close>

definition host_gui_shader_draw :: "draw_now \<Rightarrow> nat option \<Rightarrow> nat option \<Rightarrow> bool \<Rightarrow> shade \<Rightarrow> gpu \<Rightarrow>
    frame_error + (u64 \<times> (nat \<times> bool) option \<times> gpu)" where
  "host_gui_shader_draw nw handle texture part s g =
     (case (handle, texture) of
        (Some h, Some tex) \<Rightarrow>
          if \<not> gp_device g then Inr (0, None, g)
          else (case sd_shaders s h of
              None \<Rightarrow> Inl Not_a_handle
            | Some sh \<Rightarrow>
                if sh_state sh = Shader_building then Inr (0, None, g)
                else if sh_state sh \<noteq> Shader_ready \<or> sh_mesh sh then Inr (- 1, None, g)
                else bind_sum (lift_gpu (gpu_may_draw (nw_fin nw) (nw_now nw) tex g)) (\<lambda>(ok, g).
                  if \<not> ok then Inr (0, None, g)
                  else (case Option.bind (gp_textures g tex) (\<lambda>t. nw_gpu_of nw (tx_texture t)) of
                      None \<Rightarrow> Inr (0, None, g)
                    | Some target \<Rightarrow>
                        if \<not> nw_cmd nw then Inr (0, None, g)
                        else bind_sum (lift_gpu (gpu_drawing tex (nw_fence nw) (nw_after nw) g)) (\<lambda>g.
                          Inr (1, Some (target, part), g)))))
      | _ \<Rightarrow> Inr (0, None, g))"

text \<open>A frame of triangles. The answer is the result and, of a frame that is drawn, the pass and its draws.\<close>

definition tris_submit :: "vmem \<Rightarrow> draw_now \<Rightarrow> formats \<Rightarrow> nat \<Rightarrow> nat \<Rightarrow> (nat \<rightharpoonup> u32) \<Rightarrow> draw list \<Rightarrow> shade \<Rightarrow> gpu \<Rightarrow>
    frame_error + (u64 \<times> (pass \<times> drawn list) option \<times> gpu)" where
  "tris_submit m nw f tex target meshes ds s g =
     bind_sum (lift_gpu (tris_targets (fm_four f) (nw_depth nw) (nw_samples nw) (nw_w nw) (nw_h nw) tex g)) (\<lambda>(result, g).
       if result \<noteq> 1 \<or> \<not> nw_cmd nw then Inr (0, None, g)
       else (case gp_textures g tex of
           None \<Rightarrow> Inl Gpu_fault
         | Some t \<Rightarrow> bind_sum (draw_items m g s meshes (nw_sampler nw) (nw_gpu_of nw) target ds) (\<lambda>out.
             bind_sum (lift_gpu (gpu_drawing tex (nw_fence nw) (nw_after nw) g)) (\<lambda>g.
               Inr (1, Some (tris_pass target t, out), g)))))"

definition host_gui_tris_draw :: "vmem \<Rightarrow> draw_now \<Rightarrow> (depth_format \<Rightarrow> bool) \<Rightarrow> formats \<Rightarrow> (nat \<Rightarrow> shader_state \<times> shader_state) \<Rightarrow>
    (nat \<rightharpoonup> u32) \<Rightarrow> nat option \<Rightarrow> u64 \<Rightarrow> u64 \<Rightarrow> shade \<Rightarrow> gpu \<Rightarrow> frame_error + (u64 \<times> (pass \<times> drawn list) option \<times> gpu)" where
  "host_gui_tris_draw m nw has f look meshes texture data len s g =
     (case texture of
        None \<Rightarrow> Inr (0, None, g)
      | Some tex \<Rightarrow>
          if \<not> gp_device g \<or> len < 8 then Inr (0, None, g)
          else if fm_depth (find_depth_format has f) = None then Inr (- 1, None, g)
          else bind_sum (frame_parse m g s look data len) (\<lambda>(result, ds).
            if result \<noteq> 1 then Inr (result, None, g)
            else bind_sum (lift_gpu (gpu_may_draw (nw_fin nw) (nw_now nw) tex g)) (\<lambda>(ok, g).
              if \<not> ok then Inr (0, None, g)
              else (case Option.bind (gp_textures g tex) (\<lambda>t. nw_gpu_of nw (tx_texture t)) of
                  None \<Rightarrow> Inr (0, None, g)
                | Some target \<Rightarrow> tris_submit m nw f tex target meshes ds s g))))"

section \<open>A run of the driver: textures, draws and frames shown\<close>

definition fresh_answers :: "draw_now \<Rightarrow> gpu \<Rightarrow> bool" where
  "fresh_answers nw g \<longleftrightarrow> (\<forall>x. nw_fence nw = Some x \<longrightarrow> x \<notin> gp_fences g) \<and> (\<forall>x. nw_depth nw = Some x \<longrightarrow> x \<notin> gp_targets g) \<and>
     (\<forall>x. nw_samples nw = Some x \<longrightarrow> x \<notin> gp_targets g \<and> nw_depth nw \<noteq> Some x)"

text \<open>What SDL hands out is new, memory is got that is free, and a texture that is drawn into or destroyed is one
  that there is. A step is \<open>None\<close> where the driver does to the GPU what may not be done.\<close>

inductive gpu_step :: "gpu \<Rightarrow> gpu option \<Rightarrow> bool" where
  create: "gp_textures g h = None \<Longrightarrow> gpu_step g (Some (snd (gpu_create_texture t mode h g)))"
| target: "gp_textures g h = None \<Longrightarrow> gpu_step g (Some (snd (gpu_shader_texture t h g)))"
| destroy: "h \<in> dom (gp_textures g) \<Longrightarrow> gpu_step g (host_gui_destroy_texture h g)"
| shader: "tex \<in> dom (gp_textures g) \<Longrightarrow> fresh_answers nw g \<Longrightarrow>
    host_gui_shader_draw nw handle (Some tex) part s g = r \<Longrightarrow> r \<noteq> Inl Not_a_handle \<Longrightarrow>
    gpu_step g (case r of Inl _ \<Rightarrow> None | Inr (_, _, g) \<Rightarrow> Some g)"
| tris: "tex \<in> dom (gp_textures g) \<Longrightarrow> fresh_answers nw g \<Longrightarrow>
    host_gui_tris_draw m nw has f look meshes (Some tex) data len s g = r \<Longrightarrow> r \<notin> Inl ` {Not_a_handle, Outside_frame, Outside_draws} \<Longrightarrow>
    gpu_step g (case r of Inl _ \<Rightarrow> None | Inr (_, _, g) \<Rightarrow> Some g)"
| present: "gpu_step g (Some (gpu_present g))"
| deinit: "gpu_step g (Some (gpu_deinit g))"

inductive gpu_reaches :: "gpu \<Rightarrow> bool" where
  start: "gpu_reaches gpu0"
| step: "gpu_reaches g \<Longrightarrow> gpu_step g (Some g') \<Longrightarrow> gpu_reaches g'"

text \<open>The depth buffer and the samples of a texture are held by it, each by one.\<close>

definition held_targets :: "gpu \<Rightarrow> nat \<times> bool \<Rightarrow> nat option" where
  "held_targets g = (\<lambda>(h, s). Option.bind (gp_textures g h) (\<lambda>t. if s then tx_samples t else tx_depth t))"

definition gpu_ok :: "gpu \<Rightarrow> bool" where
  "gpu_ok g \<longleftrightarrow> (gp_device g \<longrightarrow> flights_ok g \<and> holds_once (held_targets g) (gp_targets g))"

lemma gpu_ok0: "gpu_ok gpu0"
proof -
  have "held gpu0 = Map.empty" "held_targets gpu0 = Map.empty" by (auto simp: held_def held_targets_def gpu0_def fun_eq_iff)
  then show ?thesis by (simp add: gpu_ok_def flights_ok_def) (simp add: gpu0_def)
qed

section \<open>What holds in every state\<close>

lemma held_targets_set_tex:
  "held_targets (set_tex h t g) = (held_targets g)((h, False) := tx_depth t, (h, True) := tx_samples t)"
  by (auto simp: held_targets_def set_tex_def fun_eq_iff)

lemma held_targets_same:
  "gp_textures g' = gp_textures g \<Longrightarrow> held_targets g' = held_targets g"
  by (simp add: held_targets_def)

lemma held_targets_map:
  assumes "gp_textures g' = (\<lambda>x. map_option (f x) (gp_textures g x))" "\<And>x t. tx_depth (f x t) = tx_depth t \<and> tx_samples (f x t) = tx_samples t"
  shows "held_targets g' = held_targets g"
  using assms(2) by (auto simp: held_targets_def assms(1) fun_eq_iff map_option_case split: option.splits)

lemma release_target_ok:
  "set_option t \<subseteq> gp_targets g \<Longrightarrow> release_target t g = Some (g\<lparr>gp_targets := gp_targets g - set_option t\<rparr>)"
  by (cases t) (auto simp: release_target_def)

lemma held_target_in: "holds_once (held_targets g) (gp_targets g) \<Longrightarrow> gp_textures g h = Some t \<Longrightarrow>
    set_option (tx_depth t) \<subseteq> gp_targets g \<and> set_option (tx_samples t) \<subseteq> gp_targets g - set_option (tx_depth t)"
proof -
  assume a: "holds_once (held_targets g) (gp_targets g)" "gp_textures g h = Some t"
  have "held_targets g (h, False) = tx_depth t" "held_targets g (h, True) = tx_samples t" using a(2) by (simp_all add: held_targets_def)
  then show ?thesis using holds_in [OF a(1)] holds_only [OF a(1), of "(h, False)" _ "(h, True)"]
    by (cases "tx_depth t"; cases "tx_samples t") auto
qed

text \<open>A question who may draw leaves the targets alone.\<close>

lemma may_draw_ok:
  assumes "gpu_ok g" "gp_device g" "gp_textures g h = Some t" "gpu_may_draw fin now h g = Some (ok, g')"
  shows "gpu_ok g' \<and> gp_device g' \<and> gp_targets g' = gp_targets g \<and> gp_fences g' \<subseteq> gp_fences g \<and>
    (\<exists>t'. gp_textures g' h = Some t' \<and> (ok \<longrightarrow> tx_fence t' = None)) \<and> (ok \<longrightarrow> length (gp_flights g') < FLIGHTS)"
proof (cases "going fin g h")
  case True
  then show ?thesis using may_draw_going [of g h t fin now] assms by (auto simp: gpu_ok_def)
next
  case False
  have fl: "flights_ok g" "holds_once (held_targets g) (gp_targets g)" using assms(1,2) by (auto simp: gpu_ok_def)
  let ?f = "\<lambda>x t. if going fin g x then t else t\<lparr>tx_fence := None\<rparr>"
  obtain g2 where m: "gpu_may_draw fin now h g = Some (\<not> held_up fin now h g, g2)" "flights_ok g2" "gp_device g2 = gp_device g"
    "gp_targets g2 = gp_targets g" "set (gp_flights g2) = {x. going fin g x}"
    and tex: "gp_textures g2 = (\<lambda>x. map_option (?f x) (gp_textures g x))"
    by (rule may_draw_settles [OF fl(1) assms(3) False, of now])
  have g2: "g2 = g'" "ok \<longleftrightarrow> \<not> held_up fin now h g" using m(1) assms(4) by simp_all
  have "held_targets g2 = held_targets g" by (rule held_targets_map [OF tex]) simp
  then have "gpu_ok g2" using m(2-4) fl(2) by (simp add: gpu_ok_def)
  moreover have "gp_fences g2 \<subseteq> gp_fences g"
  proof
    fix x assume "x \<in> gp_fences g2"
    then obtain k where "held g2 k = Some x" using m(2) holds_ex unfolding flights_ok_def by metis
    then have "held g k = Some x" by (auto simp: held_def tex bind_eq_Some_conv split: if_splits)
    then show "x \<in> gp_fences g" using fl(1) holds_in unfolding flights_ok_def by metis
  qed
  moreover have "\<not> held_up fin now h g \<Longrightarrow> length (gp_flights g2) < FLIGHTS"
    using flights_card [OF m(2)] m(5) by (simp add: held_up_def)
  ultimately show ?thesis using m(3,4) assms(2,3) False unfolding g2(2) by (simp add: tex flip: g2(1))
qed

lemma who_may_draw_total:
  assumes "gpu_ok g" "gp_device g" "gp_textures g h = Some t"
  shows "\<exists>ok g'. gpu_may_draw fin now h g = Some (ok, g')"
  using may_draw_spec [of g h t fin now] assms by (auto simp: gpu_ok_def)

lemma drawing_gpu_ok:
  assumes "gpu_ok g" "gp_device g" "gp_textures g h = Some t" "tx_fence t = None" "length (gp_flights g) < FLIGHTS"
    "\<forall>x. fence = Some x \<longrightarrow> x \<notin> gp_fences g"
  shows "\<exists>g'. gpu_drawing h fence now g = Some g' \<and> gpu_ok g'"
proof -
  have "held g h = None" using assms(3,4) by (simp add: held_def)
  moreover have "fence = None \<or> fence = Some (the fence) \<and> the fence \<notin> gp_fences g" using assms(6) by (cases fence) auto
  ultimately obtain g' where g': "gpu_drawing h fence now g = Some g'" "flights_ok g'" "gp_targets g' = gp_targets g"
      "gp_textures g' = (gp_textures g)(h \<mapsto> t\<lparr>tx_fence := fence, tx_drawn_at := now\<rparr>)"
    using drawing_ok [of g h t fence "the fence" now] assms by (auto simp: gpu_ok_def)
  have "held_targets g' = held_targets g" using assms(3) by (auto simp: held_targets_def g'(4) fun_eq_iff)
  then show ?thesis using g' assms(1,2) by (simp add: gpu_ok_def)
qed

lemma flights_ok_set_tex:
  assumes "flights_ok g" "gp_textures g h = Some t" "tx_fence t' = tx_fence t"
  shows "flights_ok (set_tex h t' (g\<lparr>gp_targets := T\<rparr>))"
proof -
  have "held (set_tex h t' (g\<lparr>gp_targets := T\<rparr>)) = held g"
    using assms(2,3) by (auto simp: held_set_tex held_def fun_eq_iff)
  then show ?thesis using assms(1) unfolding flights_ok_def by (auto simp: set_tex_def)
qed

text \<open>The targets made for a texture in place of those it had.\<close>

lemma targets_replaced:
  assumes "holds_once (held_targets g) (gp_targets g)" "gp_textures g h = Some t"
    "set_option d \<inter> gp_targets g = {}" "set_option s \<inter> gp_targets g = {}" "set_option d \<inter> set_option s = {}"
    "tx_depth t' = d" "tx_samples t' = s"
  shows "holds_once (held_targets (set_tex h t' (g\<lparr>gp_targets := T\<rparr>)))
    (gp_targets g - set_option (tx_depth t) - set_option (tx_samples t) \<union> set_option d \<union> set_option s)"
proof -
  let ?M = "held_targets g" and ?S = "gp_targets g"
  have old: "?M (h, False) = tx_depth t" "?M (h, True) = tx_samples t" using assms(2) by (simp_all add: held_targets_def)
  have "holds_once (?M((h, False) := None)) (?S - set_option (tx_depth t))"
    using holds_drop [OF assms(1), of "(h, False)"] by (simp add: old)
  from holds_drop [OF this, of "(h, True)"]
  have "holds_once (?M((h, False) := None, (h, True) := None)) (?S - set_option (tx_depth t) - set_option (tx_samples t))"
    by (simp add: old)
  from holds_put [OF this, of "(h, False)" d]
  have "holds_once (?M((h, True) := None, (h, False) := d)) (?S - set_option (tx_depth t) - set_option (tx_samples t) \<union> set_option d)"
    using assms(3) by (auto simp: fun_upd_twist)
  from holds_put [OF this, of "(h, True)" s]
  have "holds_once (?M((h, False) := d, (h, True) := s)) (?S - set_option (tx_depth t) - set_option (tx_samples t) \<union> set_option d \<union> set_option s)"
    using assms(4,5) by (auto simp: fun_upd_twist)
  then show ?thesis by (simp add: held_targets_set_tex assms(6,7)) (simp add: held_targets_def)
qed

lemma tris_targets_ok:
  assumes "gpu_ok g" "gp_device g" "gp_textures g h = Some t" "set_option depth \<inter> gp_targets g = {}"
    "set_option samples \<inter> gp_targets g = {}" "set_option depth \<inter> set_option samples = {}"
  shows "\<exists>r g' t'. tris_targets four depth samples x y h g = Some (r, g') \<and> gpu_ok g' \<and> gp_device g' \<and>
    gp_textures g' h = Some t' \<and> tx_fence t' = tx_fence t \<and> gp_fences g' = gp_fences g \<and> gp_flights g' = gp_flights g"
proof (cases "tx_depth t = None \<or> tx_depth_w t \<noteq> x \<or> tx_depth_h t \<noteq> y")
  case False
  then show ?thesis using assms(1-3) by (auto simp: tris_targets_def)
next
  case True
  have fl: "flights_ok g" and ho: "holds_once (held_targets g) (gp_targets g)" using assms(1,2) by (auto simp: gpu_ok_def)
  note rel = held_target_in [OF ho assms(3)]
  define T where "T = gp_targets g - set_option (tx_depth t) - set_option (tx_samples t)"
  define s where "s = (if depth \<noteq> None \<and> four then samples else None)"
  define t' where "t' = t\<lparr>tx_samples := s, tx_depth := depth, tx_depth_w := x, tx_depth_h := y\<rparr>"
  define g' where "g' = set_tex h t' (g\<lparr>gp_targets := T \<union> set_option depth \<union> set_option s\<rparr>)"
  have "release_target (tx_depth t) g = Some (g\<lparr>gp_targets := gp_targets g - set_option (tx_depth t)\<rparr>)"
    "release_target (tx_samples t) (g\<lparr>gp_targets := gp_targets g - set_option (tx_depth t)\<rparr>) = Some (g\<lparr>gp_targets := T\<rparr>)"
    using rel by (simp_all add: release_target_ok T_def)
  then have "tris_targets four depth samples x y h g = Some (make_targets four depth samples x y h t (g\<lparr>gp_targets := T\<rparr>))"
    using assms(3) True by (simp add: tris_targets_def)
  moreover have "snd (make_targets four depth samples x y h t (g\<lparr>gp_targets := T\<rparr>)) = g'"
    by (cases t) (simp add: make_targets_def Let_def take_target_def g'_def s_def t'_def set_tex_def)
  ultimately obtain r where r: "tris_targets four depth samples x y h g = Some (r, g')" by (metis prod.collapse)
  have "flights_ok g'" unfolding g'_def using fl assms(3) by (rule flights_ok_set_tex) (simp add: t'_def)
  moreover have "set_option s \<subseteq> set_option samples" by (simp add: s_def)
  then have "set_option s \<inter> gp_targets g = {}" "set_option depth \<inter> set_option s = {}" using assms(5,6) by blast+
  then have "holds_once (held_targets g') (gp_targets g')"
    using targets_replaced [OF ho assms(3,4), of s t'] by (simp add: g'_def T_def t'_def set_tex_def)
  ultimately have "gpu_ok g'" by (simp add: gpu_ok_def)
  then show ?thesis using r assms(2) by (simp add: g'_def t'_def set_tex_def)
qed

lemma fresh_sets:
  "fresh_answers nw g \<Longrightarrow> gp_targets g' = gp_targets g \<Longrightarrow>
     set_option (nw_depth nw) \<inter> gp_targets g' = {} \<and> set_option (nw_samples nw) \<inter> gp_targets g' = {} \<and>
     set_option (nw_depth nw) \<inter> set_option (nw_samples nw) = {}"
  by (auto simp: fresh_answers_def)

lemma shader_draw_ok:
  assumes "gpu_ok g" "tex \<in> dom (gp_textures g)" "fresh_answers nw g"
    "host_gui_shader_draw nw handle (Some tex) part s g = r" "r \<noteq> Inl Not_a_handle"
  shows "\<exists>result d g'. r = Inr (result, d, g') \<and> gpu_ok g'"
proof (cases handle)
  case None
  then show ?thesis using assms by (auto simp: host_gui_shader_draw_def)
next
  case (Some h)
  obtain t where t: "gp_textures g tex = Some t" using assms(2) by auto
  show ?thesis
  proof (cases "gp_device g \<and> (\<exists>sh. sd_shaders s h = Some sh \<and> sh_state sh = Shader_ready \<and> \<not> sh_mesh sh)")
    case False
    then show ?thesis using assms(1,4,5) Some
      by (cases "sd_shaders s h"; cases "sh_state (the (sd_shaders s h))") (auto simp: host_gui_shader_draw_def split: if_splits)
  next
    case True
    then obtain sh where sh: "gp_device g" "sd_shaders s h = Some sh" "sh_state sh = Shader_ready" "\<not> sh_mesh sh" by blast
    obtain ok g1 where m: "gpu_may_draw (nw_fin nw) (nw_now nw) tex g = Some (ok, g1)"
      using who_may_draw_total [OF assms(1) sh(1) t] by blast
    obtain t1 where ok1: "gpu_ok g1" "gp_device g1" "gp_textures g1 tex = Some t1" "gp_fences g1 \<subseteq> gp_fences g"
      and allowed: "ok \<longrightarrow> tx_fence t1 = None" "ok \<longrightarrow> length (gp_flights g1) < FLIGHTS"
      using may_draw_ok [OF assms(1) sh(1) t m] by auto
    have "\<forall>x. nw_fence nw = Some x \<longrightarrow> x \<notin> gp_fences g1" using assms(3) ok1(4) by (auto simp: fresh_answers_def)
    then have "ok \<Longrightarrow> \<exists>g'. gpu_drawing tex (nw_fence nw) (nw_after nw) g1 = Some g' \<and> gpu_ok g'"
      using drawing_gpu_ok [OF ok1(1-3)] allowed by blast
    then show ?thesis
      using assms(4) Some sh m ok1
      by (cases ok; cases "nw_gpu_of nw (tx_texture t1)"; cases "nw_cmd nw")
         (auto simp: host_gui_shader_draw_def bind_sum_def lift_gpu_def)
  qed
qed

lemma entry_no_fault: "frame_entry m g s look stop a r \<noteq> Inl Gpu_fault"
proof -
  have "frame_pictures m g a n r \<noteq> Inl Gpu_fault" for a n r
    by (induction n arbitrary: a r) (auto split: option.splits)
  then show ?thesis
    by (auto simp: frame_entry_def frame_pair_def Let_def split: option.splits sum.splits if_splits)
qed

lemma frame_parse_no_fault: "frame_parse m g s look data len \<noteq> Inl Gpu_fault"
proof -
  have "frame_loop m g s look stop cnt cap a r ds \<noteq> Inl Gpu_fault" for stop cnt cap a r ds
  proof (induction m g s look stop cnt cap a r ds rule: frame_loop.induct)
    case (1 m g s look stop cnt cap a r ds)
    then show ?case
      using entry_no_fault [of m g s look stop a r] by (subst frame_loop.simps) (auto split: sum.splits prod.splits)
  qed
  then show ?thesis by (auto simp: frame_parse_def split: option.splits)
qed

lemma draw_items_no_fault: "draw_items m g s meshes sampler gpu_of target ds \<noteq> Inl Gpu_fault"
proof -
  have "bind_pictures m g gpu_of target a n \<noteq> Inl Gpu_fault" for a n
    by (induction n arbitrary: a) (auto split: option.splits sum.splits)
  then show ?thesis
    by (induction ds) (auto split: option.splits sum.splits if_splits)
qed

lemma tris_submit_ok:
  assumes "gpu_ok g" "gp_device g" "gp_textures g tex = Some t" "tx_fence t = None" "length (gp_flights g) < FLIGHTS"
    "\<forall>x. nw_fence nw = Some x \<longrightarrow> x \<notin> gp_fences g"
    "set_option (nw_depth nw) \<inter> gp_targets g = {} \<and> set_option (nw_samples nw) \<inter> gp_targets g = {} \<and>
     set_option (nw_depth nw) \<inter> set_option (nw_samples nw) = {}"
    "tris_submit m nw f tex target meshes ds s g = r" "\<And>e. r = Inl e \<Longrightarrow> e = Gpu_fault"
  shows "\<exists>result d g'. r = Inr (result, d, g') \<and> gpu_ok g'"
proof -
  obtain result g1 t1 where tt: "tris_targets (fm_four f) (nw_depth nw) (nw_samples nw) (nw_w nw) (nw_h nw) tex g = Some (result, g1)"
    and ok: "gpu_ok g1" "gp_device g1" "gp_textures g1 tex = Some t1" "tx_fence t1 = None" "length (gp_flights g1) < FLIGHTS"
      "\<forall>x. nw_fence nw = Some x \<longrightarrow> x \<notin> gp_fences g1"
    using tris_targets_ok [OF assms(1-3), of "nw_depth nw" "nw_samples nw" "fm_four f" "nw_w nw" "nw_h nw"] assms(4-7) by auto
  show ?thesis
  proof (cases "result = 1 \<and> nw_cmd nw")
    case False
    then show ?thesis using assms(8) tt ok(1) by (auto simp: tris_submit_def bind_sum_def lift_gpu_def)
  next
    case True
    obtain g2 where g2: "gpu_drawing tex (nw_fence nw) (nw_after nw) g1 = Some g2" "gpu_ok g2"
      using drawing_gpu_ok [OF ok] by blast
    show ?thesis
    proof (cases "draw_items m g1 s meshes (nw_sampler nw) (nw_gpu_of nw) target ds")
      case (Inl e)
      then have "r = Inl e" using assms(8) tt ok(3) True by (auto simp: tris_submit_def bind_sum_def lift_gpu_def)
      then show ?thesis using assms(9) Inl draw_items_no_fault by metis
    next
      case (Inr out)
      then show ?thesis using assms(8) tt ok(3) True g2 by (auto simp: tris_submit_def bind_sum_def lift_gpu_def)
    qed
  qed
qed

lemma tris_draw_ok:
  assumes "gpu_ok g" "tex \<in> dom (gp_textures g)" "fresh_answers nw g"
    "host_gui_tris_draw m nw has f look meshes (Some tex) data len s g = r" "r \<notin> Inl ` {Not_a_handle, Outside_frame, Outside_draws}"
  shows "\<exists>result d g'. r = Inr (result, d, g') \<and> gpu_ok g'"
proof -
  obtain t where t: "gp_textures g tex = Some t" using assms(2) by auto
  have errs: "e = Gpu_fault" if "r = Inl e" for e using that assms(5) by (cases e) auto
  show ?thesis
  proof (cases "gp_device g \<and> \<not> len < 8 \<and> fm_depth (find_depth_format has f) \<noteq> None")
    case False
    then show ?thesis using assms(1,4) by (auto simp: host_gui_tris_draw_def split: if_splits)
  next
    case True
    then have dev: "gp_device g" by blast
    show ?thesis
    proof (cases "frame_parse m g s look data len")
      case (Inl e)
      then have "r = Inl e" using True assms(4) by (auto simp: host_gui_tris_draw_def bind_sum_def)
      moreover have "e \<noteq> Gpu_fault" using frame_parse_no_fault [of m g s look data len] Inl by auto
      ultimately show ?thesis using errs by blast
    next
      case (Inr p)
      obtain result ds where p: "p = (result, ds)" by (cases p)
      obtain ok g1 where md: "gpu_may_draw (nw_fin nw) (nw_now nw) tex g = Some (ok, g1)"
        using who_may_draw_total [OF assms(1) dev t] by blast
      obtain t1 where ok1: "gpu_ok g1" "gp_device g1" "gp_textures g1 tex = Some t1" "gp_fences g1 \<subseteq> gp_fences g" "gp_targets g1 = gp_targets g"
        and allowed: "ok \<longrightarrow> tx_fence t1 = None" "ok \<longrightarrow> length (gp_flights g1) < FLIGHTS"
        using may_draw_ok [OF assms(1) dev t md] by auto
      show ?thesis
      proof (cases "result = 1 \<and> ok \<and> nw_gpu_of nw (tx_texture t1) \<noteq> None")
        case False
        then show ?thesis
          using assms(1,4) True Inr p md ok1
          by (auto simp: host_gui_tris_draw_def bind_sum_def lift_gpu_def split: if_splits)
      next
        case all: True
        then obtain target where target: "nw_gpu_of nw (tx_texture t1) = Some target" by auto
        have r: "r = tris_submit m nw f tex target meshes ds s g1"
          using assms(4) True Inr p md ok1(3) all target by (auto simp: host_gui_tris_draw_def bind_sum_def lift_gpu_def)
        have fresh: "\<forall>x. nw_fence nw = Some x \<longrightarrow> x \<notin> gp_fences g1" using assms(3) ok1(4) by (auto simp: fresh_answers_def)
        show ?thesis
          by (rule tris_submit_ok [OF ok1(1-3) _ _ fresh fresh_sets [OF assms(3) ok1(5)] r [symmetric] errs])
             (use allowed all in auto)
      qed
    qed
  qed
qed

text \<open>A texture made, and a texture destroyed.\<close>

lemma create_gpu_ok:
  assumes "gpu_ok g" "gp_textures g h = None"
  shows "gpu_ok (snd (gpu_create_texture t mode h g))"
proof (cases t)
  case (Some x)
  let ?g = "snd (gpu_create_texture t mode h g)"
  have tex: "gp_textures ?g = (gp_textures g)(h \<mapsto> new_texture x mode g)" by (simp add: Some gpu_create_texture_def)
  have "held ?g = held g" "held_targets ?g = held_targets g"
    using assms(2) by (auto simp: held_def held_targets_def tex new_texture_def fun_eq_iff)
  then show ?thesis using assms(1) by (auto simp: gpu_ok_def flights_ok_def Some gpu_create_texture_def)
qed (use assms in \<open>simp add: gpu_create_texture_def\<close>)

text \<open>What is left of the state when a texture has gone.\<close>

definition gone :: "nat \<Rightarrow> gpu_tex \<Rightarrow> gpu \<Rightarrow> gpu" where
  "gone h t g = g\<lparr>gp_fences := gp_fences g - set_option (tx_fence t),
     gp_targets := gp_targets g - set_option (tx_depth t) - set_option (tx_samples t),
     gp_flights := forget_loop h 0 (gp_flights g), gp_waiting := (if gp_waiting g = Some h then None else gp_waiting g),
     gp_textures := (gp_textures g)(h := None)\<rparr>"

lemma gone_ok:
  assumes "gpu_ok g" "gp_device g" "gp_textures g h = Some t"
  shows "gpu_ok (gone h t g)"
proof -
  have fl: "flights_ok g" and ho: "holds_once (held_targets g) (gp_targets g)" using assms(1,2) by (auto simp: gpu_ok_def)
  have held: "held (gone h t g) = (held g)(h := None)" by (auto simp: held_def gone_def fun_eq_iff)
  have h: "held g h = tx_fence t" using assms(3) by (simp add: held_def)
  have "holds_once ((held g)(h := None)) (gp_fences g - set_option (tx_fence t))"
    using holds_drop [of "held g" "gp_fences g" h] fl h by (simp add: flights_ok_def)
  moreover have "distinct (forget_loop h 0 (gp_flights g)) \<and> set (forget_loop h 0 (gp_flights g)) = set (gp_flights g) - {h} \<and>
      length (forget_loop h 0 (gp_flights g)) \<le> length (gp_flights g)"
    using forget_loop_spec [of "gp_flights g" h 0] fl by (simp add: flights_ok_def)
  ultimately have "flights_ok (gone h t g)"
    using fl unfolding flights_ok_def held by (auto simp: gone_def)
  moreover have "held_targets (gone h t g) = (held_targets g)((h, False) := None, (h, True) := None)"
    by (auto simp: held_targets_def gone_def fun_eq_iff)
  moreover have "holds_once ((held_targets g)((h, False) := None, (h, True) := None))
      (gp_targets g - set_option (tx_depth t) - set_option (tx_samples t))"
    using holds_drop [OF holds_drop [OF ho, of "(h, False)"], of "(h, True)"] assms(3) by (simp add: held_targets_def)
  ultimately show ?thesis by (simp add: gpu_ok_def) (simp add: gone_def)
qed

lemma destroy_gpu_ok:
  assumes "gpu_ok g" "h \<in> dom (gp_textures g)"
  shows "\<exists>g'. host_gui_destroy_texture h g = Some g' \<and> gpu_ok g'"
proof -
  obtain t where t: "gp_textures g h = Some t" using assms(2) by auto
  show ?thesis
  proof (cases "gp_device g")
    case False
    then show ?thesis using t by (auto simp: host_gui_destroy_texture_def gpu_ok_def gpu_forget_def Let_def)
  next
    case True
    have fl: "flights_ok g" and ho: "holds_once (held_targets g) (gp_targets g)" using assms(1) True by (auto simp: gpu_ok_def)
    note rel = held_target_in [OF ho t]
    let ?g1 = "g\<lparr>gp_fences := gp_fences g - set_option (tx_fence t)\<rparr>"
    have f: "(case tx_fence t of Some f \<Rightarrow> release_fence f g | None \<Rightarrow> Some g) = Some ?g1"
    proof (cases "tx_fence t")
      case (Some x)
      then have "held g h = Some x" using t by (simp add: held_def)
      then have "x \<in> gp_fences g" using fl holds_in unfolding flights_ok_def by metis
      then show ?thesis by (simp add: Some release_fence_def)
    qed simp
    let ?g2 = "?g1\<lparr>gp_targets := gp_targets g - set_option (tx_depth t)\<rparr>"
    have d: "release_target (tx_depth t) ?g1 = Some ?g2" using rel by (simp add: release_target_ok)
    have s: "release_target (tx_samples t) ?g2 = Some (?g2\<lparr>gp_targets := gp_targets g - set_option (tx_depth t) - set_option (tx_samples t)\<rparr>)"
      using rel by (simp add: release_target_ok)
    have "host_gui_destroy_texture h g = Some (gone h t g)"
      using True t f d s by (simp add: host_gui_destroy_texture_def gone_def gpu_forget_def Let_def)
    then show ?thesis using gone_ok [OF assms(1) True t] by blast
  qed
qed

lemma gpu_step_ok:
  assumes "gpu_step g r" "gpu_ok g"
  shows "\<exists>g'. r = Some g' \<and> gpu_ok g'"
  using assms
proof (induction rule: gpu_step.induct)
  case (create g h t mode)
  then show ?case using create_gpu_ok by blast
next
  case (target g h t)
  then show ?case using create_gpu_ok by (auto simp: gpu_shader_texture_def)
next
  case (destroy h g)
  then show ?case using destroy_gpu_ok by blast
next
  case (shader tex g nw handle part s r)
  then show ?case using shader_draw_ok [OF shader.prems shader.hyps(1-4)] by auto
next
  case (tris tex g nw m has f look meshes data len s r)
  then show ?case using tris_draw_ok [OF tris.prems tris.hyps(1-4)] by auto
next
  case (present g)
  have "held (gpu_present g) = held g" "held_targets (gpu_present g) = held_targets g"
    by (simp_all add: held_def held_targets_def gpu_present_def fun_eq_iff)
  then show ?case using present by (auto simp: gpu_ok_def flights_ok_def gpu_present_def)
next
  case (deinit g)
  then show ?case by (simp add: gpu_ok_def gpu_deinit_def)
qed

lemma gpu_reaches_ok: "gpu_reaches g \<Longrightarrow> gpu_ok g"
  by (induction rule: gpu_reaches.induct) (use gpu_ok0 gpu_step_ok in blast)+

text \<open>C3: After any textures made and destroyed, shaders and triangles drawn and frames shown, in any order and with any answers of the GPU, no draw and no destroying asks about, or releases, a fence or a target that is not held, nothing is written past the 32 flights, and every fence and target held is held by one texture that is there.\<close>

theorem gpu_calls_safe:
  assumes "gpu_reaches g" "gpu_step g r"
  shows "r \<noteq> None \<and> (gp_device g \<longrightarrow> holds_once (held g) (gp_fences g) \<and> holds_once (held_targets g) (gp_targets g) \<and>
    distinct (gp_flights g) \<and> set (gp_flights g) = dom (held g) \<and> length (gp_flights g) \<le> FLIGHTS)"
  using gpu_reaches_ok [OF assms(1)] gpu_step_ok [OF assms(2)] by (auto simp: gpu_ok_def flights_ok_def)

section \<open>Where the driver goes wrong\<close>

text \<open>While a pair with pictures is still being built the handles of its pictures are not stepped over: the next entry of the frame is looked for where they are, and the first of them is taken for the handle of a shader.\<close>

theorem building_pair_misread:
  assumes "draw_head m a = Some (p, n, v, q)" "p \<noteq> 0" "sd_shaders s (unat p) = Some sh" "0 < sh_num_textures sh"
    "look (unat p) = (Shader_building, Shader_building)" "\<not> stop < a + 32 + pad8 v + pad8 q" "a + 32 \<le> stop"
    "a' = a + 32 + (pad8 v + pad8 q)" "draw_head m a' = Some (picture, n', v', q')" "picture \<noteq> 0" "sd_shaders s (unat picture) = None"
    "\<not> stop < a' + 32 + pad8 v' + pad8 q'" "a' + 32 \<le> stop" "length draws + 1 < unat cnt" "56 * unat cnt \<le> cap"
  shows "frame_loop m g s look stop cnt cap a r draws = Inl Not_a_handle"
proof -
  obtain d where "frame_entry m g s look stop a r = Inr (Inr (a', 0, d))"
    using assms(1-3,5,6,8) by (simp add: frame_entry_def frame_pair_def Let_def)
  then have "frame_loop m g s look stop cnt cap a r draws = frame_loop m g s look stop cnt cap a' 0 (draws @ [d])"
    using assms(7,14,15) by (subst frame_loop.simps) simp
  moreover have "frame_entry m g s look stop a' 0 = Inl Not_a_handle"
    using assms(9-12) by (simp add: frame_entry_def frame_pair_def Let_def)
  then have "frame_loop m g s look stop cnt cap a' 0 (draws @ [d]) = Inl Not_a_handle"
    using assms(13-15) by (subst frame_loop.simps) simp
  ultimately show ?thesis by simp
qed

text \<open>A length of a block near the end of 64 bits is made up to none at all: the entry is taken, though the block that the GPU is then handed reaches past the end of the frame.\<close>

theorem length_goes_round:
  assumes "draw_head m a = Some (p, n, - 1, 0)" "p \<noteq> 0" "sd_shaders s (unat p) = Some sh" "sh_mesh sh" "sh_num_textures sh = 0"
    "look (unat p) = (Shader_ready, Shader_ready)" "a + 32 \<le> data + len" "frame_memory m data len" "unat len < 2 ^ 32 - 1"
  shows "\<exists>d. frame_entry m g s look (data + len) a r = Inr (Inr (a + 32, r, d)) \<and> dr_vlen d = - 1 \<and>
    \<not> inside data len (unat (dr_vblock d)) (unat (ucast (dr_vlen d) :: u32))"
proof -
  let ?d = "\<lparr>dr_pair = p, dr_mesh = n, dr_vlen = - 1, dr_plen = 0, dr_vblock = a + 32, dr_pblock = a + 32, dr_textures = a + 32\<rparr>"
  have pads: "pad8 (- 1) = 0" "pad8 0 = 0" by (simp_all add: pad8_def)
  have entry: "frame_entry m g s look (data + len) a r = Inr (Inr (a + 32, r, ?d))"
    using assms(1-7) by (simp add: frame_entry_def frame_pair_def Let_def pads)
  have "(ucast (- 1 :: u64) :: u32) = - 1" by (rule bit_word_eqI) (simp add: bit_unsigned_iff)
  moreover have "unat (- 1 :: u32) = 2 ^ 32 - 1" by (simp add: unsigned_minus_1_eq_mask mask_eq_exp_minus_1)
  ultimately have "unat (ucast (- 1 :: u64) :: u32) = 2 ^ 32 - 1" by metis
  then have "\<not> inside data len (unat (dr_vblock ?d)) (unat (ucast (dr_vlen ?d) :: u32))"
    using assms(9) by (auto simp: inside_def)
  with entry show ?thesis by (intro exI [of _ ?d]) simp
qed

text \<open>With a count of 2 to the 61 the bytes of the table of the draws come to 0 in 64 bits: the first entry is written past the table.\<close>

theorem table_too_small:
  assumes "mread I64 m data = Some (2 ^ 61)" "data + 8 + 32 \<le> data + len"
  shows "frame_parse m g s look data len = Inl Outside_draws"
proof -
  define cnt :: u64 where "cnt = 2 ^ 61"
  have bytes: "draws_bytes cnt = 1" and some: "0 < unat cnt" by (simp_all add: draws_bytes_def cnt_def unat_gt_0)
  have "frame_loop m g s look (data + len) cnt 1 (data + 8) 1 [] = Inl Outside_draws"
    using assms(2) some by (subst frame_loop.simps) simp
  then show ?thesis using assms(1) [folded cnt_def] bytes by (simp add: frame_parse_def)
qed

text \<open>When the depth buffer of a texture could be made but its target with 4 samples could not, the draw is put off, and the next is done with no such target: a target of one sample with a depth buffer of four.\<close>

theorem samples_missing:
  assumes "gp_textures g tex = Some t" "tx_depth t = None" "tx_samples t = None"
  shows "\<exists>g1 t1. tris_targets True (Some d) None w h tex g = Some (0, g1) \<and>
    tris_targets True depth samples w h tex g1 = Some (1, g1) \<and> gp_textures g1 tex = Some t1 \<and>
    tris_pass target t1 = \<lparr>pa_color = target, pa_resolve = None, pa_depth = Some d\<rparr>"
  using assms by (simp add: tris_targets_def release_target_def make_targets_def Let_def take_target_def set_tex_def tris_pass_def)

section \<open>The properties at work\<close>

text \<open>A frame at address 16 with these bytes.\<close>

definition frame_of :: "u64 \<Rightarrow> (u64 \<Rightarrow> u8) \<Rightarrow> vmem" where
  "frame_of len b = (\<lambda>a. if a - 16 < len then Some (b a) else None)"

lemma frame_of_memory:
  assumes "unat len < 2 ^ 62"
  shows "frame_memory (frame_of len b) 16 len"
proof -
  have "dom (frame_of len b) = {a. a - 16 < len}" by (auto simp: frame_of_def dom_def)
  also have "\<dots> = cells 16 (unat len)"
  proof (intro set_eqI iffI)
    fix a :: u64 assume "a \<in> {a. a - 16 < len}"
    then have "unat (a - 16) < unat len" by (simp add: word_less_nat_alt)
    moreover have "a = 16 + word_of_nat (unat (a - 16))" by simp
    ultimately show "a \<in> cells 16 (unat len)" unfolding cells_def by blast
  next
    fix a assume "a \<in> cells 16 (unat len)"
    then show "a \<in> {a. a - 16 < len}" using assms
      by (auto simp: cells_def word_less_nat_alt unsigned_of_nat take_bit_nat_eq_self)
  qed
  finally show ?thesis using assms by (simp add: frame_memory_def)
qed

lemma load_8: "load_le m a 8 = load_le m a (Suc (Suc (Suc (Suc (Suc (Suc (Suc (Suc 0))))))))"
  by (simp only: numeral_eq_Suc pred_numeral_simps BitM.simps)

lemmas frame_of_simps = draw_head_def mread_def load_8 frame_of_def

text \<open>One entry, all zeros: it names no shader.\<close>

definition one_entry :: vmem where
  "one_entry = frame_of 40 (\<lambda>a. if a = 16 then 1 else 0)"

lemma one_entry_read:
  "mread I64 one_entry 16 = Some 1" "draw_head one_entry 24 = Some (0, 0, 0, 0)"
  by (simp_all add: frame_of_simps one_entry_def)

theorem frame_read_inside_witness:
  "frame_parse one_entry gpu0 (shade0 True False True) (\<lambda>_. (Shader_ready, Shader_ready)) 16 40 \<noteq> Inl Outside_frame"
proof -
  have "few_pictures (shade0 True False True)" by (rule reaches_few_pictures [OF shade_reaches.start])
  moreover have "lengths_fit one_entry gpu0 (shade0 True False True) (\<lambda>_. (Shader_ready, Shader_ready)) (16 + 40) (unat (1 :: u64)) (16 + 8) 1"
    by (simp add: one_entry_read split: sum.splits)
  ultimately show ?thesis
    using frame_read_inside [of one_entry 16 40 _ 1, OF _ _ _ one_entry_read(1) _ _ refl] frame_of_memory [of 40, folded one_entry_def]
    by (simp add: one_entry_def frame_of_memory)
qed

text \<open>A count of 2 to the 61.\<close>

theorem table_too_small_witness:
  "frame_parse (frame_of 40 (\<lambda>a. if a = 23 then 32 else 0)) gpu0 (shade0 True False True) look 16 40 = Inl Outside_draws"
  by (rule table_too_small) (simp_all add: frame_of_simps)

text \<open>An entry of shader 1 with a length of \<open>- 1\<close>.\<close>

definition no_pictures :: shader where
  "no_pictures = \<lparr>sh_pipeline = None, sh_state = Shader_ready, sh_format = 1, sh_vertex = [], sh_fragment = [], sh_mesh = True,
     sh_num_attrs = 0, sh_attrs = [], sh_cull = 0, sh_stride = 0, sh_num_textures = 0\<rparr>"

theorem length_goes_round_witness:
  "\<exists>d. frame_entry (frame_of 40 (\<lambda>a. if a = 24 then 1 else if 40 \<le> a \<and> a < 48 then 255 else 0)) gpu0
       (shade0 True False True\<lparr>sd_shaders := [1 \<mapsto> no_pictures]\<rparr>) (\<lambda>_. (Shader_ready, Shader_ready)) (16 + 40) 24 1
     = Inr (Inr (24 + 32, 1, d)) \<and> dr_vlen d = - 1 \<and> \<not> inside 16 40 (unat (dr_vblock d)) (unat (ucast (dr_vlen d) :: u32))"
  by (rule length_goes_round [where p = 1 and n = 0 and sh = no_pictures])
    (use frame_of_memory [of 40] in \<open>simp_all add: no_pictures_def draw_head_def mread_def load_8\<close>, simp_all add: frame_of_def)

text \<open>A pair of one picture that is being built, and an entry of it: the word after the entry is the picture.\<close>

theorem building_pair_misread_witness:
  "frame_loop (frame_of 72 (\<lambda>a. if a = 24 then 1 else if a = 56 then 2 else 0)) gpu0
     (shade0 True False True\<lparr>sd_shaders := [1 \<mapsto> no_pictures\<lparr>sh_num_textures := 1\<rparr>]\<rparr>) (\<lambda>_. (Shader_building, Shader_building))
     88 2 112 24 1 [] = Inl Not_a_handle"
  by (rule building_pair_misread [where p = 1 and sh = "no_pictures\<lparr>sh_num_textures := 1\<rparr>" and picture = 2 and n = 0 and n' = 0 and v = 0 and q = 0 and v' = 0 and q' = 0 and a' = 56])
    (simp_all add: frame_of_simps pad8_def no_pictures_def)

theorem samples_missing_witness:
  "\<exists>g1. tris_targets True (Some 60) None 4 4 1 two_textures = Some (0, g1) \<and>
     tris_targets True (Some 61) (Some 62) 4 4 1 g1 = Some (1, g1)"
  using samples_missing [OF two_textures_there(1), of 60 4 4 "Some 61" "Some 62"] by (auto simp: new_texture_def)

text \<open>A texture is made and destroyed.\<close>

theorem gpu_calls_safe_witness:
  "host_gui_destroy_texture 0 (snd (gpu_create_texture (Some 7) 0 0 gpu0)) \<noteq> None"
proof -
  let ?g = "snd (gpu_create_texture (Some 7) 0 0 gpu0)"
  have "gpu_step gpu0 (Some ?g)" by (rule gpu_step.create) (simp add: gpu0_def)
  then have "gpu_reaches ?g" by (rule gpu_reaches.step [OF gpu_reaches.start])
  moreover have "gpu_step ?g (host_gui_destroy_texture 0 ?g)" by (rule gpu_step.destroy) (simp add: gpu_create_texture_def)
  ultimately show ?thesis using gpu_calls_safe by blast
qed

end
