(* ===== verification/Gpu_Mesh.thy ===== *)
theory Gpu_Mesh
  imports Gpu_Draw Ieee
begin

text \<open>
  The meshes of the SDL3 driver, \<^verbatim>\<open>src/src/host/gui_sdl3.cpp\<close>: vertices that come as doubles in the
  memory of the node and are kept as floats in a buffer of the GPU. What SDL makes, if it does, are
  arguments. A double read where there is none, a float written past the end of what SDL gave to
  write to, and a write when it gave nothing, are errors.
\<close>

record mesh =
  ms_buffer :: nat
  ms_floats :: u32

record mesh_store =
  mg_device :: bool
  mg_meshes :: "nat \<rightharpoonup> mesh"
  mg_buffers :: "nat set"  \<comment> \<open>buffers held\<close>
  mg_transfers :: "nat set"  \<comment> \<open>transfer buffers held\<close>

datatype mesh_error = Outside_verts | Outside_buffer | Not_mapped

text \<open>\<open>out[i] = (float)v\<close>, into \<open>cap\<close> bytes; \<open>out\<close> is what is written so far.\<close>

fun mesh_loop :: "fpu \<Rightarrow> vmem \<Rightarrow> u64 \<Rightarrow> nat \<Rightarrow> nat \<Rightarrow> u32 list \<Rightarrow> mesh_error + u32 list" where
  "mesh_loop u m verts cap 0 out = Inr out"
| "mesh_loop u m verts cap (Suc n) out = (case mread I64 m (verts + word_of_nat (length out) * 8) of
     None \<Rightarrow> Inl Outside_verts
   | Some v \<Rightarrow> if cap < 4 * (length out + 1) then Inl Outside_buffer
       else mesh_loop u m verts cap n (out @ [f64_to_f32 u v]))"

text \<open>The number of the floats and the bytes they take, both of 32 bits.\<close>

definition mesh_count :: "u64 \<Rightarrow> u32" where
  "mesh_count sz = ucast (sz div 8)"

definition mesh_bytes :: "u64 \<Rightarrow> u32" where
  "mesh_bytes sz = mesh_count sz * 4"

text \<open>What SDL answers: the buffer, the transfer buffer, whether there is a command buffer, and whether
  the transfer buffer could be mapped.\<close>

record mesh_now =
  mn_buffer :: "nat option"
  mn_transfer :: "nat option"
  mn_cmd :: bool
  mn_mapped :: bool

text \<open>The answer is the handle, if there is one, the floats that the buffer is filled with, and the store.\<close>

definition host_gui_mesh_create :: "fpu \<Rightarrow> vmem \<Rightarrow> mesh_now \<Rightarrow> nat \<Rightarrow> u64 \<Rightarrow> u64 \<Rightarrow> mesh_store \<Rightarrow>
    mesh_error + (nat option \<times> u32 list \<times> mesh_store)" where
  "host_gui_mesh_create u m nw h verts sz s =
     (if \<not> mg_device s \<or> mesh_count sz = 0 then Inr (None, [], s)
      else
        (let s = s\<lparr>mg_buffers := mg_buffers s \<union> set_option (mn_buffer nw), mg_transfers := mg_transfers s \<union> set_option (mn_transfer nw)\<rparr> in
         (case (mn_buffer nw, mn_transfer nw, mn_cmd nw) of
            (Some b, Some t, True) \<Rightarrow>
              if \<not> mn_mapped nw then Inl Not_mapped
              else (case mesh_loop u m verts (unat (mesh_bytes sz)) (unat (mesh_count sz)) [] of
                  Inl e \<Rightarrow> Inl e
                | Inr out \<Rightarrow> Inr (Some h, out, s\<lparr>mg_transfers := mg_transfers s - {t},
                    mg_meshes := (mg_meshes s)(h \<mapsto> \<lparr>ms_buffer = b, ms_floats = mesh_count sz\<rparr>)\<rparr>))
          | _ \<Rightarrow> Inr (None, [], s\<lparr>mg_buffers := mg_buffers s - set_option (mn_buffer nw),
              mg_transfers := mg_transfers s - set_option (mn_transfer nw)\<rparr>))))"

text \<open>A buffer that is given back when it is not held is \<open>None\<close>.\<close>

definition host_gui_mesh_destroy :: "nat \<Rightarrow> mesh_store \<Rightarrow> mesh_store option" where
  "host_gui_mesh_destroy h s = (case mg_meshes s h of
       None \<Rightarrow> None
     | Some x \<Rightarrow>
         if mg_device s \<and> ms_buffer x \<notin> mg_buffers s then None
         else Some ((if mg_device s then s\<lparr>mg_buffers := mg_buffers s - {ms_buffer x}\<rparr> else s)
           \<lparr>mg_meshes := (mg_meshes s)(h := None)\<rparr>))"

section \<open>A mesh holds its vertices\<close>

definition double_at :: "vmem \<Rightarrow> u64 \<Rightarrow> nat \<Rightarrow> u64" where
  "double_at m verts i = the (mread I64 m (verts + word_of_nat i * 8))"

lemma mesh_loop_all:
  assumes "\<forall>i < length out + n. mread I64 m (verts + word_of_nat i * 8) \<noteq> None" "4 * (length out + n) \<le> cap"
  shows "mesh_loop u m verts cap n out = Inr (out @ map (\<lambda>i. f64_to_f32 u (double_at m verts i)) [length out..<length out + n])"
  using assms
proof (induction n arbitrary: out)
  case (Suc n)
  have "length out < length out + Suc n" by simp
  then have "mread I64 m (verts + word_of_nat (length out) * 8) \<noteq> None" using Suc.prems(1) by blast
  then obtain v where v: "mread I64 m (verts + word_of_nat (length out) * 8) = Some v" by blast
  have "[length out..<length out + Suc n] = length out # [Suc (length out)..<length out + Suc n]" by (simp add: upt_rec)
  then show ?case
    using Suc.IH [of "out @ [f64_to_f32 u v]"] Suc.prems v by (simp add: double_at_def)
qed simp

lemma mesh_sizes:
  assumes "unat sz < 2 ^ 33"
  shows "unat (mesh_count sz) = unat sz div 8" "unat (mesh_bytes sz) = 4 * (unat sz div 8)"
proof -
  show c: "unat (mesh_count sz) = unat sz div 8"
    using assms by (simp add: mesh_count_def unsigned_ucast_eq unat_div take_bit_nat_eq_self)
  show "unat (mesh_bytes sz) = 4 * (unat sz div 8)"
    using assms by (simp add: mesh_bytes_def unat_word_ariths c)
qed


text \<open>At 8 GiB the bytes of the floats come to 0 in 32 bits, and the first float is written past the buffer.\<close>

theorem mesh_too_big:
  assumes "mg_device s" "mn_buffer nw = Some b" "mn_transfer nw = Some t" "mn_cmd nw" "mn_mapped nw"
    "mread I64 m verts \<noteq> None"
  shows "host_gui_mesh_create u m nw h verts (2 ^ 33) s = Inl Outside_buffer"
proof -
  obtain v where v: "mread I64 m verts = Some v" using assms(6) by blast
  have c: "mesh_count (2 ^ 33) = 2 ^ 30" by (simp add: mesh_count_def)
  have b: "mesh_bytes (2 ^ 33) = 0" by (simp only: mesh_bytes_def c) simp
  obtain n where n: "unat (2 ^ 30 :: u32) = Suc n" using not0_implies_Suc [of "unat (2 ^ 30 :: u32)"] by auto
  have "mesh_loop u m verts (unat (mesh_bytes (2 ^ 33))) (unat (mesh_count (2 ^ 33))) [] = Inl Outside_buffer"
    by (simp only: b c n mesh_loop.simps) (simp add: v)
  then show ?thesis
    using assms(1-5) c by (simp add: host_gui_mesh_create_def Let_def)
qed

section \<open>What the GPU reads of a mesh\<close>

definition counted_by :: "shade \<Rightarrow> (nat \<rightharpoonup> u32) \<Rightarrow> drawn \<Rightarrow> bool" where
  "counted_by s meshes x \<longleftrightarrow> (\<exists>sh floats. sd_shaders s (unat (dr_pair (dn_draw x))) = Some sh \<and>
     meshes (unat (dr_mesh (dn_draw x))) = Some floats \<and> dn_vertices x = floats div sh_stride sh)"

lemma draw_items_one:
  "draw_items m g s meshes sampler gpu_of target (d # ds) = Inr out \<Longrightarrow>
     draw_items m g s meshes sampler gpu_of target ds = Inr out \<or>
     (\<exists>x out'. draw_items m g s meshes sampler gpu_of target ds = Inr out' \<and> out = x # out' \<and> counted_by s meshes x)"
  by (cases sampler) (auto simp: counted_by_def split: if_splits option.splits sum.splits)

lemma draw_items_vertices:
  "draw_items m g s meshes sampler gpu_of target ds = Inr out \<Longrightarrow> x \<in> set out \<Longrightarrow> counted_by s meshes x"
proof (induction ds arbitrary: out)
  case (Cons d ds)
  from draw_items_one [OF Cons.prems(1)] show ?case
  proof (elim disjE exE conjE)
    fix y out' assume "draw_items m g s meshes sampler gpu_of target ds = Inr out'" "out = y # out'" "counted_by s meshes y"
    then show ?thesis using Cons by auto
  qed (rule Cons.IH [OF _ Cons.prems(2)])
qed simp


text \<open>A mesh that is made and destroyed leaves the store as it was.\<close>

theorem mesh_comes_and_goes:
  assumes "mg_meshes s h = None" "\<forall>b. mn_buffer nw = Some b \<longrightarrow> b \<notin> mg_buffers s" "\<forall>t. mn_transfer nw = Some t \<longrightarrow> t \<notin> mg_transfers s"
    "host_gui_mesh_create u m nw h verts sz s = Inr (Some h', out, s')"
  shows "host_gui_mesh_destroy h' s' = Some s"
proof -
  have "(mg_meshes s)(h := None) = mg_meshes s" using assms(1) by (rule fun_upd_idem)
  then show ?thesis using assms
    by (cases s) (auto simp: host_gui_mesh_create_def host_gui_mesh_destroy_def Let_def split: if_splits option.splits sum.splits bool.splits)
qed

section \<open>The properties at work\<close>

definition zeros :: vmem where "zeros = (\<lambda>_. Some 0)"

lemma zeros_read: "mread I64 zeros a = Some 0"
  by (simp add: mread_def load_8 zeros_def)

definition no_meshes :: mesh_store where
  "no_meshes = \<lparr>mg_device = True, mg_meshes = Map.empty, mg_buffers = {}, mg_transfers = {}\<rparr>"

definition all_made :: mesh_now where
  "all_made = \<lparr>mn_buffer = Some 3, mn_transfer = Some 4, mn_cmd = True, mn_mapped = True\<rparr>"


theorem mesh_too_big_witness: "host_gui_mesh_create fpu0 zeros all_made 9 64 (2 ^ 33) no_meshes = Inl Outside_buffer"
  by (rule mesh_too_big) (simp_all add: no_meshes_def all_made_def zeros_read)

theorem mesh_comes_and_goes_witness:
  "\<exists>out s'. host_gui_mesh_create fpu0 zeros all_made 9 64 16 no_meshes = Inr (Some 9, out, s') \<and> host_gui_mesh_destroy 9 s' = Some no_meshes"
proof -
  have "\<exists>out. mesh_loop fpu0 zeros 64 8 2 [] = Inr out"
    using mesh_loop_all [of "[]" 2 zeros 64 8 fpu0] by (simp add: zeros_read)
  then obtain out0 where loop: "mesh_loop fpu0 zeros 64 8 2 [] = Inr out0" by blast
  obtain out s' where made: "host_gui_mesh_create fpu0 zeros all_made 9 64 16 no_meshes = Inr (Some 9, out, s')"
    using loop by (simp add: host_gui_mesh_create_def mesh_bytes_def mesh_count_def all_made_def no_meshes_def Let_def)
  have "host_gui_mesh_destroy 9 s' = Some no_meshes"
    by (rule mesh_comes_and_goes [OF _ _ _ made]) (simp_all add: no_meshes_def)
  with made show ?thesis by blast
qed

text \<open>A pair of vertices of 7 floats, and a mesh of 22 of them: three vertices.\<close>

definition one_pair :: shade where
  "one_pair = snd (the (host_gui_pair_create 1 [] [] [2, 1, 3, 4, 0] (shade0 True False True)))"

definition one_mesh :: mesh_store where
  "one_mesh = no_meshes\<lparr>mg_meshes := [5 \<mapsto> \<lparr>ms_buffer = 3, ms_floats = 22\<rparr>]\<rparr>"

definition one_draw :: draw where
  "one_draw = \<lparr>dr_pair = 1, dr_mesh = 5, dr_vlen = 0, dr_plen = 0, dr_vblock = 0, dr_pblock = 0, dr_textures = 0\<rparr>"

lemma one_pair_shader: "pair_shader [2, 1, 3, 4, 0] = Some (shader0\<lparr>sh_mesh := True, sh_num_attrs := 2, sh_attrs := [3, 4], sh_cull := 1,
    sh_stride := 7, sh_num_textures := 0\<rparr>)"
proof -
  have "pair_attrs [2, 1, 3, 4, 0] 0 (Suc (Suc 0)) = Some [3, 4]" by (simp add: layout_byte_def pair_attr_def)
  then have "pair_attrs [2, 1, 3, 4, 0] 0 2 = Some [3, 4]" by (simp only: numeral_2_eq_2)
  then show ?thesis by (simp add: pair_shader_def layout_byte_def max_pair_textures_def)
qed

lemma one_pair_reached: "shade_reaches one_pair"
proof -
  have "shade_step (shade0 True False True) (Some one_pair)"
    using shade_step.pair [of "shade0 True False True" 1 "[2, 1, 3, 4, 0]" _ "[]" "[]", OF _ one_pair_shader]
    by (simp add: one_pair_def host_gui_pair_create_def one_pair_shader shade0_def host_gui_shader_format_def)
  then show ?thesis by (rule shade_reaches.step [OF shade_reaches.start])
qed

lemma one_pair_there: "sd_shaders one_pair 1 = Some sh \<Longrightarrow> sh_attrs sh = [3, 4] \<and> sh_stride sh = 7 \<and> sh_num_textures sh = 0"
  "sd_shaders one_pair 1 \<noteq> None"
  by (auto simp: one_pair_def host_gui_pair_create_def one_pair_shader shade0_def host_gui_shader_format_def start_shader_def)


end
