(* ===== verification/Sdl_Window.thy ===== *)
theory Sdl_Window
  imports Vp64_Memory Ieee
begin

text \<open>
  The window drivers on SDL2 and SDL3, \<^verbatim>\<open>src/src/host/gui_sdl.cpp\<close> and the part of
  \<^verbatim>\<open>src/src/host/gui_sdl3.cpp\<close> that draws with SDL's renderer. What SDL draws is SDL's: an operation
  is what it does to the statics of the driver and the calls it makes of SDL, in order, each with what
  SDL answered. A window, renderer, device, texture or surface is a number, \<open>None\<close> the null pointer,
  and a handle of the GUI is one that a texture has or the null pointer. The calls for a Mac alone are left out.
\<close>

section \<open>The calls of SDL\<close>

type_synonym wrect = "u32 \<times> u32 \<times> u32 \<times> u32"

text \<open>SDL2 takes whole numbers and SDL3 floats, as their bits.\<close>

datatype place = Ints wrect | Floats wrect
datatype blend = Blend_none | Blend_blend | Blend_premul | Blend_other nat
datatype px_format = Px_argb | Px_xrgb

datatype sdl_call =
    Hint_trackpad | Quiet_assertions | Sdl_init | Sdl_quit | Events_drained | Show_cursor | Hide_cursor
  | Create_window u32 u32 bool "nat option"  \<comment> \<open>for Vulkan\<close>
  | Destroy_window "nat option"
  | Raise_window "nat option"
  | Fullscreen "nat option"
  | Create_device "nat option"
  | Destroy_device nat
  | Create_gpu_renderer nat "nat option" "nat option"
  | Create_renderer "nat option" "nat option"
  | Destroy_renderer nat
  | Set_vsync "nat option"
  | Create_target "nat option" px_format u32 u32 "nat option"
  | Create_from_surface "nat option" "nat option" "nat option"
  | Destroy_texture "nat option"
  | Texture_blend "nat option" blend
  | Texture_nearest "nat option"
  | Texture_color "nat option" u8 u8 u8
  | Get_blend "nat option" blend
  | Get_color "nat option" u8 u8 u8
  | Create_surface u32 u32 u32 "nat option"
  | Destroy_surface "nat option"
  | Set_target "nat option" "nat option"
  | Get_target "nat option" "nat option"
  | Draw_blend "nat option" blend
  | Draw_color "nat option" u8 u8 u8 u8
  | Render_texture "nat option" "nat option" "place option" "place option"
  | Render_rect "nat option" place
  | Render_fill "nat option" place
  | Set_clip "nat option" wrect
  | Present "nat option"
  | Read_pixels "nat option" "wrect option" "nat option"
  | Read_into "nat option" "wrect option" bool
  | Convert_pixels nat bool

section \<open>The statics of a driver\<close>

text \<open>A texture of the GUI is SDL's, with its mode. The driver of SDL2 has no device.\<close>

record sdl_gui =
  sg_window :: "nat option"
  sg_renderer :: "nat option"
  sg_backbuffer :: "nat option"
  sg_device :: "nat option"
  sg_textures :: "nat \<rightharpoonup> nat \<times> u64"
  sg_wheel :: u32

definition sdl_gui0 :: sdl_gui where
  "sdl_gui0 = \<lparr>sg_window = None, sg_renderer = None, sg_backbuffer = None, sg_device = None, sg_textures = Map.empty, sg_wheel = 1\<rparr>"

definition keep_texture :: "nat \<Rightarrow> nat option \<Rightarrow> u64 \<Rightarrow> sdl_gui \<Rightarrow> sdl_gui" where
  "keep_texture h t mode s = (case t of None \<Rightarrow> s | Some t \<Rightarrow> s\<lparr>sg_textures := (sg_textures s)(h \<mapsto> (t, mode))\<rparr>)"

definition texture_of :: "nat \<Rightarrow> sdl_gui \<Rightarrow> nat option" where
  "texture_of h s = map_option fst (sg_textures s h)"

section \<open>The driver on SDL3\<close>

text \<open>What is found when it starts: the environment, whether the display is bare and its mode, and what SDL makes.
  \<open>st_gpu\<close> is whether it is built with a GPU renderer.\<close>

record sdl_start =
  st_gpu :: bool
  st_trackpad :: bool
  st_debug :: bool
  st_bare :: bool
  st_mode :: "(u32 \<times> u32) option"
  st_fullscreen :: bool
  st_window :: "nat option"
  st_device :: "nat option"
  st_gpu_renderer :: "nat option"
  st_window2 :: "nat option"
  st_renderer :: "nat option"
  st_back :: "nat option"

definition sdl3_backbuffer :: "nat option \<Rightarrow> u32 \<Rightarrow> u32 \<Rightarrow> nat option \<Rightarrow> sdl_call list" where
  "sdl3_backbuffer ren w h t = [Create_target ren Px_xrgb w h t, Texture_blend t Blend_none, Texture_nearest t]"

definition sdl3_create_device :: "sdl_start \<Rightarrow> nat option \<times> sdl_call list" where
  "sdl3_create_device st = (if st_gpu st then (st_device st, [Create_device (st_device st)]) else (None, []))"

text \<open>The renderer on the device, or, with none, any. The answer is the window, the renderer, the device and the calls.\<close>

definition sdl3_renderer :: "sdl_start \<Rightarrow> u32 \<Rightarrow> u32 \<Rightarrow> nat option \<Rightarrow> nat option \<times> nat option \<times> nat option \<times> sdl_call list" where
  "sdl3_renderer st w h ren =
     (case sdl3_create_device st of (device, calls) \<Rightarrow>
       (let (ren, calls) = (case device of None \<Rightarrow> (ren, calls)
              | Some d \<Rightarrow> (st_gpu_renderer st, calls @ [Create_gpu_renderer d (st_window st) (st_gpu_renderer st)])) in
        if ren \<noteq> None then (st_window st, ren, device, calls)
        else
          (let calls = calls @ (case device of None \<Rightarrow> [] | Some d \<Rightarrow> [Destroy_device d]);
               (win, calls) = (if st_bare st
                 then (st_window2 st, calls @ [Destroy_window (st_window st), Create_window w h False (st_window2 st)])
                 else (st_window st, calls)) in
           (win, st_renderer st, None, calls @ [Create_renderer win (st_renderer st)]))))"

definition sdl3_size :: "sdl_start \<Rightarrow> u32 \<Rightarrow> u32 \<Rightarrow> u32 \<times> u32" where
  "sdl3_size st w h = (case st_mode st of Some m \<Rightarrow> if st_bare st then m else (w, h) | None \<Rightarrow> (w, h))"

definition sdl3_window_init :: "sdl_start \<Rightarrow> u32 \<Rightarrow> u32 \<Rightarrow> u64 \<Rightarrow> sdl_gui \<Rightarrow> sdl_gui \<times> sdl_call list" where
  "sdl3_window_init st w h flags s =
     (let (w, h) = sdl3_size st w h in
      (case sdl3_renderer st w h (sg_renderer s) of (win, ren, device, calls) \<Rightarrow>
        (s\<lparr>sg_window := win, sg_renderer := ren, sg_backbuffer := st_back st, sg_device := device,
           sg_wheel := (if st_bare st then - 1 else sg_wheel s)\<rparr>,
         (if st_trackpad st then [Hint_trackpad] else []) @ (if st_debug st then [] else [Quiet_assertions]) @
         [Sdl_init, Create_window w h (st_bare st) (st_window st)] @ calls @ [Set_vsync ren] @
         sdl3_backbuffer ren w h (st_back st) @ [Draw_blend ren Blend_blend] @ (if flags \<noteq> 0 then [Hide_cursor] else []) @
         [Raise_window win] @ (if st_fullscreen st then [Fullscreen win] else []))))"

definition sdl3_window_deinit :: "sdl_gui \<Rightarrow> sdl_gui \<times> sdl_call list" where
  "sdl3_window_deinit s =
     (s\<lparr>sg_backbuffer := None, sg_renderer := None, sg_device := None, sg_window := None\<rparr>,
      [Show_cursor] @ (case sg_backbuffer s of None \<Rightarrow> [] | Some b \<Rightarrow> [Destroy_texture (Some b)]) @
      (case sg_renderer s of None \<Rightarrow> [] | Some r \<Rightarrow> [Destroy_renderer r]) @
      (case sg_device s of None \<Rightarrow> [] | Some d \<Rightarrow> [Destroy_device d]) @
      (case sg_window s of None \<Rightarrow> [] | Some w \<Rightarrow> [Destroy_window (Some w)]) @ [Events_drained, Sdl_quit])"

definition sdl3_create_texture :: "u32 \<Rightarrow> u32 \<Rightarrow> u32 \<Rightarrow> u64 \<Rightarrow> nat option \<Rightarrow> nat option \<Rightarrow> nat \<Rightarrow> sdl_gui \<Rightarrow> sdl_gui \<times> sdl_call list" where
  "sdl3_create_texture w h pitch mode surface t hn s =
     (keep_texture hn t mode s,
      [Create_surface w h pitch surface, Create_from_surface (sg_renderer s) surface t, Texture_blend t Blend_premul,
       Texture_nearest t, Destroy_surface surface])"

definition sdl3_shader_texture :: "u32 \<Rightarrow> u32 \<Rightarrow> nat option \<Rightarrow> nat \<Rightarrow> sdl_gui \<Rightarrow> sdl_gui \<times> sdl_call list" where
  "sdl3_shader_texture w h t hn s =
     (if sg_device s = None then (s, [])
      else if t = None then (s, [Create_target (sg_renderer s) Px_argb w h t])
      else (keep_texture hn t 0 s, [Create_target (sg_renderer s) Px_argb w h t, Texture_blend t Blend_premul, Texture_nearest t]))"

definition sdl3_destroy_texture :: "nat \<Rightarrow> sdl_gui \<Rightarrow> sdl_gui \<times> sdl_call list" where
  "sdl3_destroy_texture hn s = (case texture_of hn s of None \<Rightarrow> (s, [])
     | Some t \<Rightarrow> (s\<lparr>sg_textures := (sg_textures s)(hn := None)\<rparr>, [Destroy_texture (Some t)]))"

definition sdl3_begin_composite :: "sdl_gui \<Rightarrow> sdl_call list" where
  "sdl3_begin_composite s = [Set_target (sg_renderer s) (sg_backbuffer s)]"

definition sdl3_end_composite :: "sdl_gui \<Rightarrow> sdl_call list" where
  "sdl3_end_composite s = [Set_target (sg_renderer s) None]"

definition sdl3_window_flush :: "sdl_gui \<Rightarrow> sdl_call list" where
  "sdl3_window_flush s = [Draw_blend (sg_renderer s) Blend_none, Render_texture (sg_renderer s) (sg_backbuffer s) None None,
     Draw_blend (sg_renderer s) Blend_blend, Present (sg_renderer s)]"

definition frect :: "wrect \<Rightarrow> place" where
  "frect r = (case r of (x, y, w, h) \<Rightarrow>
     Floats (f32_of_int (sint x), f32_of_int (sint y), f32_of_int (sint w), f32_of_int (sint h)))"

definition sdl3_box :: "wrect \<Rightarrow> sdl_gui \<Rightarrow> sdl_call list" where
  "sdl3_box r s = [Render_rect (sg_renderer s) (frect r)]"

definition sdl3_filled_box :: "wrect \<Rightarrow> sdl_gui \<Rightarrow> sdl_call list" where
  "sdl3_filled_box r s = [Render_fill (sg_renderer s) (frect r)]"

definition sdl3_set_color :: "u8 \<Rightarrow> u8 \<Rightarrow> u8 \<Rightarrow> u8 \<Rightarrow> sdl_gui \<Rightarrow> sdl_call list" where
  "sdl3_set_color r g b a s = [Draw_color (sg_renderer s) r g b a]"

definition sdl3_set_texture_color :: "nat \<Rightarrow> u8 \<Rightarrow> u8 \<Rightarrow> u8 \<Rightarrow> sdl_gui \<Rightarrow> sdl_call list" where
  "sdl3_set_texture_color hn r g b s = (case sg_textures s hn of
     Some (t, mode) \<Rightarrow> if mode \<noteq> 0 then [Texture_color (Some t) r g b] else [] | None \<Rightarrow> [])"

definition sdl3_blit :: "nat \<Rightarrow> wrect \<Rightarrow> wrect \<Rightarrow> sdl_gui \<Rightarrow> sdl_call list" where
  "sdl3_blit hn srect drect s = [Render_texture (sg_renderer s) (texture_of hn s) (Some (frect srect)) (Some (frect drect))]"

definition sdl3_set_clip :: "wrect \<Rightarrow> sdl_gui \<Rightarrow> sdl_call list" where
  "sdl3_set_clip r s = [Set_clip (sg_renderer s) r]"

definition sdl3_resize :: "u32 \<Rightarrow> u32 \<Rightarrow> nat option \<Rightarrow> sdl_gui \<Rightarrow> sdl_gui \<times> sdl_call list" where
  "sdl3_resize w h t s = (s\<lparr>sg_backbuffer := t\<rparr>, Destroy_texture (sg_backbuffer s) # sdl3_backbuffer (sg_renderer s) w h t)"

text \<open>What SDL answers while a texture or the screen is read.\<close>

record sdl_read =
  rd_copy :: "nat option"
  rd_blend :: blend
  rd_color :: "u8 \<times> u8 \<times> u8"
  rd_target :: "nat option"
  rd_surface :: "nat option"
  rd_sized :: bool  \<comment> \<open>the surface is of the size asked for\<close>
  rd_ok :: bool

definition sdl3_read_texture :: "nat \<Rightarrow> u32 \<Rightarrow> u32 \<Rightarrow> sdl_read \<Rightarrow> sdl_gui \<Rightarrow> u64 \<times> sdl_call list" where
  "sdl3_read_texture hn w h rd s =
     (let ren = sg_renderer s; t = texture_of hn s in
      if t = None \<or> ren = None then (0, [])
      else if rd_copy rd = None then (0, [Create_target ren Px_argb w h None])
      else (case rd_color rd of (r, g, b) \<Rightarrow>
        (if rd_surface rd \<noteq> None \<and> rd_ok rd then 1 else 0,
         [Create_target ren Px_argb w h (rd_copy rd), Get_blend t (rd_blend rd), Get_color t r g b, Texture_blend t Blend_none,
          Texture_color t 255 255 255, Get_target ren (rd_target rd), Set_target ren (rd_copy rd), Render_texture ren t None None,
          Read_pixels ren None (rd_surface rd), Set_target ren (rd_target rd), Texture_blend t (rd_blend rd), Texture_color t r g b] @
         (case rd_surface rd of None \<Rightarrow> [] | Some f \<Rightarrow> [Convert_pixels f (rd_ok rd), Destroy_surface (Some f)]) @
         [Destroy_texture (rd_copy rd)])))"

text \<open>Every pixel of the rectangle is made opaque, \<open>row[i] |= 0xff000000\<close>.\<close>

fun opaque_row :: "nat \<Rightarrow> u64 \<Rightarrow> vmem \<Rightarrow> vmem option" where
  "opaque_row 0 a m = Some m"
| "opaque_row (Suc n) a m = Option.bind (mread U32 m a) (\<lambda>x. Option.bind (mwrite U32 m a (x OR 0xff000000)) (opaque_row n (a + 4)))"

fun opaque_rows :: "nat \<Rightarrow> nat \<Rightarrow> u64 \<Rightarrow> u64 \<Rightarrow> vmem \<Rightarrow> vmem option" where
  "opaque_rows 0 w a stride m = Some m"
| "opaque_rows (Suc h) w a stride m = Option.bind (opaque_row w a m) (opaque_rows h w (a + stride) stride)"

text \<open>\<open>m\<close> is the memory with what SDL has written to the buffer. The answer is the result and the memory.\<close>

definition sdl3_read_screen :: "u64 \<Rightarrow> u64 \<Rightarrow> u64 \<Rightarrow> u64 \<Rightarrow> u64 \<Rightarrow> u64 \<Rightarrow> sdl_read \<Rightarrow> vmem \<Rightarrow> sdl_gui \<Rightarrow> (u64 \<times> vmem) option \<times> sdl_call list" where
  "sdl3_read_screen data x y w h stride rd m s =
     (let ren = sg_renderer s; r = (ucast x, ucast y, ucast w, ucast h) in
      if ren = None \<or> sg_backbuffer s = None then (Some (0, m), [])
      else
        (let ok = (rd_surface rd \<noteq> None \<and> rd_sized rd \<and> rd_ok rd) in
         (if ok then map_option (Pair 1) (opaque_rows (unat h) (unat w) data stride m) else Some (0, m),
          [Get_target ren (rd_target rd), Set_target ren (sg_backbuffer s), Read_pixels ren (Some r) (rd_surface rd),
           Set_target ren (rd_target rd)] @
          (case rd_surface rd of None \<Rightarrow> []
           | Some f \<Rightarrow> (if rd_sized rd then [Convert_pixels f (rd_ok rd)] else []) @ [Destroy_surface (Some f)]))))"

section \<open>The driver on SDL2\<close>

text \<open>It has no device, and does not draw shaders: what SDL makes at its start is the window, the renderer and the
  back buffer.\<close>

definition sdl2_backbuffer :: "nat option \<Rightarrow> u32 \<Rightarrow> u32 \<Rightarrow> nat option \<Rightarrow> sdl_call list" where
  "sdl2_backbuffer ren w h t = [Create_target ren Px_xrgb w h t, Texture_blend t Blend_none]"

definition sdl2_window_init :: "sdl_start \<Rightarrow> u32 \<Rightarrow> u32 \<Rightarrow> u64 \<Rightarrow> sdl_gui \<Rightarrow> sdl_gui \<times> sdl_call list" where
  "sdl2_window_init st w h flags s =
     (s\<lparr>sg_window := st_window st, sg_renderer := st_renderer st, sg_backbuffer := st_back st\<rparr>,
      [Sdl_init, Create_window w h False (st_window st), Create_renderer (st_window st) (st_renderer st)] @
      sdl2_backbuffer (st_renderer st) w h (st_back st) @ [Draw_blend (st_renderer st) Blend_blend] @
      (if flags \<noteq> 0 then [Hide_cursor] else []) @ [Raise_window (st_window st)])"

definition sdl2_window_deinit :: "sdl_gui \<Rightarrow> sdl_gui \<times> sdl_call list" where
  "sdl2_window_deinit s =
     (s\<lparr>sg_backbuffer := None, sg_renderer := None, sg_window := None\<rparr>,
      [Show_cursor] @ (case sg_backbuffer s of None \<Rightarrow> [] | Some b \<Rightarrow> [Destroy_texture (Some b)]) @
      (case sg_renderer s of None \<Rightarrow> [] | Some r \<Rightarrow> [Destroy_renderer r]) @
      (case sg_window s of None \<Rightarrow> [] | Some w \<Rightarrow> [Destroy_window (Some w)]) @ [Events_drained, Sdl_quit])"

definition sdl2_create_texture :: "u32 \<Rightarrow> u32 \<Rightarrow> u32 \<Rightarrow> u64 \<Rightarrow> nat option \<Rightarrow> nat option \<Rightarrow> nat \<Rightarrow> sdl_gui \<Rightarrow> sdl_gui \<times> sdl_call list" where
  "sdl2_create_texture w h pitch mode surface t hn s =
     (keep_texture hn t mode s,
      [Create_surface w h pitch surface, Create_from_surface (sg_renderer s) surface t, Texture_blend t Blend_premul,
       Destroy_surface surface])"

definition sdl2_destroy_texture :: "nat \<Rightarrow> sdl_gui \<Rightarrow> sdl_gui \<times> sdl_call list" where
  "sdl2_destroy_texture hn s = (case texture_of hn s of None \<Rightarrow> (s, [])
     | Some t \<Rightarrow> (s\<lparr>sg_textures := (sg_textures s)(hn := None)\<rparr>, [Destroy_texture (Some t)]))"

definition sdl2_begin_composite :: "sdl_gui \<Rightarrow> sdl_call list" where
  "sdl2_begin_composite s = [Set_target (sg_renderer s) (sg_backbuffer s)]"

definition sdl2_end_composite :: "sdl_gui \<Rightarrow> sdl_call list" where
  "sdl2_end_composite s = [Set_target (sg_renderer s) None]"

definition sdl2_window_flush :: "sdl_gui \<Rightarrow> sdl_call list" where
  "sdl2_window_flush s = [Draw_blend (sg_renderer s) Blend_none, Render_texture (sg_renderer s) (sg_backbuffer s) None None,
     Draw_blend (sg_renderer s) Blend_blend, Present (sg_renderer s)]"

definition sdl2_box :: "wrect \<Rightarrow> sdl_gui \<Rightarrow> sdl_call list" where
  "sdl2_box r s = [Render_rect (sg_renderer s) (Ints r)]"

definition sdl2_filled_box :: "wrect \<Rightarrow> sdl_gui \<Rightarrow> sdl_call list" where
  "sdl2_filled_box r s = [Render_fill (sg_renderer s) (Ints r)]"

definition sdl2_set_color :: "u8 \<Rightarrow> u8 \<Rightarrow> u8 \<Rightarrow> u8 \<Rightarrow> sdl_gui \<Rightarrow> sdl_call list" where
  "sdl2_set_color r g b a s = [Draw_color (sg_renderer s) r g b a]"

definition sdl2_set_texture_color :: "nat \<Rightarrow> u8 \<Rightarrow> u8 \<Rightarrow> u8 \<Rightarrow> sdl_gui \<Rightarrow> sdl_call list" where
  "sdl2_set_texture_color hn r g b s = (case sg_textures s hn of
     Some (t, mode) \<Rightarrow> if mode \<noteq> 0 then [Texture_color (Some t) r g b] else [] | None \<Rightarrow> [])"

definition sdl2_blit :: "nat \<Rightarrow> wrect \<Rightarrow> wrect \<Rightarrow> sdl_gui \<Rightarrow> sdl_call list" where
  "sdl2_blit hn srect drect s = [Render_texture (sg_renderer s) (texture_of hn s) (Some (Ints srect)) (Some (Ints drect))]"

definition sdl2_set_clip :: "wrect \<Rightarrow> sdl_gui \<Rightarrow> sdl_call list" where
  "sdl2_set_clip r s = [Set_clip (sg_renderer s) r]"

definition sdl2_resize :: "u32 \<Rightarrow> u32 \<Rightarrow> nat option \<Rightarrow> sdl_gui \<Rightarrow> sdl_gui \<times> sdl_call list" where
  "sdl2_resize w h t s = (s\<lparr>sg_backbuffer := t\<rparr>, Destroy_texture (sg_backbuffer s) # sdl2_backbuffer (sg_renderer s) w h t)"

definition sdl2_read_texture :: "nat \<Rightarrow> u32 \<Rightarrow> u32 \<Rightarrow> sdl_read \<Rightarrow> sdl_gui \<Rightarrow> u64 \<times> sdl_call list" where
  "sdl2_read_texture hn w h rd s =
     (let ren = sg_renderer s; t = texture_of hn s in
      if t = None \<or> ren = None then (0, [])
      else if rd_copy rd = None then (0, [Create_target ren Px_argb w h None])
      else (case rd_color rd of (r, g, b) \<Rightarrow>
        (if rd_ok rd then 1 else 0,
         [Create_target ren Px_argb w h (rd_copy rd), Get_blend t (rd_blend rd), Get_color t r g b, Texture_blend t Blend_none,
          Texture_color t 255 255 255, Get_target ren (rd_target rd), Set_target ren (rd_copy rd), Render_texture ren t None None,
          Read_into ren None (rd_ok rd), Set_target ren (rd_target rd), Texture_blend t (rd_blend rd), Texture_color t r g b,
          Destroy_texture (rd_copy rd)])))"

definition sdl2_read_screen :: "u64 \<Rightarrow> u64 \<Rightarrow> u64 \<Rightarrow> u64 \<Rightarrow> u64 \<Rightarrow> u64 \<Rightarrow> sdl_read \<Rightarrow> vmem \<Rightarrow> sdl_gui \<Rightarrow> (u64 \<times> vmem) option \<times> sdl_call list" where
  "sdl2_read_screen data x y w h stride rd m s =
     (let ren = sg_renderer s; r = (ucast x, ucast y, ucast w, ucast h) in
      if ren = None \<or> sg_backbuffer s = None then (Some (0, m), [])
      else
        (if rd_ok rd then map_option (Pair 1) (opaque_rows (unat h) (unat w) data stride m) else Some (0, m),
         [Get_target ren (rd_target rd), Set_target ren (sg_backbuffer s), Read_into ren (Some r) (rd_ok rd), Set_target ren (rd_target rd)]))"

section \<open>The operations of a driver\<close>

text \<open>An operation with what SDL answers to it.\<close>

datatype win_op =
    W_init sdl_start u32 u32 u64
  | W_deinit
  | W_create_texture u32 u32 u32 u64 "nat option" "nat option" nat
  | W_shader_texture u32 u32 "nat option" nat
  | W_destroy_texture nat
  | W_begin | W_end | W_flush
  | W_box wrect
  | W_filled_box wrect
  | W_color u8 u8 u8 u8
  | W_texture_color nat u8 u8 u8
  | W_blit nat wrect wrect
  | W_clip wrect
  | W_resize u32 u32 "nat option"
  | W_read_texture nat u32 u32 sdl_read
  | W_read_screen u64 u64 u64 u64 u64 u64 sdl_read vmem

fun sdl3_op :: "win_op \<Rightarrow> sdl_gui \<Rightarrow> sdl_gui \<times> sdl_call list" where
  "sdl3_op (W_init st w h flags) s = sdl3_window_init st w h flags s"
| "sdl3_op W_deinit s = sdl3_window_deinit s"
| "sdl3_op (W_create_texture w h pitch mode surface t hn) s = sdl3_create_texture w h pitch mode surface t hn s"
| "sdl3_op (W_shader_texture w h t hn) s = sdl3_shader_texture w h t hn s"
| "sdl3_op (W_destroy_texture hn) s = sdl3_destroy_texture hn s"
| "sdl3_op W_begin s = (s, sdl3_begin_composite s)"
| "sdl3_op W_end s = (s, sdl3_end_composite s)"
| "sdl3_op W_flush s = (s, sdl3_window_flush s)"
| "sdl3_op (W_box r) s = (s, sdl3_box r s)"
| "sdl3_op (W_filled_box r) s = (s, sdl3_filled_box r s)"
| "sdl3_op (W_color r g b a) s = (s, sdl3_set_color r g b a s)"
| "sdl3_op (W_texture_color hn r g b) s = (s, sdl3_set_texture_color hn r g b s)"
| "sdl3_op (W_blit hn sr dr) s = (s, sdl3_blit hn sr dr s)"
| "sdl3_op (W_clip r) s = (s, sdl3_set_clip r s)"
| "sdl3_op (W_resize w h t) s = sdl3_resize w h t s"
| "sdl3_op (W_read_texture hn w h rd) s = (s, snd (sdl3_read_texture hn w h rd s))"
| "sdl3_op (W_read_screen data x y w h stride rd m) s = (s, snd (sdl3_read_screen data x y w h stride rd m s))"

fun sdl2_op :: "win_op \<Rightarrow> sdl_gui \<Rightarrow> sdl_gui \<times> sdl_call list" where
  "sdl2_op (W_init st w h flags) s = sdl2_window_init st w h flags s"
| "sdl2_op W_deinit s = sdl2_window_deinit s"
| "sdl2_op (W_create_texture w h pitch mode surface t hn) s = sdl2_create_texture w h pitch mode surface t hn s"
| "sdl2_op (W_shader_texture w h t hn) s = (s, [])"
| "sdl2_op (W_destroy_texture hn) s = sdl2_destroy_texture hn s"
| "sdl2_op W_begin s = (s, sdl2_begin_composite s)"
| "sdl2_op W_end s = (s, sdl2_end_composite s)"
| "sdl2_op W_flush s = (s, sdl2_window_flush s)"
| "sdl2_op (W_box r) s = (s, sdl2_box r s)"
| "sdl2_op (W_filled_box r) s = (s, sdl2_filled_box r s)"
| "sdl2_op (W_color r g b a) s = (s, sdl2_set_color r g b a s)"
| "sdl2_op (W_texture_color hn r g b) s = (s, sdl2_set_texture_color hn r g b s)"
| "sdl2_op (W_blit hn sr dr) s = (s, sdl2_blit hn sr dr s)"
| "sdl2_op (W_clip r) s = (s, sdl2_set_clip r s)"
| "sdl2_op (W_resize w h t) s = sdl2_resize w h t s"
| "sdl2_op (W_read_texture hn w h rd) s = (s, snd (sdl2_read_texture hn w h rd s))"
| "sdl2_op (W_read_screen data x y w h stride rd m) s = (s, snd (sdl2_read_screen data x y w h stride rd m s))"

end
