(* ===== verification/Sdl_World.thy ===== *)
theory Sdl_World
  imports Sdl_Window Holders
begin

text \<open>
  What the window drivers on SDL2 and SDL3 may rely on and what they keep to: no call is given a window,
  renderer, device, texture or surface that is not alive, whatever SDL answers, what is alive is what the
  driver still holds, and a texture or the screen that is read is left as it was.
\<close>

section \<open>What lives in SDL\<close>

text \<open>What is alive, each texture with the renderer it was made for; the target of each renderer, and the blend
  mode and color of each texture, as they were last set. A texture goes with its renderer, and one that goes is the
  target of none.\<close>

record sdl_world =
  wl_windows :: "nat set"
  wl_devices :: "nat set"
  wl_renderers :: "nat set"
  wl_surfaces :: "nat set"
  wl_textures :: "nat \<rightharpoonup> nat option"
  wl_target :: "nat option \<Rightarrow> nat option"
  wl_blend :: "nat option \<Rightarrow> blend"
  wl_color :: "nat option \<Rightarrow> u8 \<times> u8 \<times> u8"

datatype sdl_thing = A_window nat | A_device nat | A_renderer nat | A_surface nat | A_texture nat

definition alive :: "sdl_world \<Rightarrow> sdl_thing set" where
  "alive v = A_window ` wl_windows v \<union> A_device ` wl_devices v \<union> A_renderer ` wl_renderers v \<union> A_surface ` wl_surfaces v \<union>
     A_texture ` dom (wl_textures v)"

text \<open>What a call is given, and what it makes. A null pointer is given for what there is not.\<close>

fun call_uses :: "sdl_call \<Rightarrow> sdl_thing set" where
  "call_uses (Destroy_window w) = A_window ` set_option w"
| "call_uses (Raise_window w) = A_window ` set_option w"
| "call_uses (Fullscreen w) = A_window ` set_option w"
| "call_uses (Destroy_device d) = {A_device d}"
| "call_uses (Create_gpu_renderer d w r) = insert (A_device d) (A_window ` set_option w)"
| "call_uses (Create_renderer w r) = A_window ` set_option w"
| "call_uses (Destroy_renderer r) = {A_renderer r}"
| "call_uses (Set_vsync r) = A_renderer ` set_option r"
| "call_uses (Create_target r f w h t) = A_renderer ` set_option r"
| "call_uses (Create_from_surface r f t) = A_renderer ` set_option r \<union> A_surface ` set_option f"
| "call_uses (Destroy_texture t) = A_texture ` set_option t"
| "call_uses (Texture_blend t b) = A_texture ` set_option t"
| "call_uses (Texture_nearest t) = A_texture ` set_option t"
| "call_uses (Texture_color t r g b) = A_texture ` set_option t"
| "call_uses (Get_blend t b) = A_texture ` set_option t"
| "call_uses (Get_color t r g b) = A_texture ` set_option t"
| "call_uses (Destroy_surface f) = A_surface ` set_option f"
| "call_uses (Set_target r t) = A_renderer ` set_option r \<union> A_texture ` set_option t"
| "call_uses (Get_target r t) = A_renderer ` set_option r"
| "call_uses (Draw_blend r b) = A_renderer ` set_option r"
| "call_uses (Draw_color r x g b a) = A_renderer ` set_option r"
| "call_uses (Render_texture r t p q) = A_renderer ` set_option r \<union> A_texture ` set_option t"
| "call_uses (Render_rect r p) = A_renderer ` set_option r"
| "call_uses (Render_fill r p) = A_renderer ` set_option r"
| "call_uses (Set_clip r p) = A_renderer ` set_option r"
| "call_uses (Present r) = A_renderer ` set_option r"
| "call_uses (Read_pixels r p f) = A_renderer ` set_option r"
| "call_uses (Read_into r p k) = A_renderer ` set_option r"
| "call_uses (Convert_pixels f k) = {A_surface f}"
| "call_uses _ = {}"

fun call_makes :: "sdl_call \<Rightarrow> sdl_thing set" where
  "call_makes (Create_window w h v x) = A_window ` set_option x"
| "call_makes (Create_device d) = A_device ` set_option d"
| "call_makes (Create_gpu_renderer d w r) = A_renderer ` set_option r"
| "call_makes (Create_renderer w r) = A_renderer ` set_option r"
| "call_makes (Create_target r f w h t) = A_texture ` set_option t"
| "call_makes (Create_from_surface r f t) = A_texture ` set_option t"
| "call_makes (Create_surface w h p f) = A_surface ` set_option f"
| "call_makes (Read_pixels r p f) = A_surface ` set_option f"
| "call_makes _ = {}"

definition live_targets :: "(nat \<rightharpoonup> nat option) \<Rightarrow> (nat option \<Rightarrow> nat option) \<Rightarrow> nat option \<Rightarrow> nat option" where
  "live_targets m g r = (case g r of None \<Rightarrow> None | Some t \<Rightarrow> if m t = None then None else Some t)"

definition keep_alive :: "(nat \<rightharpoonup> nat option) \<Rightarrow> sdl_world \<Rightarrow> sdl_world" where
  "keep_alive m v = v\<lparr>wl_textures := m, wl_target := live_targets m (wl_target v)\<rparr>"

lemma keep_alive_simps [simp]:
  "wl_windows (keep_alive m v) = wl_windows v" "wl_devices (keep_alive m v) = wl_devices v"
  "wl_renderers (keep_alive m v) = wl_renderers v" "wl_surfaces (keep_alive m v) = wl_surfaces v"
  "wl_textures (keep_alive m v) = m" "wl_target (keep_alive m v) = live_targets m (wl_target v)"
  by (simp_all add: keep_alive_def)

fun call_does :: "sdl_call \<Rightarrow> sdl_world \<Rightarrow> sdl_world" where
  "call_does (Create_window w h x win) v = v\<lparr>wl_windows := wl_windows v \<union> set_option win\<rparr>"
| "call_does (Destroy_window w) v = v\<lparr>wl_windows := wl_windows v - set_option w\<rparr>"
| "call_does (Create_device d) v = v\<lparr>wl_devices := wl_devices v \<union> set_option d\<rparr>"
| "call_does (Destroy_device d) v = v\<lparr>wl_devices := wl_devices v - {d}\<rparr>"
| "call_does (Create_gpu_renderer d w r) v = v\<lparr>wl_renderers := wl_renderers v \<union> set_option r\<rparr>"
| "call_does (Create_renderer w r) v = v\<lparr>wl_renderers := wl_renderers v \<union> set_option r\<rparr>"
| "call_does (Destroy_renderer r) v =
     keep_alive (\<lambda>t. if wl_textures v t = Some (Some r) then None else wl_textures v t)
       (v\<lparr>wl_renderers := wl_renderers v - {r}\<rparr>)"
| "call_does (Create_target r f w h t) v = (case t of None \<Rightarrow> v | Some t \<Rightarrow> v\<lparr>wl_textures := (wl_textures v)(t \<mapsto> r)\<rparr>)"
| "call_does (Create_from_surface r f t) v = (case t of None \<Rightarrow> v | Some t \<Rightarrow> v\<lparr>wl_textures := (wl_textures v)(t \<mapsto> r)\<rparr>)"
| "call_does (Destroy_texture t) v = (case t of None \<Rightarrow> v
     | Some t \<Rightarrow> keep_alive ((wl_textures v)(t := None)) v)"
| "call_does (Create_surface w h p f) v = v\<lparr>wl_surfaces := wl_surfaces v \<union> set_option f\<rparr>"
| "call_does (Read_pixels r p f) v = v\<lparr>wl_surfaces := wl_surfaces v \<union> set_option f\<rparr>"
| "call_does (Destroy_surface f) v = v\<lparr>wl_surfaces := wl_surfaces v - set_option f\<rparr>"
| "call_does (Texture_blend t b) v = v\<lparr>wl_blend := (wl_blend v)(t := b)\<rparr>"
| "call_does (Texture_color t r g b) v = v\<lparr>wl_color := (wl_color v)(t := (r, g, b))\<rparr>"
| "call_does (Set_target r t) v = v\<lparr>wl_target := (wl_target v)(r := t)\<rparr>"
| "call_does _ v = v"

text \<open>Answers SDL may give: what it makes is not alive yet, and what it says was set is what was set last.\<close>

fun call_answer :: "sdl_call \<Rightarrow> sdl_world \<Rightarrow> bool" where
  "call_answer (Get_blend t b) v \<longleftrightarrow> b = wl_blend v t"
| "call_answer (Get_color t r g b) v \<longleftrightarrow> (r, g, b) = wl_color v t"
| "call_answer (Get_target r t) v \<longleftrightarrow> t = wl_target v r"
| "call_answer c v \<longleftrightarrow> call_makes c \<inter> alive v = {}"

text \<open>A run of calls, none of them given what is not alive.\<close>

fun calls_safe :: "sdl_call list \<Rightarrow> sdl_world \<Rightarrow> bool" where
  "calls_safe [] v \<longleftrightarrow> True"
| "calls_safe (c # cs) v \<longleftrightarrow> call_uses c \<subseteq> alive v \<and> calls_safe cs (call_does c v)"

definition calls_end :: "sdl_call list \<Rightarrow> sdl_world \<Rightarrow> sdl_world" where
  "calls_end cs v = fold call_does cs v"

lemma calls_end_simps [simp]: "calls_end [] v = v" "calls_end (c # cs) v = calls_end cs (call_does c v)"
  "calls_end (cs @ ds) v = calls_end ds (calls_end cs v)"
  by (simp_all add: calls_end_def)

fun answers_right :: "sdl_call list \<Rightarrow> sdl_world \<Rightarrow> bool" where
  "answers_right [] v \<longleftrightarrow> True"
| "answers_right (c # cs) v \<longleftrightarrow> call_answer c v \<and> answers_right cs (call_does c v)"

section \<open>What is alive is what the driver holds\<close>

lemma in_alive [simp]:
  "A_window x \<in> alive v \<longleftrightarrow> x \<in> wl_windows v" "A_device x \<in> alive v \<longleftrightarrow> x \<in> wl_devices v"
  "A_renderer x \<in> alive v \<longleftrightarrow> x \<in> wl_renderers v" "A_surface x \<in> alive v \<longleftrightarrow> x \<in> wl_surfaces v"
  "A_texture x \<in> alive v \<longleftrightarrow> x \<in> dom (wl_textures v)"
  by (auto simp: alive_def)

lemma image_alive [simp]:
  "A_window ` S \<subseteq> alive v \<longleftrightarrow> S \<subseteq> wl_windows v" "A_device ` S \<subseteq> alive v \<longleftrightarrow> S \<subseteq> wl_devices v"
  "A_renderer ` S \<subseteq> alive v \<longleftrightarrow> S \<subseteq> wl_renderers v" "A_surface ` S \<subseteq> alive v \<longleftrightarrow> S \<subseteq> wl_surfaces v"
  "A_texture ` S \<subseteq> alive v \<longleftrightarrow> S \<subseteq> dom (wl_textures v)"
  by (auto simp: image_subset_iff)

lemma image_disjoint: "f ` S \<inter> X = {} \<longleftrightarrow> (\<forall>x \<in> S. f x \<notin> X)"
  by blast

lemma image_dead [simp]:
  "A_window ` S \<inter> alive v = {} \<longleftrightarrow> S \<inter> wl_windows v = {}" "A_device ` S \<inter> alive v = {} \<longleftrightarrow> S \<inter> wl_devices v = {}"
  "A_renderer ` S \<inter> alive v = {} \<longleftrightarrow> S \<inter> wl_renderers v = {}" "A_surface ` S \<inter> alive v = {} \<longleftrightarrow> S \<inter> wl_surfaces v = {}"
  "A_texture ` S \<inter> alive v = {} \<longleftrightarrow> S \<inter> dom (wl_textures v) = {}"
  by (simp_all add: image_disjoint, blast+)

lemma calls_safe_append [simp]: "calls_safe (cs @ ds) v \<longleftrightarrow> calls_safe cs v \<and> calls_safe ds (calls_end cs v)"
  by (induction cs arbitrary: v) auto

lemma answers_right_append [simp]: "answers_right (cs @ ds) v \<longleftrightarrow> answers_right cs v \<and> answers_right ds (calls_end cs v)"
  by (induction cs arbitrary: v) auto

text \<open>The back buffer is held by the driver, the other textures by their handles.\<close>

definition tex_held :: "sdl_gui \<Rightarrow> nat option \<Rightarrow> nat option" where
  "tex_held s k = (case k of None \<Rightarrow> sg_backbuffer s | Some h \<Rightarrow> texture_of h s)"

definition win_ok :: "sdl_gui \<Rightarrow> sdl_world \<Rightarrow> bool" where
  "win_ok s v \<longleftrightarrow> wl_windows v = set_option (sg_window s) \<and> wl_devices v = set_option (sg_device s) \<and>
     wl_renderers v = set_option (sg_renderer s) \<and> wl_surfaces v = {} \<and> holds_once (tex_held s) (dom (wl_textures v)) \<and>
     (\<forall>t r. wl_textures v t = Some r \<longrightarrow> r = sg_renderer s)"

lemma tex_held_update:
  "tex_held (s\<lparr>sg_backbuffer := b\<rparr>) = (tex_held s)(None := b)"
  "tex_held (s\<lparr>sg_textures := (sg_textures s)(h := None)\<rparr>) = (tex_held s)(Some h := None)"
  "tex_held (s\<lparr>sg_textures := (sg_textures s)(h \<mapsto> (t, m))\<rparr>) = (tex_held s)(Some h \<mapsto> t)"
  "tex_held (s\<lparr>sg_window := w\<rparr>) = tex_held s" "tex_held (s\<lparr>sg_renderer := r\<rparr>) = tex_held s"
  "tex_held (s\<lparr>sg_device := d\<rparr>) = tex_held s" "tex_held (s\<lparr>sg_wheel := k\<rparr>) = tex_held s"
  by (auto simp: tex_held_def texture_of_def fun_eq_iff split: option.splits)

lemma win_ok_textures:
  assumes "win_ok s v"
  shows "set_option (sg_backbuffer s) \<subseteq> dom (wl_textures v)" "set_option (texture_of h s) \<subseteq> dom (wl_textures v)"
proof -
  have t: "tex_held s k = Some t \<Longrightarrow> t \<in> dom (wl_textures v)" for k t
    using assms holds_in [of "tex_held s"] by (simp add: win_ok_def)
  show "set_option (sg_backbuffer s) \<subseteq> dom (wl_textures v)" using t [of None] by (auto simp: tex_held_def)
  show "set_option (texture_of h s) \<subseteq> dom (wl_textures v)" using t [of "Some h"] by (auto simp: tex_held_def)
qed

text \<open>Calls that make and end nothing.\<close>

definition same_life :: "sdl_world \<Rightarrow> sdl_world \<Rightarrow> bool" where
  "same_life v u \<longleftrightarrow> wl_windows u = wl_windows v \<and> wl_devices u = wl_devices v \<and> wl_renderers u = wl_renderers v \<and>
     wl_surfaces u = wl_surfaces v \<and> wl_textures u = wl_textures v"

fun mild :: "sdl_call \<Rightarrow> bool" where
  "mild (Create_window w h x win) = False" | "mild (Destroy_window w) = False" | "mild (Create_device d) = False"
| "mild (Destroy_device d) = False" | "mild (Create_gpu_renderer d w r) = False" | "mild (Create_renderer w r) = False"
| "mild (Destroy_renderer r) = False" | "mild (Create_target r f w h t) = False" | "mild (Create_from_surface r f t) = False"
| "mild (Destroy_texture t) = False" | "mild (Create_surface w h p f) = False" | "mild (Read_pixels r p f) = False"
| "mild (Destroy_surface f) = False" | "mild _ = True"

lemma mild_same: "mild c \<Longrightarrow> same_life v (call_does c v)"
  by (cases c) (simp_all add: same_life_def)

lemma same_life_alive: "same_life v u \<Longrightarrow> alive u = alive v"
  by (simp add: same_life_def alive_def)

lemma same_life_ok: "same_life v u \<Longrightarrow> win_ok s u = win_ok s v"
  by (simp add: same_life_def win_ok_def)

lemma mild_run:
  assumes "\<forall>c \<in> set cs. mild c \<and> call_uses c \<subseteq> alive v"
  shows "calls_safe cs v \<and> same_life v (calls_end cs v)"
  using assms
proof (induction cs arbitrary: v)
  case (Cons c cs)
  have s: "same_life v (call_does c v)" using Cons.prems mild_same by simp
  then have "\<forall>d \<in> set cs. mild d \<and> call_uses d \<subseteq> alive (call_does c v)"
    using Cons.prems by (simp add: same_life_alive [OF s])
  then show ?case using s Cons.prems Cons.IH [of "call_does c v"] by (auto simp: same_life_def)
qed (simp add: same_life_def)

definition goes_well :: "sdl_call list \<Rightarrow> sdl_gui \<Rightarrow> sdl_world \<Rightarrow> bool" where
  "goes_well cs s v \<longleftrightarrow> calls_safe cs v \<and> win_ok s (calls_end cs v)"

lemma goes_mild:
  assumes "win_ok s v" "\<forall>c \<in> set cs. mild c \<and> call_uses c \<subseteq> alive v"
  shows "goes_well cs s v"
  using mild_run [OF assms(2)] assms(1) same_life_ok by (auto simp: goes_well_def)

lemma goes_wellI: "win_ok s w \<Longrightarrow> same_life w (calls_end cs v) \<Longrightarrow> calls_safe cs v \<Longrightarrow> goes_well cs s v"
  using same_life_ok by (auto simp: goes_well_def)

lemma texture_made:
  assumes "win_ok s v" "sg_textures s hn = None" "set_option t \<inter> dom (wl_textures v) = {}"
    "u = (case t of None \<Rightarrow> v | Some x \<Rightarrow> v\<lparr>wl_textures := (wl_textures v)(x \<mapsto> sg_renderer s)\<rparr>)"
  shows "win_ok (keep_texture hn t mode s) u"
proof (cases t)
  case (Some x)
  have "tex_held s (Some hn) = None" using assms(2) by (simp add: tex_held_def texture_of_def)
  then have "holds_once ((tex_held s)(Some hn \<mapsto> x)) (insert x (dom (wl_textures v)))"
    using holds_add [of "tex_held s" "dom (wl_textures v)" "Some hn" x] assms(1,3) by (simp add: win_ok_def Some)
  then show ?thesis using assms(1,4) by (simp add: win_ok_def keep_texture_def Some tex_held_update)
qed (use assms in \<open>simp add: keep_texture_def\<close>)

lemma create_goes_well:
  assumes "win_ok s v" "sg_textures s hn = None"
  shows "answers_right (snd (sdl3_create_texture w h p m f t hn s)) v \<Longrightarrow>
      goes_well (snd (sdl3_create_texture w h p m f t hn s)) (fst (sdl3_create_texture w h p m f t hn s)) v"
    "answers_right (snd (sdl2_create_texture w h p m f t hn s)) v \<Longrightarrow>
      goes_well (snd (sdl2_create_texture w h p m f t hn s)) (fst (sdl2_create_texture w h p m f t hn s)) v"
proof -
  let ?v = "case t of None \<Rightarrow> v | Some x \<Rightarrow> v\<lparr>wl_textures := (wl_textures v)(x \<mapsto> sg_renderer s)\<rparr>"
  have f: "wl_surfaces v = {}" and r: "wl_renderers v = set_option (sg_renderer s)" using assms(1) by (simp_all add: win_ok_def)
  have ok: "set_option t \<inter> dom (wl_textures v) = {} \<Longrightarrow> win_ok (keep_texture hn t m s) ?v"
    using texture_made [OF assms] by simp
  show "goes_well (snd (sdl3_create_texture w h p m f t hn s)) (fst (sdl3_create_texture w h p m f t hn s)) v"
    if "answers_right (snd (sdl3_create_texture w h p m f t hn s)) v"
    using that f r unfolding sdl3_create_texture_def fst_conv snd_conv
    by (intro goes_wellI [OF ok]; cases t; cases f) (simp_all add: same_life_def)
  show "goes_well (snd (sdl2_create_texture w h p m f t hn s)) (fst (sdl2_create_texture w h p m f t hn s)) v"
    if "answers_right (snd (sdl2_create_texture w h p m f t hn s)) v"
    using that f r unfolding sdl2_create_texture_def fst_conv snd_conv
    by (intro goes_wellI [OF ok]; cases t; cases f) (simp_all add: same_life_def)
qed

lemma texture_gone:
  assumes "win_ok s v" "texture_of hn s = Some x"
  shows "win_ok (s\<lparr>sg_textures := (sg_textures s)(hn := None)\<rparr>) (v\<lparr>wl_textures := (wl_textures v)(x := None)\<rparr>)"
proof -
  have "tex_held s (Some hn) = Some x" using assms(2) by (simp add: tex_held_def)
  then have "holds_once ((tex_held s)(Some hn := None)) (dom (wl_textures v) - {x})"
    using holds_remove [of "tex_held s" "dom (wl_textures v)" "Some hn" x] assms(1) by (simp add: win_ok_def)
  then show ?thesis using assms(1) by (simp add: win_ok_def tex_held_update)
qed

lemma destroy_goes_well:
  assumes "win_ok s v" "hn \<in> dom (sg_textures s)"
  shows "goes_well (snd (sdl3_destroy_texture hn s)) (fst (sdl3_destroy_texture hn s)) v"
    "goes_well (snd (sdl2_destroy_texture hn s)) (fst (sdl2_destroy_texture hn s)) v"
proof -
  obtain x where x: "texture_of hn s = Some x" using assms(2) by (auto simp: texture_of_def)
  then have "x \<in> dom (wl_textures v)" using win_ok_textures(2) [OF assms(1), of hn] by simp
  then have "calls_safe [Destroy_texture (texture_of hn s)] v" by (simp add: x)
  then show "goes_well (snd (sdl3_destroy_texture hn s)) (fst (sdl3_destroy_texture hn s)) v"
    "goes_well (snd (sdl2_destroy_texture hn s)) (fst (sdl2_destroy_texture hn s)) v"
    unfolding sdl3_destroy_texture_def sdl2_destroy_texture_def x option.case fst_conv snd_conv
    by (intro goes_wellI [OF texture_gone [OF assms(1) x]]; simp add: x same_life_def)+
qed

lemma shader_texture_goes_well:
  assumes "win_ok s v" "sg_textures s hn = None" "answers_right (snd (sdl3_shader_texture w h t hn s)) v"
  shows "goes_well (snd (sdl3_shader_texture w h t hn s)) (fst (sdl3_shader_texture w h t hn s)) v"
proof (cases "sg_device s = None \<or> t = None")
  case True
  then show ?thesis using assms(1)
    by (cases "sg_device s = None") (auto simp: sdl3_shader_texture_def goes_well_def win_ok_def)
next
  case False
  then obtain x where x: "t = Some x" by blast
  have r: "wl_renderers v = set_option (sg_renderer s)" using assms(1) by (simp add: win_ok_def)
  have "set_option t \<inter> dom (wl_textures v) = {}" using assms(3) False by (auto simp: sdl3_shader_texture_def)
  note ok = texture_made [OF assms(1,2) this refl, of 0]
  have eq: "sdl3_shader_texture w h t hn s =
      (keep_texture hn t 0 s, [Create_target (sg_renderer s) Px_argb w h t, Texture_blend t Blend_premul, Texture_nearest t])"
    using False by (simp add: sdl3_shader_texture_def)
  show ?thesis using r x unfolding eq fst_conv snd_conv
    by (intro goes_wellI [OF ok]) (simp_all add: same_life_def)
qed

text \<open>The back buffer is made again.\<close>

lemma backbuffer_again:
  assumes "win_ok s v" "set_option t \<inter> (dom (wl_textures v) - set_option (sg_backbuffer s)) = {}"
    "u = call_does (Destroy_texture (sg_backbuffer s)) v"
  shows "win_ok (s\<lparr>sg_backbuffer := t\<rparr>) (case t of None \<Rightarrow> u | Some x \<Rightarrow> u\<lparr>wl_textures := (wl_textures u)(x \<mapsto> sg_renderer s)\<rparr>)"
proof -
  have b: "tex_held s None = sg_backbuffer s" by (simp add: tex_held_def)
  have d: "dom (wl_textures u) = dom (wl_textures v) - set_option (sg_backbuffer s)"
    using assms(3) by (cases "sg_backbuffer s") auto
  have "holds_once ((tex_held s)(None := None)) (dom (wl_textures v) - set_option (sg_backbuffer s))"
    using holds_drop [of "tex_held s" "dom (wl_textures v)" None] assms(1) by (simp add: win_ok_def b)
  from holds_put [OF this _ assms(2), of None]
  have h: "holds_once ((tex_held s)(None := t)) (dom (wl_textures u) \<union> set_option t)" by (simp add: d)
  have o: "\<forall>x r. wl_textures u x = Some r \<longrightarrow> r = sg_renderer s" and l: "wl_windows u = wl_windows v" "wl_devices u = wl_devices v"
    "wl_renderers u = wl_renderers v" "wl_surfaces u = wl_surfaces v"
    using assms(1,3) by (cases "sg_backbuffer s"; auto simp: win_ok_def)+
  show ?thesis using assms(1) h o l by (cases t) (simp_all add: win_ok_def tex_held_update Un_commute)
qed

lemma resize_goes_well:
  assumes "win_ok s v"
  shows "answers_right (snd (sdl3_resize w h t s)) v \<Longrightarrow> goes_well (snd (sdl3_resize w h t s)) (fst (sdl3_resize w h t s)) v"
    "answers_right (snd (sdl2_resize w h t s)) v \<Longrightarrow> goes_well (snd (sdl2_resize w h t s)) (fst (sdl2_resize w h t s)) v"
proof -
  let ?u = "call_does (Destroy_texture (sg_backbuffer s)) v"
  have d: "dom (wl_textures ?u) = dom (wl_textures v) - set_option (sg_backbuffer s)" "wl_renderers ?u = wl_renderers v"
    by (cases "sg_backbuffer s"; auto)+
  have r: "wl_renderers v = set_option (sg_renderer s)" using assms by (simp add: win_ok_def)
  note b = win_ok_textures(1) [OF assms] and ok = backbuffer_again [OF assms _ refl, of t]
  show "goes_well (snd (sdl3_resize w h t s)) (fst (sdl3_resize w h t s)) v" if "answers_right (snd (sdl3_resize w h t s)) v"
  proof -
    have "set_option t \<inter> (dom (wl_textures v) - set_option (sg_backbuffer s)) = {}"
      using that by (simp add: sdl3_resize_def sdl3_backbuffer_def d del: call_does.simps)
    note ok = ok [OF this]
    show ?thesis using b r d unfolding sdl3_resize_def sdl3_backbuffer_def fst_conv snd_conv
      by (intro goes_wellI [OF ok]; cases t) (simp_all add: same_life_def)
  qed
  show "goes_well (snd (sdl2_resize w h t s)) (fst (sdl2_resize w h t s)) v" if "answers_right (snd (sdl2_resize w h t s)) v"
  proof -
    have "set_option t \<inter> (dom (wl_textures v) - set_option (sg_backbuffer s)) = {}"
      using that by (simp add: sdl2_resize_def sdl2_backbuffer_def d del: call_does.simps)
    note ok = ok [OF this]
    show ?thesis using b r d unfolding sdl2_resize_def sdl2_backbuffer_def fst_conv snd_conv
      by (intro goes_wellI [OF ok]; cases t) (simp_all add: same_life_def)
  qed
qed

section \<open>The start and the end of a driver\<close>

definition closed_gui :: "sdl_gui \<Rightarrow> bool" where
  "closed_gui s \<longleftrightarrow> sg_window s = None \<and> sg_renderer s = None \<and> sg_backbuffer s = None \<and> sg_device s = None \<and> sg_textures s = Map.empty"

definition empty_world :: "sdl_world \<Rightarrow> bool" where
  "empty_world v \<longleftrightarrow> wl_windows v = {} \<and> wl_devices v = {} \<and> wl_renderers v = {} \<and> wl_surfaces v = {} \<and> wl_textures v = Map.empty"

lemma empty_world_alive: "empty_world v \<longleftrightarrow> alive v = {}"
  by (auto simp: empty_world_def alive_def)

lemma closed_world: "closed_gui s \<Longrightarrow> win_ok s v \<longleftrightarrow> empty_world v"
proof -
  assume c: "closed_gui s"
  then have "tex_held s = Map.empty" by (auto simp: closed_gui_def tex_held_def texture_of_def fun_eq_iff split: option.splits)
  then show ?thesis using c by (auto simp: win_ok_def empty_world_def closed_gui_def)
qed

lemma open_world:
  assumes "sg_textures s = Map.empty" "wl_windows u = set_option (sg_window s)" "wl_devices u = set_option (sg_device s)"
    "wl_renderers u = set_option (sg_renderer s)" "wl_surfaces u = {}"
    "wl_textures u = (case sg_backbuffer s of None \<Rightarrow> Map.empty | Some b \<Rightarrow> [b \<mapsto> sg_renderer s])"
  shows "win_ok s u"
proof -
  have "tex_held s = Map.empty(None := sg_backbuffer s)"
    using assms(1) by (auto simp: tex_held_def texture_of_def fun_eq_iff split: option.splits)
  moreover have "dom (wl_textures u) = {} \<union> set_option (sg_backbuffer s)" using assms(6) by (auto split: option.splits)
  ultimately have "holds_once (tex_held s) (dom (wl_textures u))"
    using holds_put [of Map.empty "{}" None "sg_backbuffer s"] by simp
  then show ?thesis using assms by (auto simp: win_ok_def split: option.splits if_splits)
qed

lemma renderer_life:
  assumes "sdl3_renderer st w h None = (win, ren, device, calls)" "wl_windows v = set_option (st_window st)" "wl_devices v = {}"
    "wl_renderers v = {}" "wl_surfaces v = {}" "wl_textures v = Map.empty"
  shows "calls_safe calls v \<and> wl_windows (calls_end calls v) = set_option win \<and> wl_devices (calls_end calls v) = set_option device \<and>
    wl_renderers (calls_end calls v) = set_option ren \<and> wl_surfaces (calls_end calls v) = {} \<and> wl_textures (calls_end calls v) = Map.empty"
  using assms by (auto simp: sdl3_renderer_def sdl3_create_device_def Let_def split: if_splits option.splits prod.splits)

lemma init_goes_well:
  assumes "win_ok s v" "closed_gui s"
  shows "goes_well (snd (sdl3_window_init st w h flags s)) (fst (sdl3_window_init st w h flags s)) v"
    "goes_well (snd (sdl2_window_init st w h flags s)) (fst (sdl2_window_init st w h flags s)) v"
proof -
  have e: "empty_world v" using assms closed_world by blast
  show "goes_well (snd (sdl3_window_init st w h flags s)) (fst (sdl3_window_init st w h flags s)) v"
  proof -
    obtain w' h' where wh: "sdl3_size st w h = (w', h')" by (cases "sdl3_size st w h")
    obtain win ren device calls where r: "sdl3_renderer st w' h' None = (win, ren, device, calls)"
      by (cases "sdl3_renderer st w' h' None")
    let ?v = "v\<lparr>wl_windows := wl_windows v \<union> set_option (st_window st)\<rparr>"
    let ?u = "calls_end calls ?v"
    have life: "calls_safe calls ?v \<and> wl_windows ?u = set_option win \<and> wl_devices ?u = set_option device \<and>
        wl_renderers ?u = set_option ren \<and> wl_surfaces ?u = {} \<and> wl_textures ?u = Map.empty"
      by (rule renderer_life [OF r]) (use e in \<open>simp_all add: empty_world_def\<close>)
    have c: "sg_renderer s = None" "sg_textures s = Map.empty" using assms(2) by (simp_all add: closed_gui_def)
    show ?thesis
      using life by (cases "st_back st") (auto simp: goes_well_def sdl3_window_init_def wh r c sdl3_backbuffer_def intro!: open_world)
  qed
  show "goes_well (snd (sdl2_window_init st w h flags s)) (fst (sdl2_window_init st w h flags s)) v"
    using e assms(2) by (cases "st_back st")
      (auto simp: goes_well_def sdl2_window_init_def sdl2_backbuffer_def empty_world_def closed_gui_def intro!: open_world)
qed

lemma deinit_goes_well:
  assumes "win_ok s v" "sg_textures s = Map.empty"
  shows "goes_well (snd (sdl3_window_deinit s)) (fst (sdl3_window_deinit s)) v"
    "sg_device s = None \<Longrightarrow> goes_well (snd (sdl2_window_deinit s)) (fst (sdl2_window_deinit s)) v"
proof -
  have "tex_held s = Map.empty(None := sg_backbuffer s)"
    using assms(2) by (auto simp: tex_held_def texture_of_def fun_eq_iff split: option.splits)
  moreover have "holds_once (Map.empty(None := sg_backbuffer s)) (set_option (sg_backbuffer s))"
    using holds_put [of Map.empty "{}" None "sg_backbuffer s"] by simp
  ultimately have d: "dom (wl_textures v) = set_option (sg_backbuffer s)"
    using assms(1) unfolding win_ok_def holds_once_def by metis
  have last: "((wl_textures v)(b := None)) = Map.empty" if "sg_backbuffer s = Some b" for b
    using d that by (auto simp: fun_eq_iff dom_def)
  have empty: "wl_textures v = Map.empty" if "sg_backbuffer s = None" using d that by simp
  have l: "wl_windows v = set_option (sg_window s)" "wl_devices v = set_option (sg_device s)" "wl_renderers v = set_option (sg_renderer s)"
    "wl_surfaces v = {}" using assms(1) by (simp_all add: win_ok_def)
  show "goes_well (snd (sdl3_window_deinit s)) (fst (sdl3_window_deinit s)) v"
    using l d assms(2) last empty
    by (cases "sg_backbuffer s"; cases "sg_renderer s"; cases "sg_device s"; cases "sg_window s")
      (auto simp: goes_well_def sdl3_window_deinit_def intro!: open_world)
  show "goes_well (snd (sdl2_window_deinit s)) (fst (sdl2_window_deinit s)) v" if "sg_device s = None"
    using l d assms(2) last empty that
    by (cases "sg_backbuffer s"; cases "sg_renderer s"; cases "sg_window s")
      (auto simp: goes_well_def sdl2_window_deinit_def intro!: open_world)
qed

section \<open>Reading leaves all as it was\<close>

text \<open>A target is alive, and a texture for a renderer that is alive.\<close>

definition target_ok :: "sdl_world \<Rightarrow> bool" where
  "target_ok v \<longleftrightarrow> (\<forall>r t. wl_target v r = Some t \<longrightarrow> t \<in> dom (wl_textures v))"

text \<open>A texture is read by way of a copy, the screen from the back buffer. Both change the target of the renderer,
  the first the blend mode and the color of the texture too.\<close>

lemma live_targets_same: "target_ok v \<Longrightarrow> live_targets (wl_textures v) (wl_target v) = wl_target v"
proof
  fix r assume t: "target_ok v"
  show "live_targets (wl_textures v) (wl_target v) r = wl_target v r"
  proof (cases "wl_target v r")
    case (Some x)
    then have "x \<in> dom (wl_textures v)" using t unfolding target_ok_def by blast
    then show ?thesis using Some by (auto simp: live_targets_def)
  qed (simp add: live_targets_def)
qed

lemma live_targets_ok: "live_targets m g r = Some t \<Longrightarrow> t \<in> dom m"
  by (auto simp: live_targets_def split: option.splits if_splits)

lemma read_texture_restores:
  assumes "win_ok s v" "target_ok v" "hn \<in> dom (sg_textures s)"
  shows "answers_right (snd (sdl3_read_texture hn w h rd s)) v \<Longrightarrow>
      calls_safe (snd (sdl3_read_texture hn w h rd s)) v \<and> calls_end (snd (sdl3_read_texture hn w h rd s)) v = v"
    "answers_right (snd (sdl2_read_texture hn w h rd s)) v \<Longrightarrow>
      calls_safe (snd (sdl2_read_texture hn w h rd s)) v \<and> calls_end (snd (sdl2_read_texture hn w h rd s)) v = v"
proof -
  obtain t where t: "texture_of hn s = Some t" using assms(3) by (auto simp: texture_of_def)
  then have td: "t \<in> dom (wl_textures v)" using win_ok_textures(2) [OF assms(1), of hn] by simp
  have r: "wl_renderers v = set_option (sg_renderer s)" "wl_surfaces v = {}" using assms(1) by (simp_all add: win_ok_def)
  have same: "wl_textures v c = None \<Longrightarrow> ((wl_textures v)(c := None)) = wl_textures v" for c by (auto simp: fun_eq_iff)
  note nt = live_targets_same [OF assms(2)]
  have v: "v\<lparr>wl_surfaces := {}\<rparr> = v" using r(2) by (cases v) simp
  obtain cr cg cb where col: "wl_color v (Some t) = (cr, cg, cb)" by (cases "wl_color v (Some t)")
  show "calls_safe (snd (sdl3_read_texture hn w h rd s)) v \<and> calls_end (snd (sdl3_read_texture hn w h rd s)) v = v"
    if "answers_right (snd (sdl3_read_texture hn w h rd s)) v"
    using that td r same nt v assms(2) col
    by (cases v; cases "sg_renderer s"; cases "rd_copy rd"; cases "rd_surface rd"; cases "rd_color rd")
      (auto simp: sdl3_read_texture_def Let_def t fun_upd_idem keep_alive_def target_ok_def fun_eq_iff)
  show "calls_safe (snd (sdl2_read_texture hn w h rd s)) v \<and> calls_end (snd (sdl2_read_texture hn w h rd s)) v = v"
    if "answers_right (snd (sdl2_read_texture hn w h rd s)) v"
    using that td r same nt assms(2) col
    by (cases v; cases "sg_renderer s"; cases "rd_copy rd"; cases "rd_color rd")
      (auto simp: sdl2_read_texture_def Let_def t fun_upd_idem keep_alive_def target_ok_def fun_eq_iff)
qed

lemma read_screen_restores:
  assumes "win_ok s v" "target_ok v"
  shows "answers_right (snd (sdl3_read_screen a x y w h st rd m s)) v \<Longrightarrow>
      calls_safe (snd (sdl3_read_screen a x y w h st rd m s)) v \<and> calls_end (snd (sdl3_read_screen a x y w h st rd m s)) v = v"
    "answers_right (snd (sdl2_read_screen a x y w h st rd m s)) v \<Longrightarrow>
      calls_safe (snd (sdl2_read_screen a x y w h st rd m s)) v \<and> calls_end (snd (sdl2_read_screen a x y w h st rd m s)) v = v"
proof -
  have r: "wl_renderers v = set_option (sg_renderer s)" "wl_surfaces v = {}" using assms by (simp_all add: win_ok_def)
  note b = win_ok_textures(1) [OF assms(1)]
  have v: "v\<lparr>wl_surfaces := {}\<rparr> = v" using r(2) by (cases v) simp
  show "calls_safe (snd (sdl3_read_screen a x y w h st rd m s)) v \<and> calls_end (snd (sdl3_read_screen a x y w h st rd m s)) v = v"
    if "answers_right (snd (sdl3_read_screen a x y w h st rd m s)) v"
    using that r b v assms(2)
    by (cases v; cases "sg_renderer s"; cases "sg_backbuffer s"; cases "rd_surface rd")
      (auto simp: sdl3_read_screen_def Let_def fun_upd_idem target_ok_def)
  show "calls_safe (snd (sdl2_read_screen a x y w h st rd m s)) v \<and> calls_end (snd (sdl2_read_screen a x y w h st rd m s)) v = v"
    if "answers_right (snd (sdl2_read_screen a x y w h st rd m s)) v"
    using that r b assms(2)
    by (cases v; cases "sg_renderer s"; cases "sg_backbuffer s") (auto simp: sdl2_read_screen_def Let_def fun_upd_idem target_ok_def)
qed

section \<open>Any operations in any order\<close>

text \<open>A window that is not there is opened, one that is there is closed when the GUI has no texture left, memory
  is got that is free, and a handle is one that the driver gave.\<close>

fun op_allowed :: "win_op \<Rightarrow> sdl_gui \<Rightarrow> bool" where
  "op_allowed (W_init st w h flags) s \<longleftrightarrow> closed_gui s"
| "op_allowed W_deinit s \<longleftrightarrow> sg_textures s = Map.empty"
| "op_allowed (W_create_texture w h pitch mode surface t hn) s \<longleftrightarrow> sg_textures s hn = None"
| "op_allowed (W_shader_texture w h t hn) s \<longleftrightarrow> sg_textures s hn = None"
| "op_allowed (W_destroy_texture hn) s \<longleftrightarrow> hn \<in> dom (sg_textures s)"
| "op_allowed (W_texture_color hn r g b) s \<longleftrightarrow> hn \<in> dom (sg_textures s)"
| "op_allowed (W_blit hn sr dr) s \<longleftrightarrow> hn \<in> dom (sg_textures s)"
| "op_allowed (W_read_texture hn w h rd) s \<longleftrightarrow> hn \<in> dom (sg_textures s)"
| "op_allowed _ s \<longleftrightarrow> True"

text \<open>What a driver promises of each operation, and with that of any run of them.\<close>

fun win_run :: "('op \<Rightarrow> 's \<Rightarrow> 's \<times> sdl_call list) \<Rightarrow> 'op list \<Rightarrow> 's \<Rightarrow> 's \<times> sdl_call list" where
  "win_run step [] s = (s, [])"
| "win_run step (a # as) s = (case step a s of (s, cs) \<Rightarrow> (case win_run step as s of (s, ds) \<Rightarrow> (s, cs @ ds)))"

fun run_allowed :: "('op \<Rightarrow> 's \<Rightarrow> 's \<times> sdl_call list) \<Rightarrow> ('op \<Rightarrow> 's \<Rightarrow> bool) \<Rightarrow> 'op list \<Rightarrow> 's \<Rightarrow> bool" where
  "run_allowed step allowed [] s \<longleftrightarrow> True"
| "run_allowed step allowed (a # as) s \<longleftrightarrow> allowed a s \<and> run_allowed step allowed as (fst (step a s))"

locale window_driver =
  fixes step :: "'op \<Rightarrow> 's \<Rightarrow> 's \<times> sdl_call list"
    and allowed :: "'op \<Rightarrow> 's \<Rightarrow> bool"
    and keeps :: "'s \<Rightarrow> sdl_world \<Rightarrow> bool"
  assumes step_safe: "keeps s v \<Longrightarrow> allowed a s \<Longrightarrow> answers_right (snd (step a s)) v \<Longrightarrow>
      calls_safe (snd (step a s)) v \<and> keeps (fst (step a s)) (calls_end (snd (step a s)) v)"
begin

lemma run_safe:
  assumes "keeps s v" "run_allowed step allowed as s" "answers_right (snd (win_run step as s)) v"
  shows "calls_safe (snd (win_run step as s)) v \<and> keeps (fst (win_run step as s)) (calls_end (snd (win_run step as s)) v)"
  using assms
proof (induction as arbitrary: s v)
  case (Cons a as)
  let ?s = "fst (step a s)" and ?cs = "snd (step a s)"
  have run: "win_run step (a # as) s = (fst (win_run step as ?s), ?cs @ snd (win_run step as ?s))"
    by (simp split: prod.splits)
  have "calls_safe ?cs v" "keeps ?s (calls_end ?cs v)" using step_safe [of s v a] Cons.prems unfolding run by auto
  then show ?case using Cons.IH [of ?s "calls_end ?cs v"] Cons.prems unfolding run by simp
qed simp

end

text \<open>A target stays one that is alive, whatever call is made.\<close>

lemma keep_alive_ok: "target_ok (keep_alive m v)"
  unfolding target_ok_def keep_alive_simps by (intro allI impI) (rule live_targets_ok)

lemma call_target_ok: "target_ok v \<Longrightarrow> call_uses c \<subseteq> alive v \<Longrightarrow> target_ok (call_does c v)"
proof (cases c)
  case (Destroy_texture t)
  then show "target_ok v \<Longrightarrow> target_ok (call_does c v)" by (cases t) (simp_all add: keep_alive_ok)
next
  case (Destroy_renderer r)
  then show "target_ok (call_does c v)" by (simp add: keep_alive_ok)
qed (auto simp: target_ok_def split: option.splits)

lemma calls_target_ok: "target_ok v \<Longrightarrow> calls_safe cs v \<Longrightarrow> target_ok (calls_end cs v)"
  by (induction cs arbitrary: v) (auto intro: call_target_ok)

text \<open>The operations that only draw.\<close>

lemma drawing_goes_well:
  assumes "win_ok s v"
  shows "goes_well (sdl3_begin_composite s) s v" "goes_well (sdl3_end_composite s) s v" "goes_well (sdl3_window_flush s) s v"
    "goes_well (sdl3_box p s) s v" "goes_well (sdl3_filled_box p s) s v" "goes_well (sdl3_set_color r g b a s) s v"
    "goes_well (sdl3_set_texture_color hn r g b s) s v" "goes_well (sdl3_blit hn p q s) s v" "goes_well (sdl3_set_clip p s) s v"
    "goes_well (sdl2_begin_composite s) s v" "goes_well (sdl2_end_composite s) s v" "goes_well (sdl2_window_flush s) s v"
    "goes_well (sdl2_box p s) s v" "goes_well (sdl2_filled_box p s) s v" "goes_well (sdl2_set_color r g b a s) s v"
    "goes_well (sdl2_set_texture_color hn r g b s) s v" "goes_well (sdl2_blit hn p q s) s v" "goes_well (sdl2_set_clip p s) s v"
proof -
  have r: "wl_renderers v = set_option (sg_renderer s)" using assms by (simp add: win_ok_def)
  have c: "sg_textures s hn = Some (t, m) \<Longrightarrow> t \<in> dom (wl_textures v)" for t m
    using win_ok_textures(2) [OF assms, of hn] by (simp add: texture_of_def)
  note b = win_ok_textures(1) [OF assms] win_ok_textures(2) [OF assms, of hn]
  show "goes_well (sdl3_begin_composite s) s v" "goes_well (sdl3_end_composite s) s v" "goes_well (sdl3_window_flush s) s v"
    "goes_well (sdl3_box p s) s v" "goes_well (sdl3_filled_box p s) s v" "goes_well (sdl3_set_color r g b a s) s v"
    "goes_well (sdl3_set_texture_color hn r g b s) s v" "goes_well (sdl3_blit hn p q s) s v" "goes_well (sdl3_set_clip p s) s v"
    using r b c
    by (auto intro!: goes_mild [OF assms] split: option.splits simp: sdl3_begin_composite_def sdl3_end_composite_def sdl3_window_flush_def
        sdl3_box_def sdl3_filled_box_def sdl3_set_color_def sdl3_set_texture_color_def sdl3_blit_def sdl3_set_clip_def)
  show "goes_well (sdl2_begin_composite s) s v" "goes_well (sdl2_end_composite s) s v" "goes_well (sdl2_window_flush s) s v"
    "goes_well (sdl2_box p s) s v" "goes_well (sdl2_filled_box p s) s v" "goes_well (sdl2_set_color r g b a s) s v"
    "goes_well (sdl2_set_texture_color hn r g b s) s v" "goes_well (sdl2_blit hn p q s) s v" "goes_well (sdl2_set_clip p s) s v"
    using r b c
    by (auto intro!: goes_mild [OF assms] split: option.splits simp: sdl2_begin_composite_def sdl2_end_composite_def sdl2_window_flush_def
        sdl2_box_def sdl2_filled_box_def sdl2_set_color_def sdl2_set_texture_color_def sdl2_blit_def sdl2_set_clip_def)
qed

lemma sdl3_op_goes_well:
  assumes "win_ok s v" "target_ok v" "op_allowed a s" "answers_right (snd (sdl3_op a s)) v"
  shows "goes_well (snd (sdl3_op a s)) (fst (sdl3_op a s)) v"
proof (cases a)
  case (W_read_texture hn w h rd)
  then show ?thesis using read_texture_restores(1) [of s v hn w h rd] assms by (simp add: goes_well_def)
next
  case (W_read_screen data x y w h stride rd m)
  then show ?thesis using read_screen_restores(1) [of s v data x y w h stride rd m] assms by (simp add: goes_well_def)
qed (use assms in \<open>simp_all add: drawing_goes_well create_goes_well shader_texture_goes_well destroy_goes_well resize_goes_well
    init_goes_well deinit_goes_well\<close>)

lemma sdl2_op_goes_well:
  assumes "win_ok s v" "target_ok v" "sg_device s = None" "op_allowed a s" "answers_right (snd (sdl2_op a s)) v"
  shows "goes_well (snd (sdl2_op a s)) (fst (sdl2_op a s)) v"
proof (cases a)
  case (W_read_texture hn w h rd)
  then show ?thesis using read_texture_restores(2) [of s v hn w h rd] assms by (simp add: goes_well_def)
next
  case (W_read_screen data x y w h stride rd m)
  then show ?thesis using read_screen_restores(2) [of s v data x y w h stride rd m] assms by (simp add: goes_well_def)
next
  case (W_shader_texture w h t hn)
  then show ?thesis using assms by (simp add: goes_well_def)
qed (use assms in \<open>simp_all add: drawing_goes_well create_goes_well destroy_goes_well resize_goes_well
    init_goes_well deinit_goes_well\<close>)

lemma sdl2_no_device: "sg_device s = None \<Longrightarrow> sg_device (fst (sdl2_op a s)) = None"
  by (cases a) (simp_all add: sdl2_window_init_def sdl2_window_deinit_def sdl2_create_texture_def keep_texture_def
      sdl2_destroy_texture_def sdl2_resize_def split: option.splits)

interpretation sdl3w: window_driver sdl3_op op_allowed "\<lambda>s v. win_ok s v \<and> target_ok v"
  by unfold_locales (use sdl3_op_goes_well calls_target_ok in \<open>auto simp: goes_well_def\<close>)

interpretation sdl2w: window_driver sdl2_op op_allowed "\<lambda>s v. win_ok s v \<and> target_ok v \<and> sg_device s = None"
  by unfold_locales (use sdl2_op_goes_well calls_target_ok sdl2_no_device in \<open>auto simp: goes_well_def\<close>)

section \<open>The properties\<close>

definition gui_holds :: "sdl_gui \<Rightarrow> sdl_thing set" where
  "gui_holds s = A_window ` set_option (sg_window s) \<union> A_device ` set_option (sg_device s) \<union> A_renderer ` set_option (sg_renderer s) \<union>
     A_texture ` (set_option (sg_backbuffer s) \<union> fst ` ran (sg_textures s))"

lemma win_ok_alive:
  assumes "win_ok s v"
  shows "alive v = gui_holds s"
proof -
  have "dom (wl_textures v) = ran (tex_held s)" using assms by (simp add: win_ok_def holds_once_def)
  also have "\<dots> = set_option (sg_backbuffer s) \<union> fst ` ran (sg_textures s)"
  proof (intro set_eqI iffI)
    fix t assume "t \<in> ran (tex_held s)"
    then obtain k where "tex_held s k = Some t" by (auto simp: ran_def)
    then show "t \<in> set_option (sg_backbuffer s) \<union> fst ` ran (sg_textures s)"
      by (cases k) (auto simp: tex_held_def texture_of_def intro!: ranI image_eqI)
  next
    fix t assume "t \<in> set_option (sg_backbuffer s) \<union> fst ` ran (sg_textures s)"
    then have "tex_held s None = Some t \<or> (\<exists>h. tex_held s (Some h) = Some t)"
      by (auto simp: tex_held_def texture_of_def ran_def)
    then show "t \<in> ran (tex_held s)" by (auto intro: ranI)
  qed
  finally show ?thesis using assms by (simp add: alive_def gui_holds_def win_ok_def)
qed

text \<open>SDL before anything is made.\<close>

definition sdl_fresh :: "sdl_world \<Rightarrow> bool" where
  "sdl_fresh v \<longleftrightarrow> alive v = {} \<and> wl_target v = Map.empty"

lemma fresh_ok: "sdl_fresh v \<Longrightarrow> win_ok sdl_gui0 v \<and> target_ok v"
  using closed_world [of sdl_gui0 v] by (simp add: sdl_fresh_def empty_world_alive closed_gui_def sdl_gui0_def target_ok_def)

lemma driver_run:
  assumes "step = sdl3_op \<or> step = sdl2_op" "sdl_fresh v" "run_allowed step op_allowed as sdl_gui0"
    "win_run step as sdl_gui0 = (s, cs)" "answers_right cs v"
  shows "calls_safe cs v \<and> win_ok s (calls_end cs v) \<and> target_ok (calls_end cs v)"
  using assms(1)
proof
  assume "step = sdl3_op"
  then show ?thesis using sdl3w.run_safe [of sdl_gui0 v as] fresh_ok [OF assms(2)] assms(3-5) by auto
next
  assume st: "step = sdl2_op"
  have "sg_device sdl_gui0 = None" by (simp add: sdl_gui0_def)
  then show ?thesis using sdl2w.run_safe [of sdl_gui0 v as] fresh_ok [OF assms(2)] assms(3-5) st by auto
qed

text \<open>A window on SDL3 with a texture drawn, to apply the properties to.\<close>

definition one_start :: sdl_start where
  "one_start = \<lparr>st_gpu = True, st_trackpad = True, st_debug = False, st_bare = False, st_mode = None, st_fullscreen = False,
    st_window = Some 1, st_device = Some 2, st_gpu_renderer = Some 3, st_window2 = None, st_renderer = None, st_back = Some 5\<rparr>"

definition world0 :: sdl_world where
  "world0 = \<lparr>wl_windows = {}, wl_devices = {}, wl_renderers = {}, wl_surfaces = {}, wl_textures = Map.empty,
    wl_target = Map.empty, wl_blend = \<lambda>t. Blend_none, wl_color = \<lambda>t. (0, 0, 0)\<rparr>"

definition one_run :: "win_op list" where
  "one_run = [W_init one_start 640 480 1, W_create_texture 8 8 32 1 (Some 4) (Some 9) 100, W_blit 100 (0, 0, 8, 8) (5, 5, 8, 8)]"

definition one_read :: sdl_read where
  "one_read = \<lparr>rd_copy = Some 6, rd_blend = Blend_premul, rd_color = (0, 0, 0), rd_target = None, rd_surface = Some 7, rd_sized = True, rd_ok = True\<rparr>"

lemmas one_defs = one_start_def one_run_def sdl_gui0_def sdl3_window_init_def sdl3_size_def sdl3_renderer_def sdl3_create_device_def
  sdl3_backbuffer_def sdl3_create_texture_def keep_texture_def sdl3_blit_def texture_of_def

lemma one_run_goes:
  "sdl_fresh world0" "run_allowed sdl3_op op_allowed one_run sdl_gui0" "answers_right (snd (win_run sdl3_op one_run sdl_gui0)) world0"
  by (simp_all add: sdl_fresh_def alive_def closed_gui_def one_defs world0_def)

lemma one_run_holds:
  "sg_textures (fst (win_run sdl3_op one_run sdl_gui0)) = [100 \<mapsto> (9, 1)]" "sg_renderer (fst (win_run sdl3_op one_run sdl_gui0)) = Some 3"
  "gui_holds (fst (win_run sdl3_op one_run sdl_gui0)) = {A_window 1, A_device 2, A_renderer 3, A_texture 5, A_texture 9}"
  by (auto simp: one_defs gui_holds_def)



text \<open>C36: To read a texture or the screen leaves SDL as it was: the target of the renderer, the blend mode and color of the texture, and all that is alive.\<close>

theorem reading_restores:
  assumes "step = sdl3_op \<or> step = sdl2_op" "sdl_fresh v" "run_allowed step op_allowed as sdl_gui0"
    "win_run step as sdl_gui0 = (s, cs)" "answers_right cs v"
    "a = W_read_texture hn w h rd \<and> hn \<in> dom (sg_textures s) \<or> a = W_read_screen data x y w' h' stride rd m"
    "answers_right (snd (step a s)) (calls_end cs v)"
  shows "calls_safe (snd (step a s)) (calls_end cs v) \<and> calls_end (snd (step a s)) (calls_end cs v) = calls_end cs v"
proof -
  have "win_ok s (calls_end cs v)" "target_ok (calls_end cs v)" using driver_run [OF assms(1-5)] by simp_all
  from read_texture_restores [OF this, of hn w h rd] read_screen_restores [OF this, of data x y w' h' stride rd m] show ?thesis
    using assms(1,6,7) by (elim disjE conjE) simp_all
qed

lemma reading_restores_witness:
  "calls_end (snd (sdl3_op (W_read_texture 100 8 8 one_read) (fst (win_run sdl3_op one_run sdl_gui0))))
     (calls_end (snd (win_run sdl3_op one_run sdl_gui0)) world0) = calls_end (snd (win_run sdl3_op one_run sdl_gui0)) world0"
proof -
  have h: "100 \<in> dom (sg_textures (fst (win_run sdl3_op one_run sdl_gui0)))" by (simp add: one_run_holds)
  have r: "answers_right (snd (sdl3_op (W_read_texture 100 8 8 one_read) (fst (win_run sdl3_op one_run sdl_gui0))))
    (calls_end (snd (win_run sdl3_op one_run sdl_gui0)) world0)"
    by (simp add: one_defs one_read_def world0_def sdl3_read_texture_def Let_def)
  show ?thesis
    using reading_restores [OF disjI1 [OF refl] one_run_goes(1,2) prod.collapse [symmetric] one_run_goes(3) disjI1 [OF conjI [OF refl h]] r]
    by simp
qed

text \<open>To close the window ends the textures of its renderer.\<close>

lemma deinit_ends_textures:
  assumes "sg_renderer s = Some r" "wl_textures v t = Some (Some r)"
  shows "t \<notin> dom (wl_textures (calls_end (snd (sdl3_window_deinit s)) v))"
    "t \<notin> dom (wl_textures (calls_end (snd (sdl2_window_deinit s)) v))"
  using assms by (cases "sg_backbuffer s"; cases "sg_device s"; cases "sg_window s";
      simp add: sdl3_window_deinit_def sdl2_window_deinit_def domIff)+

lemma deinit_keeps_handles:
  "texture_of hn (fst (sdl3_window_deinit s)) = texture_of hn s" "texture_of hn (fst (sdl2_window_deinit s)) = texture_of hn s"
  by (simp_all add: sdl3_window_deinit_def sdl2_window_deinit_def texture_of_def)

text \<open>A texture that is still there when the window closes is not alive any more, for its renderer has gone: to destroy it then is to give SDL what is not alive.\<close>

theorem texture_outlives_renderer:
  assumes "win_ok s v" "sg_renderer s = Some r" "hn \<in> dom (sg_textures s)"
  shows "\<not> calls_safe (snd (win_run sdl3_op [W_deinit, W_destroy_texture hn] s)) v \<and>
    \<not> calls_safe (snd (win_run sdl2_op [W_deinit, W_destroy_texture hn] s)) v"
proof -
  obtain t where t: "texture_of hn s = Some t" using assms(3) by (auto simp: texture_of_def)
  then have "wl_textures v t = Some (Some r)"
    using win_ok_textures(2) [OF assms(1), of hn] assms(1,2) by (fastforce simp: win_ok_def)
  note gone = deinit_ends_textures [OF assms(2) this]
  show ?thesis using gone
    by (simp add: sdl3_destroy_texture_def sdl2_destroy_texture_def deinit_keeps_handles t case_prod_unfold)
qed

lemma texture_outlives_renderer_witness:
  "\<not> calls_safe (snd (win_run sdl3_op [W_deinit, W_destroy_texture 100] (fst (win_run sdl3_op one_run sdl_gui0))))
     (calls_end (snd (win_run sdl3_op one_run sdl_gui0)) world0)"
proof -
  have w: "win_ok (fst (win_run sdl3_op one_run sdl_gui0)) (calls_end (snd (win_run sdl3_op one_run sdl_gui0)) world0)"
    using driver_run [OF disjI1 [OF refl] one_run_goes(1,2) prod.collapse [symmetric] one_run_goes(3)] by blast
  have h: "100 \<in> dom (sg_textures (fst (win_run sdl3_op one_run sdl_gui0)))" by (simp add: one_run_holds)
  show ?thesis using texture_outlives_renderer [OF w one_run_holds(2) h] by blast
qed

section \<open>The screen is read opaque\<close>

text \<open>\<open>row[i] |= 0xff000000\<close> changes the last of the four bytes of a pixel and nothing else.\<close>

lemma or_top:
  fixes n :: nat
  assumes "n < 2 ^ 32"
  shows "n OR 0xff000000 = 255 * 2 ^ 24 + n mod 2 ^ 24"
proof -
  have "take_bit 24 (n OR 0xff000000) = n mod 2 ^ 24"
    by (simp add: take_bit_or) (simp add: take_bit_eq_mod)
  moreover have "drop_bit 24 (n OR 0xff000000) = 255"
  proof -
    have d: "drop_bit 24 n = take_bit 8 (drop_bit 24 n)" using assms by (simp add: drop_bit_eq_div take_bit_eq_mod)
    have "drop_bit 24 n OR 255 = (255 :: nat)"
    proof -
      have "take_bit 8 (drop_bit 24 n) OR mask 8 = (mask 8 :: nat)" by (rule bit_eqI) (auto simp: bit_simps)
      then show ?thesis by (simp add: d [symmetric] mask_eq_exp_minus_1)
    qed
    moreover have "drop_bit 24 (0xff000000 :: nat) = 255" by simp
    ultimately show ?thesis by (simp only: drop_bit_or)
  qed
  moreover have "n OR 0xff000000 = push_bit 24 (drop_bit 24 (n OR 0xff000000)) + take_bit 24 (n OR 0xff000000)"
    by (simp only: bits_ident)
  ultimately show ?thesis by (simp add: push_bit_eq_mult)
qed

lemma opaque_pixel:
  assumes "mread U32 m a = Some x"
  shows "mwrite U32 m a (x OR 0xff000000) = Some (m(a + 3 \<mapsto> 255))"
proof -
  obtain n where n: "load_le m a 4 = Some n" "x = ucast (word_of_nat n :: 32 word)" using assms by (auto simp: mread_def)
  have n32: "n < 2 ^ 32" using load_le_bound [OF n(1)] by simp
  have ux: "unat x = n" using n32 by (simp add: n(2) unsigned_ucast_eq unat_of_nat take_bit_nat_eq_self)
  have ua: "unat (x OR 0xff000000) = 255 * 2 ^ 24 + n mod 2 ^ 24"
    using or_top [OF n32] by (simp add: unsigned_or_eq ux)
  obtain b0 b1 b2 b3 where b: "m a = Some b0" "m (a + 1) = Some b1" "m (a + 2) = Some b2" "m (a + 3) = Some b3"
    "n = unat b0 + 256 * (unat b1 + 256 * (unat b2 + 256 * unat b3))"
  proof -
    have f: "4 = Suc (Suc (Suc (Suc 0)))" by simp
    have a: "a + 1 + 1 = a + 2" "a + 2 + 1 = a + 3" by simp_all
    show thesis
      using n(1) [unfolded f load_le.simps a] that
      by (cases "m a"; cases "m (a + 1)"; cases "m (a + 2)"; cases "m (a + 3)") auto
  qed
  have l: "unat b < 256" for b :: u8 using unsigned_less [where ?'a = nat, of b] by simp
  define v where "v = unat b0 + 256 * (unat b1 + 256 * (unat b2 + 256 * 255))"
  have "n mod 2 ^ 24 = unat b0 + 256 * (unat b1 + 256 * unat b2)"
  proof -
    have "n = (unat b0 + 256 * (unat b1 + 256 * unat b2)) + unat b3 * 2 ^ 24" by (simp add: b(5))
    moreover have "unat b0 + 256 * (unat b1 + 256 * unat b2) < 2 ^ 24" using l [of b0] l [of b1] l [of b2] by simp
    ultimately show ?thesis by simp
  qed
  then have uv: "unat (x OR 0xff000000) = v" by (simp add: ua v_def)
  have step: "(b + 256 * k) mod 256 = b" "(b + 256 * k) div 256 = k" if "b < 256" for b k :: nat
    using that by simp_all
  have v: "v mod 256 = unat b0" "v div 256 mod 256 = unat b1" "v div 256 div 256 mod 256 = unat b2" "v div 256 div 256 div 256 mod 256 = 255"
    by (simp_all only: v_def step l) simp
  have "v < 256 ^ 4" using l [of b0] l [of b1] l [of b2] by (simp add: v_def)
  then have v4: "v mod 256 ^ 4 = v" by simp
  have f: "4 = Suc (Suc (Suc (Suc 0)))" by simp
  have a: "a + 1 + 1 = a + 2" "a + 2 + 1 = a + 3" by simp_all
  have "store_le m a 4 v = Some (m(a \<mapsto> b0, a + 1 \<mapsto> b1, a + 2 \<mapsto> b2, a + 3 \<mapsto> 255))"
    unfolding f store_le.simps a v by (simp add: b)
  also have "m(a \<mapsto> b0, a + 1 \<mapsto> b1, a + 2 \<mapsto> b2, a + 3 \<mapsto> 255) = m(a + 3 \<mapsto> 255)"
    using b by (simp add: fun_upd_idem)
  finally show ?thesis using v4 by (simp add: mwrite_def uv fun_upd_def)
qed


lemma mread_U32_mapped: "mread U32 m a \<noteq> None \<longleftrightarrow> cells a 4 \<subseteq> dom m"
  using load_le_None [of m a 4] by (auto simp: mread_def)

text \<open>The last byte of each of \<open>n\<close> pixels.\<close>

definition alphas :: "nat \<Rightarrow> u64 \<Rightarrow> u64 set" where
  "alphas n a = (\<lambda>i. a + word_of_nat (4 * i + 3)) ` {..<n}"

lemma alphas_simps [simp]: "alphas 0 a = {}" "alphas (Suc n) a = insert (a + 3) (alphas n (a + 4))"
  by (auto simp: alphas_def lessThan_Suc_eq_insert_0 image_iff algebra_simps)

definition put_alphas :: "u64 set \<Rightarrow> vmem \<Rightarrow> vmem" where
  "put_alphas S m = (\<lambda>b. if b \<in> S then Some 255 else m b)"

lemma opaque_row_run:
  "cells a (4 * n) \<subseteq> dom m \<Longrightarrow> opaque_row n a m = Some (put_alphas (alphas n a) m)"
proof (induction n arbitrary: a m)
  case (Suc n)
  have c: "cells a (4 * Suc n) = cells a 4 \<union> cells (a + 4) (4 * n)"
    by (auto simp: numeral_eq_Suc algebra_simps)
  obtain x where x: "mread U32 m a = Some x" using Suc.prems c mread_U32_mapped [of m a] by auto
  have "a + 3 \<in> cells a 4" by (auto simp: cells_def intro!: image_eqI [of _ _ 3])
  then have d: "dom (m(a + 3 \<mapsto> 255)) = dom m" using Suc.prems c by auto
  have "cells (a + 4) (4 * n) \<subseteq> dom (m(a + 3 \<mapsto> 255))" unfolding d using Suc.prems c by auto
  from Suc.IH [OF this]
  have "opaque_row n (a + 4) (m(a + 3 \<mapsto> 255)) = Some (put_alphas (alphas n (a + 4)) (m(a + 3 \<mapsto> 255)))" .
  moreover have "put_alphas (alphas n (a + 4)) (m(a + 3 \<mapsto> 255)) = put_alphas (alphas (Suc n) a) m"
    by (auto simp: put_alphas_def)
  ultimately show ?case by (simp add: x opaque_pixel [OF x])
qed (simp add: put_alphas_def)

lemma put_alphas_dom: "S \<subseteq> dom m \<Longrightarrow> dom (put_alphas S m) = dom m"
  by (auto simp: put_alphas_def split: if_splits)

lemma alphas_cells: "alphas n a \<subseteq> cells a (4 * n)"
proof
  fix x assume "x \<in> alphas n a"
  then obtain i where "i < n" "x = a + word_of_nat (4 * i + 3)" by (auto simp: alphas_def)
  then show "x \<in> cells a (4 * n)" unfolding cells_def by (intro image_eqI [of _ _ "4 * i + 3"]) simp_all
qed

lemma opaque_rows_run:
  "(\<forall>j < h. cells (a + word_of_nat j * stride) (4 * w) \<subseteq> dom m) \<Longrightarrow>
     opaque_rows h w a stride m = Some (put_alphas (\<Union>j < h. alphas w (a + word_of_nat j * stride)) m)"
proof (induction h arbitrary: a m)
  case (Suc h)
  have first: "cells a (4 * w) \<subseteq> dom m" using Suc.prems [rule_format, of 0] by simp
  let ?m = "put_alphas (alphas w a) m"
  have d: "dom ?m = dom m" using first alphas_cells by (intro put_alphas_dom) blast
  have "\<forall>j < h. cells (a + stride + word_of_nat j * stride) (4 * w) \<subseteq> dom ?m"
  proof (intro allI impI)
    fix j assume "j < h"
    then show "cells (a + stride + word_of_nat j * stride) (4 * w) \<subseteq> dom ?m"
      using Suc.prems [rule_format, of "Suc j"] unfolding d by (simp add: algebra_simps)
  qed
  from Suc.IH [OF this] have "opaque_rows (Suc h) w a stride m
      = Some (put_alphas (\<Union>j < h. alphas w (a + stride + word_of_nat j * stride)) ?m)"
    by (simp add: opaque_row_run [OF first])
  moreover have "(\<Union>j < Suc h. alphas w (a + word_of_nat j * stride)) =
      alphas w a \<union> (\<Union>j < h. alphas w (a + stride + word_of_nat j * stride))"
    by (auto simp: lessThan_Suc_eq_insert_0 algebra_simps)
  ultimately show ?case by (auto simp: put_alphas_def)
qed (simp add: put_alphas_def)

text \<open>When the screen was read the last byte of each of its pixels is 255 and no other byte has changed since SDL wrote them; both
  drivers stay in the buffer.\<close>

theorem screen_comes_opaque:
  assumes "\<forall>j < unat h. cells (data + word_of_nat j * stride) (4 * unat w) \<subseteq> dom m" "sg_renderer s \<noteq> None" "sg_backbuffer s \<noteq> None"
    "rd_ok rd" "rd_surface rd \<noteq> None" "rd_sized rd"
  shows "fst (sdl3_read_screen data x y w h stride rd m s) =
      Some (1, put_alphas (\<Union>j < unat h. alphas (unat w) (data + word_of_nat j * stride)) m) \<and>
    fst (sdl2_read_screen data x y w h stride rd m s) =
      Some (1, put_alphas (\<Union>j < unat h. alphas (unat w) (data + word_of_nat j * stride)) m)"
  using assms(2-6) by (simp add: sdl3_read_screen_def sdl2_read_screen_def Let_def opaque_rows_run [OF assms(1)])

end
