(* ===== verification/Walk_Windows.thy ===== *)
theory Walk_Windows
  imports Walk
begin

text \<open>
  \<^verbatim>\<open>walk_directory\<close> of \<^verbatim>\<open>src/src/host/pii_windows.cpp\<close> and what is removed with it. It differs from that for
  Linux in what it asks and in which order: a directory is visited before it is opened, and the entry
  that is found as it is opened is passed over, for that is the directory itself.
\<close>

section \<open>The walk on Windows\<close>

definition bslash :: char where "bslash = CHR 0x5C"

definition all_files :: string where "all_files = bslash # ''*.*''"

definition child :: "string \<Rightarrow> string \<Rightarrow> string" where "child d name = d @ bslash # name"

text \<open>\<open>FindFirstFileA\<close> gives the entry it found and those \<open>FindNextFileA\<close> will give, or fails.\<close>

record find_env =
  find_first :: "string \<Rightarrow> ((string \<times> bool) \<times> (string \<times> bool) list) option"
  visit_file :: "string \<Rightarrow> int"
  visit_folder :: "string \<Rightarrow> int \<Rightarrow> int"

function win_walk_loop :: "find_env \<Rightarrow> nat \<Rightarrow> string \<Rightarrow> walk_state list \<Rightarrow> int \<times> call list" where
  "win_walk_loop env max_len path [] = (0, [])"
| "win_walk_loop env max_len path (s # below) =
     (case ws_rest s of
        [] \<Rightarrow>
          (let path = take (path_len s) path;
               res = visit_folder env path FOLDER_POST;
               cs = [Closed (ws_dir s), Folder_visit path FOLDER_POST] in
           if res \<noteq> 0 \<and> below \<noteq> [] then (- 1, cs @ close_all below)
           else then_calls cs (win_walk_loop env max_len path below))
      | (name, is_dir) # rest \<Rightarrow>
          (let s' = s\<lparr>ws_rest := rest\<rparr> in
           if name = ''.'' \<or> name = ''..'' then win_walk_loop env max_len path (s' # below)
           else if path_len s + 1 + length name \<ge> max_len then (- 1, [])
           else
             let path = child (take (path_len s) path) name in
             if is_dir then
               if length (s # below) \<ge> MAX_DIR_DEPTH then (- 1, close_all (s' # below))
               else if length path + 5 \<ge> 4096 then (- 1, close_all (s' # below))
               else if visit_folder env path FOLDER_PRE \<noteq> 0 then (- 1, Folder_visit path FOLDER_PRE # close_all (s' # below))
               else (case find_first env (path @ all_files) of
                   None \<Rightarrow> then_calls [Folder_visit path FOLDER_PRE] (win_walk_loop env max_len path (s' # below))
                 | Some (found, sub) \<Rightarrow> then_calls [Folder_visit path FOLDER_PRE, Opened path]
                     (win_walk_loop env max_len path (\<lparr>ws_dir = path, ws_rest = sub, path_len = length path\<rparr> # s' # below)))
             else if visit_file env path \<noteq> 0 then (- 1, File_visit path # close_all (s' # below))
             else then_calls [File_visit path] (win_walk_loop env max_len path (s' # below))))"
  by pat_completeness auto

termination
  by (relation "inv_image {(x, y). x < y} (\<lambda>(env, max_len, path, stack). weight stack)")
     (auto simp: wf weight_pop weight_skip weight_push simp del: weight.simps)

declare win_walk_loop.simps(2) [simp del]

definition win_walk_directory :: "find_env \<Rightarrow> string \<Rightarrow> nat \<Rightarrow> int \<times> call list" where
  "win_walk_directory env path max_len =
     (if length path + 5 \<ge> 4096 then (- 1, [])
      else (case find_first env (path @ all_files) of None \<Rightarrow> (- 1, [])
        | Some (found, d) \<Rightarrow>
            let cs = [Opened path, Folder_visit path FOLDER_PRE] in
            if visit_folder env path FOLDER_PRE \<noteq> 0 then (- 1, cs @ [Closed path])
            else then_calls cs (win_walk_loop env max_len path [\<lparr>ws_dir = path, ws_rest = d, path_len = length path\<rparr>])))"

section \<open>What is removed on Windows\<close>

record win_remove_env =
  wr_find :: "string \<Rightarrow> ((string \<times> bool) \<times> (string \<times> bool) list) option"
  wr_unlink :: "string \<Rightarrow> int"
  wr_rmdir :: "string \<Rightarrow> int"
  wr_mode :: "string \<Rightarrow> u32 option"

definition win_folder_visit_remove :: "win_remove_env \<Rightarrow> string \<Rightarrow> int \<Rightarrow> int" where
  "win_folder_visit_remove e fname state = (if state = FOLDER_PRE then 0 else wr_rmdir e fname)"

definition win_remove_walk :: "win_remove_env \<Rightarrow> find_env" where
  "win_remove_walk e = \<lparr>find_first = wr_find e, visit_file = wr_unlink e, visit_folder = win_folder_visit_remove e\<rparr>"

definition win_remove :: "win_remove_env \<Rightarrow> string \<Rightarrow> int \<times> call list" where
  "win_remove e fqname =
     (case wr_mode e fqname of
        Some m \<Rightarrow>
          if S_ISDIR m then
            if length fqname \<ge> pii_path_buf_size then (- 1, [])
            else win_walk_directory (win_remove_walk e) fqname pii_path_buf_size
          else if S_ISREG m then (wr_unlink e fqname, [File_visit fqname])
          else (- 1, [])
      | None \<Rightarrow> (- 1, []))"

section \<open>What it opens it closes\<close>

text \<open>The directories as the walk reads them, the first entry left out.\<close>

definition as_walk :: "find_env \<Rightarrow> walk_env" where
  "as_walk env = \<lparr>opendir = (\<lambda>d. map_option snd (find_first env (d @ all_files))),
     filevisitor = visit_file env, foldervisitor = visit_folder env\<rparr>"

lemma as_walk_simps [simp]: "opendir (as_walk env) d = map_option snd (find_first env (d @ all_files))"
  by (simp add: as_walk_def)

lemma child_length [simp]: "length (child d name) = length d + 1 + length name"
  by (simp add: child_def)

lemma child_take: "take (length d) (child d name) = d"
  by (simp add: child_def)

text \<open>The loop at an entry that is not passed over, by what becomes of it.\<close>

lemma win_walk_cases:
  assumes "stack_ok (as_walk env) max_len path (s # below)" "ws_rest s = (name, is_dir) # rest" "name \<noteq> ''.''" "name \<noteq> ''..''"
  obtains
    (long) "max_len \<le> length (ws_dir s) + 1 + length name" "win_walk_loop env max_len path (s # below) = (- 1, [])"
  | (stop) cs where "length (child (ws_dir s) name) < max_len" "set cs \<subseteq> {Folder_visit (child (ws_dir s) name) FOLDER_PRE, File_visit (child (ws_dir s) name)}"
      "win_walk_loop env max_len path (s # below) = (- 1, cs @ close_all (s\<lparr>ws_rest := rest\<rparr> # below))"
  | (next_one) c where "length (child (ws_dir s) name) < max_len"
      "c = Folder_visit (child (ws_dir s) name) FOLDER_PRE \<or> c = File_visit (child (ws_dir s) name)"
      "win_walk_loop env max_len path (s # below) = then_calls [c] (win_walk_loop env max_len (child (ws_dir s) name) (s\<lparr>ws_rest := rest\<rparr> # below))"
  | (enter) sub where "length (child (ws_dir s) name) < max_len" "length (s # below) < MAX_DIR_DEPTH"
      "opendir (as_walk env) (child (ws_dir s) name) = Some sub"
      "win_walk_loop env max_len path (s # below) = then_calls [Folder_visit (child (ws_dir s) name) FOLDER_PRE, Opened (child (ws_dir s) name)]
         (win_walk_loop env max_len (child (ws_dir s) name)
           (\<lparr>ws_dir = child (ws_dir s) name, ws_rest = sub, path_len = length (child (ws_dir s) name)\<rparr> # s\<lparr>ws_rest := rest\<rparr> # below))"
proof (cases "max_len \<le> length (ws_dir s) + 1 + length name")
  case True
  have "path_len s = length (ws_dir s)" using assms(1) by simp
  then show thesis using True assms long by (simp add: win_walk_loop.simps(2))
next
  case False
  let ?p = "child (ws_dir s) name"
  have p: "path_len s = length (ws_dir s)" "take (length (ws_dir s)) path = ws_dir s" using assms(1) by auto
  have not: "\<not> (name = ''.'' \<or> name = ''..'')" "length ?p < max_len" using assms(3,4) False by simp_all
  note loop = win_walk_loop.simps(2) [of env max_len path s below, unfolded assms(2) list.case prod.case Let_def p
      if_not_P [OF not(1)] if_not_P [OF False]]
  show thesis
  proof (cases is_dir)
    case True
    consider "MAX_DIR_DEPTH \<le> length (s # below) \<or> 4096 \<le> length ?p + 5"
      | "length (s # below) < MAX_DIR_DEPTH" "length ?p + 5 < 4096" "visit_folder env ?p FOLDER_PRE \<noteq> 0"
      | "length (s # below) < MAX_DIR_DEPTH" "length ?p + 5 < 4096" "visit_folder env ?p FOLDER_PRE = 0" "find_first env (?p @ all_files) = None"
      | found sub where "length (s # below) < MAX_DIR_DEPTH" "length ?p + 5 < 4096" "visit_folder env ?p FOLDER_PRE = 0"
          "find_first env (?p @ all_files) = Some (found, sub)"
      by fastforce
    then show thesis
    proof cases
      case 1
      then show thesis using stop [of "[]"] not loop True by auto
    next
      case 2
      then show thesis using stop [of "[Folder_visit ?p FOLDER_PRE]"] not loop True by auto
    next
      case 3
      then show thesis using next_one [of "Folder_visit ?p FOLDER_PRE"] not loop True by auto
    next
      case 4
      then show thesis using enter [of sub] not loop True by auto
    qed
  next
    case False
    then show thesis
      using stop [of "[File_visit ?p]"] next_one [of "File_visit ?p"] not loop by (cases "visit_file env ?p = 0") auto
  qed
qed

text \<open>An entry that is passed over, and the end of a directory.\<close>

lemma win_walk_dot:
  "ws_rest s = (name, is_dir) # rest \<Longrightarrow> name = ''.'' \<or> name = ''..'' \<Longrightarrow>
     win_walk_loop env max_len path (s # below) = win_walk_loop env max_len path (s\<lparr>ws_rest := rest\<rparr> # below)"
  by (auto simp: win_walk_loop.simps(2) Let_def)

lemma win_walk_end:
  "ws_rest s = [] \<Longrightarrow> stack_ok (as_walk env) max_len path (s # below) \<Longrightarrow>
     win_walk_loop env max_len path (s # below) =
       (if visit_folder env (ws_dir s) FOLDER_POST \<noteq> 0 \<and> below \<noteq> []
        then (- 1, [Closed (ws_dir s), Folder_visit (ws_dir s) FOLDER_POST] @ close_all below)
        else then_calls [Closed (ws_dir s), Folder_visit (ws_dir s) FOLDER_POST] (win_walk_loop env max_len (ws_dir s) below))"
  by (auto simp: win_walk_loop.simps(2) Let_def)

lemma win_walk_loop_ends:
  "stack_ok (as_walk env) max_len path stack \<Longrightarrow> walk_ends (as_walk env) max_len (dirs_of stack) (win_walk_loop env max_len path stack)"
proof (induction path stack rule: walk_induct)
  case (1 path stack)
  show ?case
  proof (cases stack)
    case Nil
    then show ?thesis by (simp add: walk_ends_def)
  next
    case (Cons s below)
    note ok = "1.prems" [unfolded Cons] and IH = "1.IH" [unfolded Cons]
    have lens: "length (ws_dir s) < max_len" "stack_ok (as_walk env) max_len (ws_dir s) below" using ok by simp_all
    note closes = stack_ok_close [OF lens(2)]
    have "walk_ends (as_walk env) max_len (dirs_of (s # below)) (win_walk_loop env max_len path (s # below))"
    proof (cases "ws_rest s")
      case Nil
      show ?thesis unfolding win_walk_end [OF Nil ok]
        using IH [OF weight_pop lens(2)] closes lens(1) by (auto intro!: walk_ends_then walk_ends_done)
    next
      case (Cons e rest)
      obtain name is_dir where e: "ws_rest s = (name, is_dir) # rest" using Cons by (cases e) simp
      have skip: "walk_ends (as_walk env) max_len (dirs_of (s # below)) (win_walk_loop env max_len q (s\<lparr>ws_rest := rest\<rparr> # below))"
        if "take (length (ws_dir s)) q = ws_dir s" for q
        using IH [OF weight_skip [OF e] stack_ok_rest [OF ok e that]] by simp
      show ?thesis
      proof (cases "name = ''.'' \<or> name = ''..''")
        case True
        show ?thesis unfolding win_walk_dot [OF e True] by (rule skip [OF stack_ok_take [OF ok]])
      next
        case False
        then have no_dot: "name \<noteq> ''.''" "name \<noteq> ''..''" by simp_all
        from ok e no_dot show ?thesis
        proof (cases rule: win_walk_cases)
          case long
          have "too_long (as_walk env) max_len (ws_dir s)" using e long(1) ok by (auto simp: too_long_def)
          then show ?thesis by (auto simp: long(2) walk_ends_def)
        next
          case (stop cs)
          have "opened cs = {#}" "closed cs = {#}" "\<forall>c \<in> set cs. length (call_path c) < max_len"
            using stop(1,2) by (induction cs) auto
          then show ?thesis using stop closes lens(1) by (auto intro!: walk_ends_done)
        next
          case (next_one c)
          show ?thesis unfolding next_one(3)
            by (rule walk_ends_then [OF skip [OF child_take]]) (use next_one(1,2) in auto)
        next
          case (enter sub)
          have deep: "length below + 1 < MAX_DIR_DEPTH" using enter(2) by simp
          have "child (ws_dir s) name = ws_dir s @ bslash # name" by (simp add: child_def)
          from IH [OF weight_push [OF e deep] stack_ok_enter [OF ok e enter(3,1) this]]
          show ?thesis unfolding enter(4) by (rule walk_ends_then) (use enter(1) in auto)
        qed
      qed
    qed
    then show ?thesis by (simp only: Cons)
  qed
qed

text \<open>However a walk on Windows ends, every search it opened is closed, once, except where it meets a name that
  makes the path too long: then it answers -1. No path it makes is longer than the buffer.\<close>

theorem win_walk_closes:
  assumes "win_walk_directory env path max_len = (n, cs)" "length path < max_len"
  shows "(closed cs = opened cs \<or> n = - 1 \<and> closed cs \<subset># opened cs \<and> (\<exists>d. d \<in># opened cs \<and> too_long (as_walk env) max_len d))
    \<and> (\<forall>c \<in> set cs. length (call_path c) < max_len)"
proof (cases "length path + 5 < 4096 \<and> find_first env (path @ all_files) \<noteq> None")
  case False
  then have "win_walk_directory env path max_len = (- 1, [])" by (auto simp: win_walk_directory_def split: option.splits)
  then show ?thesis using assms by simp
next
  case True
  then obtain found d where d: "find_first env (path @ all_files) = Some (found, d)" by auto
  let ?stack = "[\<lparr>ws_dir = path, ws_rest = d, path_len = length path\<rparr>]"
  have "stack_ok (as_walk env) max_len path ?stack" using d assms(2) by simp
  then have loop: "walk_ends (as_walk env) max_len {#path#} (win_walk_loop env max_len path ?stack)"
    using win_walk_loop_ends by fastforce
  have "walk_ends (as_walk env) max_len {#} (then_calls [Opened path, Folder_visit path FOLDER_PRE] (win_walk_loop env max_len path ?stack))"
    by (rule walk_ends_then [OF loop]) (use assms(2) in auto)
  moreover have "walk_ends (as_walk env) max_len {#} (- 1, [Opened path, Folder_visit path FOLDER_PRE, Closed path])"
    by (rule walk_ends_done) (use assms(2) in auto)
  ultimately have "walk_ends (as_walk env) max_len {#} (n, cs)"
    using assms(1) True d by (auto simp: win_walk_directory_def Let_def split: if_splits)
  then show ?thesis by (simp add: walk_ends_def)
qed

section \<open>The walks of Windows and of Linux\<close>

definition win_path :: "string \<Rightarrow> string" where
  "win_path = map (\<lambda>c. if c = CHR ''/'' then bslash else c)"

fun win_call :: "call \<Rightarrow> call" where
  "win_call (Opened p) = Opened (win_path p)"
| "win_call (Closed p) = Closed (win_path p)"
| "win_call (File_visit p) = File_visit (win_path p)"
| "win_call (Folder_visit p k) = Folder_visit (win_path p) k"

definition no_dots :: "(string \<times> bool) list \<Rightarrow> (string \<times> bool) list" where
  "no_dots = filter (\<lambda>(name, d). name \<noteq> ''.'' \<and> name \<noteq> ''..'')"

text \<open>The same tree on both: a search of Windows gives the entries that are read on Linux, but for those that are passed over, no
  name has a slash in it, and every directory can be opened.\<close>

definition same_tree :: "walk_env \<Rightarrow> find_env \<Rightarrow> bool" where
  "same_tree l w \<longleftrightarrow> (\<forall>p es. opendir l p = Some es \<longrightarrow>
     (\<exists>found sub. find_first w (win_path p @ all_files) = Some (found, sub) \<and> no_dots sub = no_dots es) \<and>
     (\<forall>(name, is_dir) \<in> set (no_dots es). CHR ''/'' \<notin> set name \<and> (is_dir \<longrightarrow> opendir l (p @ ''/'' @ name) \<noteq> None)))"

definition plain_names :: "walk_env \<Rightarrow> string \<Rightarrow> (string \<times> bool) list \<Rightarrow> bool" where
  "plain_names l p es \<longleftrightarrow> (\<forall>(name, is_dir) \<in> set (no_dots es). CHR ''/'' \<notin> set name \<and> (is_dir \<longrightarrow> opendir l (p @ ''/'' @ name) \<noteq> None))"

lemma same_tree_dir:
  "same_tree l w \<Longrightarrow> opendir l p = Some es \<Longrightarrow>
     \<exists>found sub. find_first w (win_path p @ all_files) = Some (found, sub) \<and> no_dots sub = no_dots es \<and> plain_names l p sub"
  unfolding same_tree_def plain_names_def by fastforce

lemma win_path_child: "CHR ''/'' \<notin> set name \<Longrightarrow> win_path (p @ ''/'' @ name) = child (win_path p) name"
  by (auto simp: win_path_def child_def intro!: map_idI)

lemma win_path_length [simp]: "length (win_path p) = length p"
  by (simp add: win_path_def)

lemma no_dots_visits: "visits l n d (no_dots es) = visits l n d es"
  by (cases n; induction es) (auto simp: no_dots_def)

lemma no_dots_fits: "fits l m n d (no_dots es) = fits l m n d es"
  by (cases n; induction es) (auto simp: no_dots_def)

lemma win_walk_loop_visits:
  assumes "\<And>p. visit_file w p = 0" "\<And>p k. visit_folder w p k = 0" "same_tree l w"
  shows "fits l 4091 n d es \<Longrightarrow> length below + n = MAX_DIR_DEPTH \<Longrightarrow> take (length d) path = win_path d \<Longrightarrow>
    plain_names l d es \<Longrightarrow>
    \<exists>cs. win_walk_loop w 4096 path (\<lparr>ws_dir = win_path d, ws_rest = es, path_len = length d\<rparr> # below)
        = then_calls cs (win_walk_loop w 4096 (win_path d) below)
      \<and> filter is_visit cs = map win_call (visits l n d es) @ [Folder_visit (win_path d) FOLDER_POST]"
proof (induction n arbitrary: d es path below)
  case (Suc n)
  note outer = Suc.IH
  from Suc.prems show ?case
  proof (induction es arbitrary: path)
    case Nil
    then show ?case
      by (subst win_walk_loop.simps(2))
        (auto simp: Let_def assms intro!: exI [of _ "[Closed (win_path d), Folder_visit (win_path d) FOLDER_POST]"])
  next
    case (Cons e es)
    obtain name is_dir where e: "e = (name, is_dir)" by (cases e)
    let ?s = "\<lparr>ws_dir = win_path d, ws_rest = es, path_len = length d\<rparr>" and ?p = "d @ ''/'' @ name" and ?q = "child (win_path d) name"
    have names: "plain_names l d es" using Cons.prems(4) by (auto simp: plain_names_def no_dots_def)
    have fit: "fits l 4091 (Suc n) d es" using Cons.prems(1) by simp
    note rest = Cons.IH [OF fit Cons.prems(2) _ names]
    note loop = win_walk_loop.simps(2) [of w 4096 path "\<lparr>ws_dir = win_path d, ws_rest = e # es, path_len = length d\<rparr>" below,
        unfolded Let_def assms(1,2) e walk_state.select_convs list.case prod.case Cons.prems(3)]
    show ?case
    proof (cases "name = ''.'' \<or> name = ''..''")
      case True
      then show ?thesis using rest [OF Cons.prems(3)] loop by (auto simp: e)
    next
      case False
      then have short: "length d + 1 + length name < 4091"
        and sub: "is_dir \<Longrightarrow> 0 < n \<and> (\<forall>x. opendir l ?p = Some x \<longrightarrow> fits l 4091 n ?p x)"
        using Cons.prems(1) by (auto simp: e)
      have "(name, is_dir) \<in> set (no_dots (e # es))" using False by (simp add: e no_dots_def)
      then have name: "CHR ''/'' \<notin> set name" "is_dir \<Longrightarrow> opendir l ?p \<noteq> None" using Cons.prems(4) by (auto simp: plain_names_def)
      note q = win_path_child [OF name(1), of d]
      have long: "\<not> 4096 \<le> length d + 1 + length name" "\<not> 4096 \<le> length ?q + 5" using short by simp_all
      note loop = loop [unfolded if_not_P [OF False] if_not_P [OF long(1)] if_not_P [OF long(2)]]
      have "take (length d) ?q = win_path d" using child_take [of "win_path d" name] by simp
      then obtain cs where cs: "win_walk_loop w 4096 ?q (?s # below) = then_calls cs (win_walk_loop w 4096 (win_path d) below)"
        "filter is_visit cs = map win_call (visits l (Suc n) d es) @ [Folder_visit (win_path d) FOLDER_POST]"
        using rest by blast
      show ?thesis
      proof (cases is_dir)
        case no: False
        then show ?thesis
          using loop cs False q by (intro exI [of _ "File_visit ?q # cs"]) (simp add: e)
      next
        case True
        then have n: "\<not> MAX_DIR_DEPTH \<le> length (\<lparr>ws_dir = win_path d, ws_rest = e # es, path_len = length d\<rparr> # below)"
          using sub Cons.prems(2) by simp
        obtain x where x: "opendir l ?p = Some x" using name(2) True by blast
        then obtain found y where y: "find_first w (?q @ all_files) = Some (found, y)" "no_dots y = no_dots x" "plain_names l ?p y"
          using same_tree_dir [OF assms(3) x] unfolding q by blast
        have "fits l 4091 n ?p x" using sub [OF True] x by blast
        then have fy: "fits l 4091 n ?p y" using no_dots_fits [of l 4091 n ?p x] no_dots_fits [of l 4091 n ?p y] y(2) by simp
        have vy: "visits l n ?p y = visits l n ?p x" using no_dots_visits [of l n ?p x] no_dots_visits [of l n ?p y] y(2) by simp
        have len: "length (?s # below) + n = MAX_DIR_DEPTH" using Cons.prems(2) by simp
        have qp: "take (length ?p) ?q = win_path ?p" using q by simp
        obtain ds where ds: "win_walk_loop w 4096 ?q (\<lparr>ws_dir = win_path ?p, ws_rest = y, path_len = length ?p\<rparr> # ?s # below)
              = then_calls ds (win_walk_loop w 4096 (win_path ?p) (?s # below))"
            "filter is_visit ds = map win_call (visits l n ?p x) @ [Folder_visit (win_path ?p) FOLDER_POST]"
          using outer [OF fy len qp y(3)] unfolding vy by blast
        have lq: "length ?p = length ?q" by simp
        show ?thesis
          using loop cs ds n True x y(1) False unfolding q lq
          by (intro exI [of _ "[Folder_visit ?q FOLDER_PRE, Opened ?q] @ ds @ cs"]) (simp add: e q [simplified])
      qed
    qed
  qed
qed simp

lemma fits_longer: "fits l m n d es \<Longrightarrow> m \<le> m' \<Longrightarrow> fits l m' n d es"
proof (induction n arbitrary: d es)
  case (Suc n)
  show ?case using Suc.prems unfolding fits.simps
    by (elim list.pred_mono_strong) (auto split: option.splits intro: Suc.IH)
qed simp


section \<open>A tree of Windows\<close>

definition tree2 :: win_remove_env where
  "tree2 = \<lparr>wr_find = (\<lambda>p. if p = ''t'' @ all_files then Some ((''.'', True), [(''..'', True), (''a'', False), (''d'', True)])
       else if p = child ''t'' ''d'' @ all_files then Some ((''.'', True), [(''..'', True), (''b'', False)]) else None),
     wr_unlink = (\<lambda>_. 0), wr_rmdir = (\<lambda>_. 0), wr_mode = (\<lambda>p. if p = ''t'' then Some 0x41ff else None)\<rparr>"

theorem win_walk_closes_witness:
  "closed (snd (win_walk_directory (win_remove_walk tree2) ''t'' 4096)) = opened (snd (win_walk_directory (win_remove_walk tree2) ''t'' 4096))"
proof -
  have "fst (win_walk_directory (win_remove_walk tree2) ''t'' 4096) = 0" by code_simp
  then show ?thesis
    using win_walk_closes [of "win_remove_walk tree2" "''t''" 4096 0 "snd (win_walk_directory (win_remove_walk tree2) ''t'' 4096)"]
    by (simp add: prod_eq_iff)
qed

lemma tree1_dirs:
  "opendir (remove_walk tree1) p = (if p = ''t'' then Some [(''.'', True), (''..'', True), (''a'', False), (''d'', True)]
     else if p = ''t/d'' then Some [(''b'', False)] else None)"
  by (simp add: tree1_def remove_walk_def)

lemma tree2_same: "same_tree (remove_walk tree1) (win_remove_walk tree2)"
  unfolding same_tree_def tree1_dirs
  by (auto simp: win_remove_walk_def tree2_def win_path_def child_def no_dots_def bslash_def all_files_def split: if_splits)


end
