(* ===== verification/Pii_Windows.thy ===== *)
theory Pii_Windows
  imports Pii Walk_Windows
begin

text \<open>
  The functions of the system on Windows, \<^verbatim>\<open>src/src/host/pii_windows.cpp\<close>, and the clock of
  \<^verbatim>\<open>src/src/host/pii_darwin.cpp\<close>, which is otherwise the text of the file for Linux. What the system
  answers is an argument, what is asked of it a list of calls; a handle is a number, 0 where there is none.
\<close>

section \<open>Calls of Windows\<close>

datatype ms_flag = Ms_rdonly | Ms_wronly | Ms_rdwr | Ms_creat | Ms_trunc | Ms_binary

datatype ms_call =
    Ms_open string "ms_flag list" | Ms_mkdir string | Ms_seek_end int
  | Ms_create_mapping string u32 u32 | Ms_open_mapping string | Ms_close_handle int
  | Ms_sleep | Ms_switch_thread
  | Ms_create_process string | Ms_open_process u32 | Ms_exit_code int | Ms_terminate int

section \<open>Listing a directory on Windows\<close>

definition win_buf_size :: nat where "win_buf_size = 4096"

text \<open>\<open>FILE_ATTRIBUTE_DIRECTORY\<close> is 4, anything else 8, the numbers the other systems have.\<close>

definition win_entry :: "string \<times> bool \<Rightarrow> string \<times> nat" where
  "win_entry e = (fst e, if snd e then 4 else 8)"

text \<open>\<open>cwd\<close> is the directory the host is in, empty if it can not be told. A search that is opened has found
  something.\<close>

definition win_dirlist ::
  "string \<Rightarrow> (string \<Rightarrow> ((string \<times> bool) \<times> (string \<times> bool) list) option) \<Rightarrow> string \<Rightarrow> string option \<Rightarrow> nat \<Rightarrow> (nat \<times> string option) option" where
  "win_dirlist cwd search path buf buf_len =
     (if cwd = [] \<or> length cwd + length path + 3 \<ge> win_buf_size then Some (0, buf)
      else (case search (cwd @ [bslash] @ path @ [bslash] @ ''*'') of
          None \<Rightarrow> Some (0, buf)
        | Some (e, es) \<Rightarrow> dirlist_loop (map win_entry (e # es)) buf_len buf 0))"

section \<open>Files on Windows\<close>

fun win_rmkdir_loop :: "string \<Rightarrow> string \<Rightarrow> ms_call list" where
  "win_rmkdir_loop before [] = []"
| "win_rmkdir_loop before (c # cs) =
     (if c = CHR ''/'' \<or> c = bslash then [Ms_mkdir before] else []) @ win_rmkdir_loop (before @ [c]) cs"

definition win_rmkdir :: "string \<Rightarrow> ms_call list" where
  "win_rmkdir path = (if length path \<ge> pii_rmdir_buf_size then [] else win_rmkdir_loop (take 1 path) (drop 1 path))"

definition win_open :: "string \<Rightarrow> nat \<Rightarrow> int \<Rightarrow> int \<Rightarrow> int \<times> ms_call list" where
  "win_open path mode fd1 fd2 =
     (if mode = file_open_read then (fd1, [Ms_open path [Ms_rdonly, Ms_binary]])
      else if mode = file_open_write then
        let how = [Ms_creat, Ms_rdwr, Ms_binary, Ms_trunc] in
        if fd1 \<noteq> - 1 then (fd1, [Ms_open path how])
        else (fd2, Ms_open path how # win_rmkdir path @ [Ms_open path how])
      else if mode = file_open_append then
        let how = [Ms_creat, Ms_rdwr, Ms_binary] in
        if fd1 \<noteq> - 1 then (fd1, [Ms_open path how, Ms_seek_end fd1])
        else if fd2 \<noteq> - 1 then (fd2, Ms_open path how # win_rmkdir path @ [Ms_open path how])
        else (fd2, Ms_open path how # win_rmkdir path @ [Ms_open path how, Ms_seek_end fd2])
      else (- 1, []))"

text \<open>A key of the console is read with no echo, one at a time; what else is read, written or sought is cut to the
  widths of the C library, whose \<open>unsigned int\<close> and \<open>long\<close> have 32 bits.\<close>

definition win_read :: "int \<Rightarrow> u64 \<Rightarrow> char option \<Rightarrow> (int \<Rightarrow> u32 \<Rightarrow> string option) \<Rightarrow> int \<times> string" where
  "win_read fd len key rd =
     (if fd = 0 then (case key of None \<Rightarrow> (- 1, []) | Some ch \<Rightarrow> (1, [ch]))
      else (case rd (fd_int fd) (ucast len) of None \<Rightarrow> (- 1, []) | Some bytes \<Rightarrow> (int (length bytes), bytes)))"

definition win_write :: "int \<Rightarrow> string \<Rightarrow> u64 \<Rightarrow> (int \<Rightarrow> string \<Rightarrow> int) \<Rightarrow> int" where
  "win_write fd bytes len wr = wr (fd_int fd) (take (unat (ucast len :: u32)) bytes)"

definition win_seek :: "int \<Rightarrow> int \<Rightarrow> u8 \<Rightarrow> (int \<Rightarrow> int \<Rightarrow> u8 \<Rightarrow> int) \<Rightarrow> int" where
  "win_seek fd pos offset seek = seek (fd_int fd) (signed_take_bit 31 pos) offset"

definition win_stat :: "(int \<times> int \<times> u16) option \<Rightarrow> pii_stat_info \<Rightarrow> int \<times> pii_stat_info" where
  "win_stat answer st =
     (case answer of None \<Rightarrow> (- 1, st) | Some (m, sz, mode) \<Rightarrow> (0, st\<lparr>mtime := m, fsize := sz, st_mode := mode\<rparr>))"

definition win_chmod :: "string \<Rightarrow> u64 \<Rightarrow> int" where "win_chmod path mode = 0"

section \<open>Shared memory on Windows\<close>

definition win_open_shared :: "string \<Rightarrow> u64 \<Rightarrow> int \<Rightarrow> int \<times> ms_call list" where
  "win_open_shared path len hndl = (hndl, [Ms_create_mapping path 0 (ucast len)])"

definition win_close_shared :: "int \<Rightarrow> bool \<Rightarrow> int \<times> ms_call list" where
  "win_close_shared hndl ok = (if ok then 0 else - 1, [Ms_close_handle hndl])"

definition win_shm_name :: "u64 \<Rightarrow> string" where
  "win_shm_name key = snprintf_into 64 (''clpx-'' @ hex16 key)"

text \<open>\<open>hndl\<close> is what is made or found; one that is made may be one that was there.\<close>

definition win_shm_open :: "u64 \<Rightarrow> u64 \<Rightarrow> bool \<Rightarrow> int \<Rightarrow> bool \<Rightarrow> int \<times> ms_call list" where
  "win_shm_open key len create hndl exists =
     (let name = win_shm_name key in
      if create then
        let made = Ms_create_mapping name (ucast (drop_bit 32 len)) (ucast len) in
        if hndl \<noteq> 0 \<and> exists then (- 1, [made, Ms_close_handle hndl])
        else (if hndl \<noteq> 0 then hndl else - 1, [made])
      else (if hndl \<noteq> 0 then hndl else - 1, [Ms_open_mapping name]))"

definition win_shm_close :: "int \<Rightarrow> int \<times> ms_call list" where
  "win_shm_close hndl = (0, [Ms_close_handle hndl])"

section \<open>Memory on Windows\<close>

datatype page = PAGE_READWRITE | PAGE_EXECUTE_READ | PAGE_NOACCESS

definition win_mprotect :: "bool \<Rightarrow> nat \<Rightarrow> bool \<Rightarrow> int \<times> page option" where
  "win_mprotect run_emu mode ok =
     (if mode = mmap_exec \<and> \<not> run_emu then (if ok then 0 else - 1, Some PAGE_EXECUTE_READ)
      else if mode = mmap_exec \<or> mode = mmap_data then (if ok then 0 else - 1, Some PAGE_READWRITE)
      else if mode = mmap_none then (if ok then 0 else - 1, Some PAGE_NOACCESS)
      else (- 1, None))"

datatype ms_memory = Ms_alloc page | Ms_map_view int

definition win_mmap :: "bool \<Rightarrow> int \<Rightarrow> nat \<Rightarrow> int \<Rightarrow> int \<times> ms_memory option" where
  "win_mmap run_emu fd mode mapped =
     (if mode = mmap_exec \<and> \<not> run_emu then (mapped, Some (Ms_alloc PAGE_EXECUTE_READ))
      else if mode = mmap_exec \<or> mode = mmap_data then (mapped, Some (Ms_alloc PAGE_READWRITE))
      else if mode = mmap_shared then (mapped, Some (Ms_map_view fd))
      else (- 1, None))"

text \<open>Memory is let go of whole, a view is unmapped.\<close>

definition win_munmap :: "nat \<Rightarrow> bool \<Rightarrow> bool \<Rightarrow> int" where
  "win_munmap mode freed unmapped =
     (if (mode = mmap_data \<or> mode = mmap_exec) \<and> freed then 0
      else if mode = mmap_shared \<and> unmapped then 0
      else - 1)"

section \<open>Random bytes and the id of the machine, on Windows\<close>

text \<open>\<open>gen\<close> is the system's source: the bytes it gives at a place, as many as were asked, or none.\<close>

function win_random_loop :: "(nat \<Rightarrow> nat \<Rightarrow> string option) \<Rightarrow> nat \<Rightarrow> nat \<Rightarrow> string \<Rightarrow> (nat \<times> string) option" where
  "win_random_loop gen len got addr =
     (if got < len then
        let part = (if len - got > 0x10000000 then 0x10000000 else len - got) in
        (case gen got part of None \<Rightarrow> Some (got, addr)
         | Some bytes \<Rightarrow> (case write_at got bytes addr of None \<Rightarrow> None
             | Some addr \<Rightarrow> win_random_loop gen len (got + part) addr))
      else Some (got, addr))"
  by pat_completeness auto
termination by (relation "measure (\<lambda>(gen, len, got, addr). len - got)") auto

declare win_random_loop.simps [simp del]

definition win_random :: "(nat \<Rightarrow> nat \<Rightarrow> string option) \<Rightarrow> (nat \<Rightarrow> u32) \<Rightarrow> string \<Rightarrow> nat \<Rightarrow> string option" where
  "win_random gen rand addr len =
     (case win_random_loop gen len 0 addr of None \<Rightarrow> None
      | Some (got, addr) \<Rightarrow> if got = len then Some addr
          else write_at 0 (map (\<lambda>i. char_of (unat (rand i AND 0xff))) [0..<len]) addr)"

definition win_sysid_file :: "string option \<Rightarrow> (nat \<Rightarrow> nat \<Rightarrow> string option) \<Rightarrow> (nat \<Rightarrow> u32) \<Rightarrow> string
    \<Rightarrow> (int \<times> string option \<times> string option) option" where
  "win_sysid_file system_id gen rand b =
     (case (case system_id of None \<Rightarrow> Some b | Some bytes \<Rightarrow> write_at 0 (take 16 bytes) b) of None \<Rightarrow> None
      | Some b \<Rightarrow>
        if (case system_id of None \<Rightarrow> False | Some bytes \<Rightarrow> length (take 16 bytes) = 16) then Some (0, Some b, None)
        else map_option (\<lambda>b. (0, Some b, Some (take 16 b))) (win_random gen rand b 16))"

definition win_sysid ::
  "(string \<Rightarrow> nat option) \<Rightarrow> string option \<Rightarrow> string option \<Rightarrow> (nat \<Rightarrow> nat \<Rightarrow> string option) \<Rightarrow> (nat \<Rightarrow> u32) \<Rightarrow> string option \<Rightarrow> nat
    \<Rightarrow> (int \<times> string option \<times> string option) option" where
  "win_sysid scan machine_id system_id gen rand buf len =
     (case buf of None \<Rightarrow> Some (- 1, None, None)
      | Some b \<Rightarrow>
        if len < 16 then Some (- 1, Some b, None)
        else case machine_id of
          Some hex \<Rightarrow>
            if length hex = 32 then map_option (\<lambda>b. (0, Some b, None)) (hex_bytes scan hex 16 b)
            else win_sysid_file system_id gen rand b
        | None \<Rightarrow> win_sysid_file system_id gen rand b)"

section \<open>Clocks of Windows and of a Mac\<close>

definition epoch_usec :: u64 where "epoch_usec = 11644473600000000"

text \<open>The time of a file is in tenths of a microsecond from the year 1601. A \<open>long\<close> has 32 bits.\<close>

definition win_timeofday :: "u32 \<Rightarrow> u32 \<Rightarrow> int \<times> int" where
  "win_timeofday high low =
     (let t = (push_bit 32 (ucast high) OR ucast low) div 10 - epoch_usec :: u64 in
      (signed_take_bit 31 (uint (t div 1000000)), signed_take_bit 31 (uint (t mod 1000000))))"

definition win_gettime :: "u32 \<Rightarrow> u32 \<Rightarrow> int" where
  "win_gettime high low = (let (sec, usec) = win_timeofday high low in sec * 1000000 + usec)"

definition win_tick :: "u32 \<Rightarrow> u32 \<Rightarrow> int" where "win_tick high low = win_gettime high low"

text \<open>The wait, of readings of the counter, none after it is over; \<open>None\<close> while it goes on.\<close>

fun win_sleep_loop :: "u64 \<Rightarrow> u64 \<Rightarrow> u64 \<Rightarrow> u64 list \<Rightarrow> ms_call list option" where
  "win_sleep_loop wait freq start [] = None"
| "win_sleep_loop wait freq start (current # later) =
     (let elapsed = current - start in
      if elapsed \<ge> wait then Some []
      else
        let remaining_usec = ((wait - elapsed) * 1000000) div freq in
        map_option (Cons (if remaining_usec > 2000 then Ms_sleep else Ms_switch_thread)) (win_sleep_loop wait freq start later))"

definition win_sleep :: "u64 \<Rightarrow> u64 \<Rightarrow> u64 \<Rightarrow> u64 list \<Rightarrow> ms_call list option" where
  "win_sleep usec freq start readings =
     (if usec < 300 then Some [Ms_switch_thread]
      else win_sleep_loop ((usec * freq) div 1000000) freq start readings)"

text \<open>On a Mac the count of the kernel is made microseconds by a multiply, with what a count is worth asked once.\<close>

definition mac_recip :: "u32 \<Rightarrow> u32 \<Rightarrow> u64" where
  "mac_recip numer denom =
     (let r = word_of_int (uint numer * 2 ^ 32 div uint (ucast denom * 1000 :: u64)) in if r = 0 then 1 else r)"

definition mac_tick :: "u32 \<Rightarrow> u32 \<Rightarrow> u64 \<Rightarrow> int" where
  "mac_tick numer denom cnt = tick_usec (mac_recip numer denom) cnt"

section \<open>Another node, on Windows\<close>

text \<open>What stands before the last slash or backslash, with it.\<close>

definition win_dir_part :: "string \<Rightarrow> string" where
  "win_dir_part path = rev (dropWhile (\<lambda>c. c \<noteq> CHR ''/'' \<and> c \<noteq> bslash) (rev path))"

definition win_spawn_which :: "string \<Rightarrow> string \<Rightarrow> string \<times> string" where
  "win_spawn_which host args =
     (let want = (if take 5 args = ''-gui '' then Some ''main_gui.exe''
                  else if take 5 args = ''-tui '' then Some ''main_tui.exe'' else None) in
      case want of None \<Rightarrow> (host, args)
      | Some w \<Rightarrow> (let name = win_dir_part host @ w in (if length name \<ge> 4096 then host else name, drop 5 args)))"

definition win_spawn_buf_size :: nat where "win_spawn_buf_size = 8192"

definition dquote :: char where "dquote = CHR 0x22"

definition win_spawn_line :: "bool \<Rightarrow> string list \<Rightarrow> string \<Rightarrow> string option" where
  "win_spawn_line run_emu host_argv args =
     (let (host, args) = win_spawn_which (host_argv ! 0) args;
          line = [dquote] @ host @ [dquote] @ '' '' @ host_argv ! 1 @ '' '' @ args @ (if run_emu then '' -e'' else []) in
      if length line \<ge> win_spawn_buf_size then None else Some line)"

text \<open>\<open>nul\<close> is the handle of the input that is empty, -1 if it could not be opened; \<open>made\<close> what the process that is started has:
  its id, and the handles of its thread and of itself.\<close>

definition win_spawn :: "bool \<Rightarrow> string list option \<Rightarrow> string \<Rightarrow> int \<Rightarrow> (string \<Rightarrow> (u32 \<times> int \<times> int) option) \<Rightarrow> int \<times> ms_call list" where
  "win_spawn run_emu host_argv args nul made =
     (case host_argv of None \<Rightarrow> (- 1, [])
      | Some hv \<Rightarrow> (case win_spawn_line run_emu hv args of None \<Rightarrow> (- 1, [])
        | Some line \<Rightarrow>
            let closes = (if nul \<noteq> - 1 then [Ms_close_handle nul] else []) in
            (case made line of None \<Rightarrow> (- 1, Ms_create_process line # closes)
             | Some (pid, thread, process) \<Rightarrow>
                 (uint pid, Ms_create_process line # closes @ [Ms_close_handle thread, Ms_close_handle process]))))"

section \<open>Processes on Windows\<close>

definition STILL_ACTIVE :: u32 where "STILL_ACTIVE = 259"

definition win_alive :: "(u32 \<Rightarrow> int) \<Rightarrow> (int \<Rightarrow> u32 option) \<Rightarrow> int \<Rightarrow> int \<times> ms_call list" where
  "win_alive process code pid =
     (if pid \<le> 0 then (0, [])
      else let h = process (word_of_int pid) in
        if h = 0 then (0, [Ms_open_process (word_of_int pid)])
        else (if code h = Some STILL_ACTIVE then 1 else 0,
              [Ms_open_process (word_of_int pid), Ms_exit_code h, Ms_close_handle h]))"

text \<open>\<open>invalid\<close> is whether the last error says that there is no such process.\<close>

definition win_kill :: "u32 \<Rightarrow> (u32 \<Rightarrow> int) \<Rightarrow> bool \<Rightarrow> (int \<Rightarrow> bool) \<Rightarrow> int \<Rightarrow> int \<times> ms_call list" where
  "win_kill self process invalid ended pid =
     (if pid \<le> 0 \<or> pid = uint self then (- 1, [])
      else let h = process (word_of_int pid) in
        if h = 0 then (if invalid then 0 else - 1, [Ms_open_process (word_of_int pid)])
        else (if ended h then 0 else - 1, [Ms_open_process (word_of_int pid), Ms_terminate h, Ms_close_handle h]))"

definition win_cpus :: "u32 \<Rightarrow> int" where "win_cpus n = (if n < 1 then 1 else uint n)"

definition win_memory :: "u64 option \<Rightarrow> int" where
  "win_memory phys = (case phys of None \<Rightarrow> 0 | Some n \<Rightarrow> sint n)"

definition win_host :: "string \<Rightarrow> string \<Rightarrow> string \<Rightarrow> string \<Rightarrow> nat \<Rightarrow> (nat \<times> string) option" where
  "win_host cpu abi os buf len =
     (let s = cpu @ '' '' @ abi @ '' '' @ os @ '' 3''; n = length s in
      if len = 0 then Some (0, buf)
      else let n = (if n \<ge> len then len - 1 else n) in
        case write_at 0 (take n s) buf of None \<Rightarrow> None
        | Some b \<Rightarrow> map_option (\<lambda>b. (n, b)) (write_at n [char_of (0 :: nat)] b))"

section \<open>A sleep is long enough\<close>

lemma win_sleep_loop_ends: "win_sleep_loop wait freq start cs \<noteq> None \<longleftrightarrow> (\<exists>c \<in> set cs. wait \<le> c - start)"
  by (induction cs) (auto simp: Let_def)

lemma win_sleep_loop_first:
  "win_sleep_loop wait freq start cs = Some calls \<Longrightarrow>
     length calls < length cs \<and> wait \<le> cs ! length calls - start \<and> (\<forall>i < length calls. cs ! i - start < wait)"
proof (induction cs arbitrary: calls)
  case (Cons c cs)
  show ?case
  proof (cases "wait \<le> c - start")
    case True
    then show ?thesis using Cons.prems by (auto simp: Let_def)
  next
    case False
    then obtain x ds where ds: "win_sleep_loop wait freq start cs = Some ds" "calls = x # ds"
      using Cons.prems by (auto simp: Let_def)
    have "\<forall>i < length calls. (c # cs) ! i - start < wait"
      using Cons.IH [OF ds(1)] False ds(2) by (auto simp: nth_Cons split: nat.split)
    then show ?thesis using Cons.IH [OF ds(1)] ds(2) by simp
  qed
qed simp

lemma sleep_ticks:
  fixes usec freq e :: u64
  assumes "unat usec * unat freq < 2 ^ 64"
  shows "(usec * freq) div 1000000 \<le> e \<longleftrightarrow> unat usec * unat freq < (unat e + 1) * 1000000"
proof -
  have "unat (usec * freq) = unat usec * unat freq" using assms unat_mult_lem [of usec freq] by simp
  then have "unat ((usec * freq) div 1000000) = unat usec * unat freq div 1000000" by (simp add: unat_div)
  then have "(usec * freq) div 1000000 \<le> e \<longleftrightarrow> unat usec * unat freq div 1000000 < unat e + 1"
    by (simp add: word_le_nat_alt less_Suc_eq_le)
  also have "\<dots> \<longleftrightarrow> unat usec * unat freq < (unat e + 1) * 1000000" by (simp add: div_less_iff_less_mult)
  finally show ?thesis .
qed



section \<open>Random bytes\<close>

text \<open>What the system gave, part after part.\<close>

definition given_by :: "(nat \<Rightarrow> nat \<Rightarrow> string option) \<Rightarrow> string list \<Rightarrow> bool" where
  "given_by gen parts \<longleftrightarrow> (\<forall>i < length parts. gen (length (concat (take i parts))) (length (parts ! i)) = Some (parts ! i))"

lemma given_by_more: "given_by gen parts \<Longrightarrow> gen (length (concat parts)) (length p) = Some p \<Longrightarrow> given_by gen (parts @ [p])"
  by (auto simp: given_by_def nth_append less_Suc_eq)

lemma win_random_loop_fills:
  assumes "\<forall>got part bytes. gen got part = Some bytes \<longrightarrow> length bytes = part" "given_by gen parts"
    "length (concat parts) + length rest = len"
  shows "\<exists>got b. win_random_loop gen len (length (concat parts)) (concat parts @ rest) = Some (got, b) \<and> length b = len \<and>
    (got = len \<longrightarrow> (\<exists>ps. b = concat ps \<and> given_by gen ps))"
  using assms(2,3)
proof (induction "length rest" arbitrary: parts rest rule: less_induct)
  case less
  define got where "got = length (concat parts)"
  show ?case
  proof (cases "rest = []")
    case True
    then show ?thesis using less.prems by (subst win_random_loop.simps) auto
  next
    case False
    define part where "part = (if len - got > 0x10000000 then 0x10000000 else len - got)"
    have l: "got + length rest = len" using less.prems(2) by (simp add: got_def)
    have go: "got < len" using l False by (cases rest) auto
    have part: "0 < part" "part \<le> length rest" using go l by (auto simp: part_def)
    show ?thesis
    proof (cases "gen got part")
      case None
      have "win_random_loop gen len got (concat parts @ rest) = Some (got, concat parts @ rest)"
        using go None by (subst win_random_loop.simps) (simp add: part_def Let_def)
      then show ?thesis using l go unfolding got_def by auto
    next
      case (Some bytes)
      have b: "length bytes = part" using assms(1) Some by blast
      have w: "write_at got bytes (concat parts @ rest) = Some (concat (parts @ [bytes]) @ drop part rest)"
        using part b l by (simp add: write_at_def got_def)
      have "win_random_loop gen len got (concat parts @ rest) = win_random_loop gen len (got + part) (concat (parts @ [bytes]) @ drop part rest)"
        using go Some w by (subst win_random_loop.simps) (simp add: part_def Let_def)
      moreover have "got + part = length (concat (parts @ [bytes]))" using b by (simp add: got_def)
      moreover have "given_by gen (parts @ [bytes])"
        using given_by_more [OF less.prems(1), of bytes] Some b by (simp add: got_def)
      moreover have "length (drop part rest) < length rest" using part by simp
      moreover have "length (concat (parts @ [bytes])) + length (drop part rest) = len" using l part b by (simp add: got_def)
      ultimately show ?thesis using less.hyps [of "drop part rest" "parts @ [bytes]"] unfolding got_def by simp
    qed
  qed
qed

text \<open>Random bytes fill the buffer and nothing else, and are all given by the system, or, if it refuses any, are all drawn.\<close>

theorem win_random_fills:
  assumes "\<forall>got part bytes. gen got part = Some bytes \<longrightarrow> length bytes = part" "length addr = len"
  shows "\<exists>b. win_random gen rand addr len = Some b \<and> length b = len \<and>
    ((\<exists>ps. b = concat ps \<and> given_by gen ps) \<or> b = map (\<lambda>i. char_of (unat (rand i AND 0xff))) [0..<len])"
proof -
  have "given_by gen []" by (simp add: given_by_def)
  from win_random_loop_fills [where gen = gen and parts = "[]" and rest = addr and len = len, OF assms(1) this] obtain got b where
    b: "win_random_loop gen len 0 addr = Some (got, b)" "length b = len" "got = len \<longrightarrow> (\<exists>ps. b = concat ps \<and> given_by gen ps)"
    using assms(2) by auto
  show ?thesis using b by (cases "got = len") (auto simp: win_random_def write_at_def)
qed

theorem win_random_fills_witness:
  "\<exists>b. win_random (\<lambda>got part. if got = 0 then Some (replicate part (CHR ''x'')) else None) (\<lambda>i. 0) ''abc'' 3 = Some b \<and> length b = 3"
proof -
  let ?gen = "\<lambda>got part. if got = 0 then Some (replicate part (CHR ''x'')) else None"
  have "\<forall>got part bytes. ?gen got part = Some bytes \<longrightarrow> length bytes = part" by auto
  from win_random_fills [OF this, of "''abc''" 3 "\<lambda>i. 0"] show ?thesis by auto
qed

section \<open>The time of day\<close>

lemma int_div_less: "a < b * c \<Longrightarrow> 0 < c \<Longrightarrow> a div c < (b :: int)"
proof (rule ccontr)
  assume a: "a < b * c" "0 < c" "\<not> a div c < b"
  then have "b * c \<le> a div c * c" by (intro mult_right_mono) simp_all
  then show False using int_div_mult_le [OF a(2), of a] a(1) by simp
qed

lemma win_time_split:
  assumes "uint high * 2 ^ 32 + uint low = 10 * (11644473600000000 + t)" "0 \<le> t" "t < 2 ^ 60"
  shows "win_timeofday high low = (signed_take_bit 31 (t div 1000000), t mod 1000000)"
proof -
  have both: "uint (push_bit 32 (ucast high) OR ucast low :: u64) = uint high * 2 ^ 32 + uint low"
    for high low :: u32
  proof -
    have "(push_bit 32 (ucast high) :: u64) AND ucast low = 0"
      by (rule bit_word_eqI) (auto simp: bit_simps dest: bit_imp_le_length)
    then have "(push_bit 32 (ucast high) :: u64) OR ucast low = push_bit 32 (ucast high) + ucast low"
      by (simp add: disjunctive_add_eq_or)
    moreover have "uint (push_bit 32 (ucast high) :: u64) = uint high * 2 ^ 32"
      using unsigned_less [of high, where ?'a = int] by (simp add: push_bit_eq_mult uint_word_ariths unsigned_ucast_eq take_bit_int_eq_self)
    moreover have "uint (ucast low :: u64) = uint low"
      using unsigned_less [of low, where ?'a = int] by (simp add: unsigned_ucast_eq take_bit_int_eq_self)
    ultimately show ?thesis using unsigned_less [of high, where ?'a = int] unsigned_less [of low, where ?'a = int] by (simp add: uint_word_ariths)
  qed
  let ?x = "push_bit 32 (ucast high) OR ucast low :: u64"
  have x: "uint (?x div 10) = 11644473600000000 + t"
    unfolding uint_div both assms(1) by simp
  have e: "uint epoch_usec = 11644473600000000" by (simp add: epoch_usec_def)
  have "uint (?x div 10 - epoch_usec) = (11644473600000000 + t - 11644473600000000) mod 2 ^ 64"
    by (simp only: uint_word_ariths x e) simp
  then have u: "uint (?x div 10 - epoch_usec) = t" using assms(2,3) by simp
  have parts: "uint ((?x div 10 - epoch_usec) div 1000000) = t div 1000000" "uint ((?x div 10 - epoch_usec) mod 1000000) = t mod 1000000"
    by (simp_all add: uint_div uint_mod u)
  have "signed_take_bit 31 (t mod 1000000) = t mod 1000000"
    using pos_mod_bound [of 1000000 t] pos_mod_sign [of 1000000 t] by (intro signed_take_bit_int_eq_self) simp_all
  then show ?thesis by (simp add: win_timeofday_def Let_def parts)
qed

text \<open>The time of day on Windows is right to the microsecond until the 32 bits of its seconds are full, in January of 2038; a
  second later it is 136 years before.\<close>

theorem win_time_until_2038:
  assumes "uint high * 2 ^ 32 + uint low = 10 * (11644473600000000 + t)" "0 \<le> t"
  shows "(t < 2 ^ 31 * 1000000 \<longrightarrow> win_gettime high low = t) \<and>
    (2 ^ 31 * 1000000 \<le> t \<and> t < 2 ^ 32 * 1000000 \<longrightarrow> win_gettime high low = t - 2 ^ 32 * 1000000)"
proof -
  have g: "win_gettime high low = signed_take_bit 31 (t div 1000000) * 1000000 + t mod 1000000" if "t < 2 ^ 32 * 1000000"
    using win_time_split [OF assms] that by (simp add: win_gettime_def)
  have t: "t div 1000000 * 1000000 + t mod 1000000 = t" by simp
  have early: "win_gettime high low = t" if "t < 2 ^ 31 * 1000000"
  proof -
    have "t div 1000000 < 2 ^ 31" "0 \<le> t div 1000000" using that assms(2) by (simp_all add: div_less_iff_less_mult pos_imp_zdiv_nonneg_iff)
    then have "signed_take_bit 31 (t div 1000000) = t div 1000000" by (intro signed_take_bit_int_eq_self) simp_all
    then show ?thesis using g that by simp
  qed
  have late: "win_gettime high low = t - 2 ^ 32 * 1000000" if "2 ^ 31 * 1000000 \<le> t" "t < 2 ^ 32 * 1000000"
  proof -
    let ?q = "t div 1000000"
    have q: "2 ^ 31 \<le> ?q" "?q < 2 ^ 32"
      using zdiv_mono1 [OF that(1), of 1000000] that(2) by (simp_all add: div_less_iff_less_mult)
    have "?q + 2 ^ 31 = ?q - 2 ^ 31 + 2 ^ 32" by simp
    then have "(?q + 2 ^ 31) mod 2 ^ 32 = (?q - 2 ^ 31 + 2 ^ 32) mod 2 ^ 32" by (simp only:)
    also have "\<dots> = (?q - 2 ^ 31) mod 2 ^ 32" by (rule mod_add_self2)
    also have "\<dots> = ?q - 2 ^ 31" using q by (intro mod_pos_pos_trivial) simp_all
    finally have "signed_take_bit 31 ?q = ?q - 2 ^ 32"
      by (simp add: signed_take_bit_eq_take_bit_shift take_bit_eq_mod)
    then have "win_gettime high low = (?q - 2 ^ 32) * 1000000 + t mod 1000000" using g that(2) by (simp only:)
    also have "\<dots> = ?q * 1000000 + t mod 1000000 - 2 ^ 32 * 1000000" by simp
    finally show ?thesis by (simp only: t)
  qed
  show ?thesis using early late by blast
qed

theorem win_time_until_2038_witness: "win_gettime 30000000 0 = 1240428288000000"
  using win_time_until_2038 [of 30000000 0 1240428288000000] by simp

section \<open>The clock of a Mac\<close>

text \<open>The clock of a Mac never goes back, and is behind the true count of microseconds by less than one for each 2^32
  counts and one, until the 63 bits of its answer are full.\<close>

theorem mac_tick_never_goes_back:
  assumes "0 < denom" "uint denom * 1000 \<le> uint numer * 2 ^ 32" "cnt \<le> cnt'"
    "uint cnt' * uint numer < 2 ^ 63 * (uint denom * 1000)"
  shows "0 \<le> mac_tick numer denom cnt \<and> mac_tick numer denom cnt \<le> mac_tick numer denom cnt' \<and>
    mac_tick numer denom cnt \<le> uint cnt * uint numer div (uint denom * 1000) \<and>
    uint cnt * uint numer div (uint denom * 1000) \<le> mac_tick numer denom cnt + uint cnt div 2 ^ 32 + 1"
proof -
  let ?f = "uint denom * 1000" and ?r = "uint (mac_recip numer denom)"
  have b: "uint numer < 2 ^ 32" "uint denom < 2 ^ 32" "0 < uint denom"
    using unsigned_less [of numer, where ?'a = int] unsigned_less [of denom, where ?'a = int] assms(1) by (simp_all add: word_less_def)
  have ud: "uint (ucast denom :: u64) = uint denom" using b(2) by (simp add: unsigned_ucast_eq take_bit_int_eq_self)
  have d: "uint (ucast denom * 1000 :: u64) = ?f" using b(2) by (simp add: uint_word_ariths ud)
  have f: "0 < ?f" using b(3) by simp
  have q: "0 < uint numer * 2 ^ 32 div ?f" using assms(2) f by (simp add: pos_imp_zdiv_pos_iff)
  have "uint numer * 2 ^ 32 div ?f \<le> uint numer * 2 ^ 32 div 1" using f by (intro zdiv_mono2) simp_all
  then have lt: "uint numer * 2 ^ 32 div ?f < 2 ^ 64" using b(1) by simp
  have w: "uint (word_of_int (uint numer * 2 ^ 32 div ?f) :: u64) = uint numer * 2 ^ 32 div ?f"
    using lt q by (simp add: uint_word_of_int)
  have "(word_of_int (uint numer * 2 ^ 32 div ?f) :: u64) \<noteq> 0" using w q by (metis less_irrefl unsigned_0)
  then have r: "?r = uint numer * 2 ^ 32 div ?f" by (simp only: mac_recip_def Let_def d if_False w)
  have tick: "mac_tick numer denom c = uint c * ?r div 2 ^ 32" "uint c * ?r div 2 ^ 32 \<le> uint c * uint numer div ?f"
    "uint c * uint numer div ?f \<le> uint c * ?r div 2 ^ 32 + uint c div 2 ^ 32 + 1"
    if "uint c * uint numer < 2 ^ 63 * ?f" for c
  proof -
    show n: "uint c * ?r div 2 ^ 32 \<le> uint c * uint numer div ?f"
      "uint c * uint numer div ?f \<le> uint c * ?r div 2 ^ 32 + uint c div 2 ^ 32 + 1"
      using reciprocal [OF _ f _ r, of "uint c"] by simp_all
    have "uint c * uint numer div ?f < 2 ^ 63" using that f by (rule int_div_less)
    moreover have "0 \<le> uint c * ?r div 2 ^ 32" by (simp add: pos_imp_zdiv_nonneg_iff)
    ultimately show "mac_tick numer denom c = uint c * ?r div 2 ^ 32"
      unfolding mac_tick_def tick_usec_def using n(1) by (intro signed_take_bit_int_eq_self) linarith+
  qed
  have le: "uint cnt \<le> uint cnt'" using assms(3) by (simp add: word_le_def)
  then have "uint cnt * uint numer \<le> uint cnt' * uint numer" by (intro mult_right_mono) simp_all
  then have c: "uint cnt * uint numer < 2 ^ 63 * ?f" using assms(4) by simp
  have "uint cnt * ?r div 2 ^ 32 \<le> uint cnt' * ?r div 2 ^ 32" using le by (intro zdiv_mono1 mult_right_mono) simp_all
  moreover have "0 \<le> uint cnt * ?r div 2 ^ 32" by (simp add: pos_imp_zdiv_nonneg_iff)
  ultimately show ?thesis using tick [OF c] unfolding tick(1) [OF assms(4)] by linarith
qed

text \<open>A Mac counts 24 million in a second, of 125 thirds of a nanosecond each.\<close>

theorem mac_tick_never_goes_back_witness: "mac_tick 125 3 24000000 \<le> mac_tick 125 3 48000000 \<and> mac_tick 125 3 24000000 \<le> 1000000"
  using mac_tick_never_goes_back [of 3 125 24000000 48000000] by simp

section \<open>The words a node is started with\<close>

text \<open>How the C runtime of Windows takes a line apart, where there is no quote but around the name of the program.\<close>

function crt_words :: "string \<Rightarrow> string list" where
  "crt_words s = (case strtok s of None \<Rightarrow> [] | Some (w, rest) \<Rightarrow> w # crt_words rest)"
  by pat_completeness auto
termination by (relation "measure length") (auto dest: strtok_shorter)

declare crt_words.simps [simp del]

definition crt_argv :: "string \<Rightarrow> string list" where
  "crt_argv line = (if take 1 line = [dquote]
     then takeWhile (\<lambda>c. c \<noteq> dquote) (drop 1 line) # crt_words (drop 1 (dropWhile (\<lambda>c. c \<noteq> dquote) (drop 1 line)))
     else crt_words line)"

lemma crt_words_more: "word_ok w \<Longrightarrow> crt_words (w @ CHR '' '' # s) = w # crt_words s" "word_ok w \<Longrightarrow> crt_words w = [w]" "crt_words [] = []"
  by (subst crt_words.simps; simp add: strtok_word strtok_def [of "[]"] crt_words.simps [of "[]"])+

lemma crt_words_space: "crt_words (CHR '' '' # s) = crt_words s"
  by (subst (1 2) crt_words.simps) (simp add: strtok_def)

lemma crt_words_join: "list_all word_ok ws \<Longrightarrow> word_ok e \<Longrightarrow> crt_words (join ws @ CHR '' '' # e) = ws @ [e]"
  "list_all word_ok ws \<Longrightarrow> crt_words (join ws) = ws"
  by (induction ws rule: join.induct) (simp_all add: crt_words_more crt_words_space)

lemma crt_argv_quoted: "dquote \<notin> set host \<Longrightarrow> crt_argv (dquote # host @ dquote # s) = host # crt_words s"
proof -
  assume "dquote \<notin> set host"
  then have "takeWhile (\<lambda>c. c \<noteq> dquote) (host @ dquote # s) = host" "dropWhile (\<lambda>c. c \<noteq> dquote) (host @ dquote # s) = dquote # s"
    by (induction host) auto
  then show ?thesis by (simp add: crt_argv_def)
qed



section \<open>Processes and shared memory\<close>

text \<open>An id that fits in 32 bits has that process ended and no other; one that does not is cut to 32 bits after it was
  looked at, and 2^32 and its own id ends the host itself.\<close>

theorem win_kill_cuts_the_id:
  "(0 < pid \<and> pid < 2 ^ 32 \<and> pid \<noteq> uint self \<longrightarrow>
     (\<exists>cs. snd (win_kill self process invalid ended pid) = Ms_open_process (word_of_int pid) # cs \<and> uint (word_of_int pid :: u32) = pid)) \<and>
   (process self \<noteq> 0 \<longrightarrow> snd (win_kill self process invalid ended (2 ^ 32 + uint self)) =
     [Ms_open_process self, Ms_terminate (process self), Ms_close_handle (process self)])"
proof -
  have "word_of_int (2 ^ 32 + uint self) = (4294967296 :: u32) + self" by simp
  also have "(4294967296 :: u32) = 0" by simp
  finally have c: "word_of_int (2 ^ 32 + uint self) = self" by simp
  have "\<not> (2 ^ 32 + uint self \<le> 0 \<or> 2 ^ 32 + uint self = uint self)" by (simp add: not_le add_pos_nonneg)
  then have "win_kill self process invalid ended (2 ^ 32 + uint self) = (let h = process self in
      if h = 0 then (if invalid then 0 else - 1, [Ms_open_process self])
      else (if ended h then 0 else - 1, [Ms_open_process self, Ms_terminate h, Ms_close_handle h]))"
    by (simp only: win_kill_def if_False c)
  then show ?thesis by (auto simp: win_kill_def Let_def uint_word_of_int)
qed

text \<open>Shared memory that is made is new, of the whole length asked for, and its name is of one key; memory that was there is
  refused and its handle closed.\<close>

theorem win_shm_made_is_new:
  assumes "win_shm_open key len True hndl taken = (r, cs)"
  shows "(r \<noteq> - 1 \<longrightarrow> r = hndl \<and> \<not> taken) \<and> (taken \<and> hndl \<noteq> 0 \<longrightarrow> Ms_close_handle hndl \<in> set cs) \<and>
    (\<exists>hi lo. Ms_create_mapping (win_shm_name key) hi lo \<in> set cs \<and> uint hi * 2 ^ 32 + uint lo = uint len) \<and>
    (win_shm_name k = win_shm_name key \<longrightarrow> k = key)"
proof -
  have "uint len < 2 ^ 32 * 2 ^ 32" using unsigned_less [of len, where ?'a = int] by simp
  then have "uint len div 2 ^ 32 < 2 ^ 32" by (rule int_div_less) simp
  then have "uint len div 2 ^ 32 mod 2 ^ 32 = uint len div 2 ^ 32" by (intro mod_pos_pos_trivial) (simp_all add: pos_imp_zdiv_nonneg_iff)
  then have "uint (ucast (drop_bit 32 len) :: u32) * 2 ^ 32 + uint (ucast len :: u32) = uint len"
    by (simp add: unsigned_ucast_eq take_bit_eq_mod drop_bit_eq_div uint_div)
  moreover have "win_shm_name k = win_shm_name key \<longrightarrow> k = key"
    by (auto simp: win_shm_name_def snprintf_into_def hex16_inj)
  ultimately show ?thesis using assms by (auto simp: win_shm_open_def Let_def split: if_splits)
qed

end
