(* ===== verification/Terminals.thy ===== *)
theory Terminals
  imports Prelude
begin

text \<open>
  The terminal a host is started on and the devices of the framebuffer driver: \<^verbatim>\<open>enableRawMode\<close> of
  \<^verbatim>\<open>src/src/host/main.cpp\<close>, and what \<^verbatim>\<open>src/src/host/gui_fb.c\<close> opens, puts in another mode and closes.
  What the system answers is an argument, what is asked of it a list of calls. The terminal of the framebuffer
  driver may be that of the host or another.
\<close>

section \<open>Terminals and what is asked of them\<close>

record termios =
  c_iflag :: u32
  c_cflag :: u32
  c_lflag :: u32
  c_vmin :: u8
  c_vtime :: u8

text \<open>The bits as Linux has them.\<close>

definition ECHO_ICANON :: u32 where "ECHO_ICANON = 0x8 OR 0x2"
definition IEXTEN_ISIG :: u32 where "IEXTEN_ISIG = 0x8000 OR 0x1"
definition INPUT_MADE :: u32 where "INPUT_MADE = 0x100 OR 0x10 OR 0x20 OR 0x400 OR 0x2"  \<comment> \<open>ICRNL, INPCK, ISTRIP, IXON, BRKINT\<close>
definition CSIZE_PARENB :: u32 where "CSIZE_PARENB = 0x30 OR 0x100"
definition CS8 :: u32 where "CS8 = 0x30"

definition K_MEDIUMRAW :: nat where "K_MEDIUMRAW = 2"

text \<open>A descriptor that is opened is of a device, a number.\<close>

datatype tty_call =
    T_open string int nat | T_close int | T_write int nat | T_read int | T_usleep nat
  | T_get_attr int termios | T_set_attr int termios | T_get_mode int nat | T_set_mode int nat
  | T_graphics int | T_text int | T_map int | T_unmap

datatype exit_handler = Exit_raw | Exit_gui

text \<open>The statics of both files, and what is to be called when the program exits, the last one first.\<close>

record host_tty =
  orig_termios :: termios
  keybd_fd :: int
  mouse_fd :: int
  frame_fd :: int
  fb_orig :: termios
  old_kbd_mode :: nat
  at_exit :: "exit_handler list"

section \<open>The terminal of the host\<close>

definition host_raw :: "termios \<Rightarrow> termios" where
  "host_raw t = t\<lparr>c_lflag := c_lflag t AND NOT ECHO_ICANON\<rparr>"

definition enableRawMode :: "termios \<Rightarrow> host_tty \<Rightarrow> host_tty \<times> tty_call list" where
  "enableRawMode t s =
     (s\<lparr>orig_termios := t, at_exit := Exit_raw # at_exit s\<rparr>, [T_get_attr 0 t, T_set_attr 0 (host_raw t)])"

definition disableRawMode :: "host_tty \<Rightarrow> tty_call list" where
  "disableRawMode s = [T_set_attr 0 (orig_termios s)]"

section \<open>The devices of the framebuffer driver\<close>

definition fb_raw :: "termios \<Rightarrow> termios" where
  "fb_raw t = t\<lparr>c_lflag := c_lflag t AND NOT (ECHO_ICANON OR IEXTEN_ISIG), c_iflag := c_iflag t AND NOT INPUT_MADE,
     c_cflag := (c_cflag t AND NOT CSIZE_PARENB) OR CS8, c_vmin := 1, c_vtime := 0\<rparr>"

text \<open>\<open>fd\<close> is what \<open>open\<close> gives, of the device \<open>dev\<close>, \<open>mode\<close> and \<open>t\<close> the modes the keyboard is found in.\<close>

definition open_keyboard :: "string option \<Rightarrow> int \<Rightarrow> nat \<Rightarrow> nat \<Rightarrow> termios \<Rightarrow> host_tty \<Rightarrow> int \<times> host_tty \<times> tty_call list" where
  "open_keyboard console fd dev mode t s =
     (let path = (case console of None \<Rightarrow> ''/dev/tty'' | Some p \<Rightarrow> p); s = s\<lparr>keybd_fd := fd\<rparr> in
      if fd < 0 then (- 1, s, [T_open path fd dev])
      else (fd, s\<lparr>old_kbd_mode := mode, fb_orig := t\<rparr>,
        [T_open path fd dev, T_get_mode fd mode, T_get_attr fd t, T_set_mode fd K_MEDIUMRAW, T_set_attr fd (fb_raw t)]))"

definition close_keyboard :: "host_tty \<Rightarrow> host_tty \<times> tty_call list" where
  "close_keyboard s = (s\<lparr>keybd_fd := - 1\<rparr>,
     if keybd_fd s \<ge> 0 then [T_set_mode (keybd_fd s) (old_kbd_mode s), T_set_attr (keybd_fd s) (fb_orig s), T_close (keybd_fd s)] else [])"

text \<open>The mouse is told its protocol, and what it answers is read away: \<open>given\<close> says how many reads give something, each of
  the ten times.\<close>

definition read_away :: "int \<Rightarrow> (nat \<Rightarrow> nat) \<Rightarrow> tty_call list" where
  "read_away fd given = concat (map (\<lambda>i. replicate (given i + 1) (T_read fd) @ [T_usleep 5000]) [0..<10])"

definition open_mouse :: "int \<Rightarrow> nat \<Rightarrow> (nat \<Rightarrow> nat) \<Rightarrow> host_tty \<Rightarrow> int \<times> host_tty \<times> tty_call list" where
  "open_mouse fd dev given s =
     (let s = s\<lparr>mouse_fd := fd\<rparr> in
      if fd < 0 then (- 1, s, [T_open ''/dev/input/mice'' fd dev])
      else (fd, s, [T_open ''/dev/input/mice'' fd dev, T_write fd 6] @ read_away fd given))"

definition close_mouse :: "host_tty \<Rightarrow> host_tty \<times> tty_call list" where
  "close_mouse s = (s\<lparr>mouse_fd := - 1\<rparr>, if mouse_fd s \<ge> 0 then [T_close (mouse_fd s)] else [])"

definition close_framebuffer :: "host_tty \<Rightarrow> host_tty \<times> tty_call list" where
  "close_framebuffer s = (s\<lparr>frame_fd := - 1\<rparr>,
     if frame_fd s \<ge> 0 then [T_unmap] @ (if keybd_fd s \<ge> 0 then [T_text (keybd_fd s)] else []) @ [T_close (frame_fd s)] else [])"

definition gui_deinit :: "host_tty \<Rightarrow> host_tty \<times> tty_call list" where
  "gui_deinit s =
     (let (s, c1) = close_mouse s; (s, c2) = close_framebuffer s; (s, c3) = close_keyboard s in (s, c1 @ c2 @ c3))"

text \<open>The exit handlers are called, the one that was registered last first.\<close>

fun exit_calls :: "exit_handler list \<Rightarrow> host_tty \<Rightarrow> host_tty \<times> tty_call list" where
  "exit_calls [] s = (s, [])"
| "exit_calls (Exit_raw # hs) s = (let (s', cs) = exit_calls hs s in (s', disableRawMode s @ cs))"
| "exit_calls (Exit_gui # hs) s = (let (s, cs) = gui_deinit s; (s, ds) = exit_calls hs s in (s, cs @ ds))"

definition host_exit :: "host_tty \<Rightarrow> host_tty \<times> tty_call list" where
  "host_exit s = exit_calls (at_exit s) (s\<lparr>at_exit := []\<rparr>)"

text \<open>A screen that can not be used ends the program, \<open>fine\<close> says that it can.\<close>

datatype tty_result = Returned int | Exited

definition open_screen :: "string option \<Rightarrow> int \<Rightarrow> nat \<Rightarrow> bool \<Rightarrow> host_tty \<Rightarrow> tty_result \<times> host_tty \<times> tty_call list" where
  "open_screen framebuffer fd dev fine s =
     (let opened = T_open (case framebuffer of None \<Rightarrow> ''/dev/fb0'' | Some p \<Rightarrow> p) fd dev; s = s\<lparr>frame_fd := fd\<rparr> in
      if fd < 0 then (Returned (- 1), s, [opened])
      else if fine then (Returned fd, s, [opened, T_map fd] @ (if keybd_fd s \<ge> 0 then [T_graphics (keybd_fd s)] else []))
      else
        (let (s, cs) = gui_deinit (s\<lparr>frame_fd := - 1\<rparr>); (s, ds) = host_exit s in
         (Exited, s, [opened, T_close fd] @ cs @ ds)))"

record tty_now =
  n_console :: "string option"
  n_kfd :: int
  n_kdev :: nat
  n_mode :: nat
  n_attr :: termios
  n_mfd :: int
  n_mdev :: nat
  n_given :: "nat \<Rightarrow> nat"
  n_frame :: "string option"
  n_ffd :: int
  n_fdev :: nat
  n_fine :: bool

definition gui_init :: "tty_now \<Rightarrow> host_tty \<Rightarrow> tty_result \<times> host_tty \<times> tty_call list" where
  "gui_init n s =
     (case open_keyboard (n_console n) (n_kfd n) (n_kdev n) (n_mode n) (n_attr n) s of (r, s, c1) \<Rightarrow>
      if r < 0 then (Returned (- 1), s, c1)
      else (case open_mouse (n_mfd n) (n_mdev n) (n_given n) s of (r, s, c2) \<Rightarrow>
        if r < 0 then (Returned (- 1), s, c1 @ c2)
        else (case open_screen (n_frame n) (n_ffd n) (n_fdev n) (n_fine n) s of
            (Exited, s, c3) \<Rightarrow> (Exited, s, c1 @ c2 @ c3)
          | (Returned r, s, c3) \<Rightarrow>
              if r < 0 then (Returned (- 1), s, c1 @ c2 @ c3)
              else (Returned 0, s\<lparr>at_exit := Exit_gui # at_exit s\<rparr>, c1 @ c2 @ c3))))"

text \<open>A signal puts the devices back and exits.\<close>

definition catch_signals :: "host_tty \<Rightarrow> host_tty \<times> tty_call list" where
  "catch_signals s = (let (s, cs) = gui_deinit s; (s, ds) = host_exit s in (s, cs @ ds))"

section \<open>The terminals as they are\<close>

record ttys =
  tt_fds :: "int \<rightharpoonup> nat"
  tt_attr :: "nat \<Rightarrow> termios"
  tt_mode :: "nat \<Rightarrow> nat"
  tt_graphics :: "nat \<Rightarrow> bool"
  tt_maps :: nat

text \<open>A call of a descriptor that is not open is \<open>None\<close>.\<close>

fun tty_does :: "tty_call \<Rightarrow> ttys \<Rightarrow> ttys option" where
  "tty_does (T_open p fd dev) w = Some (if fd < 0 then w else w\<lparr>tt_fds := (tt_fds w)(fd \<mapsto> dev)\<rparr>)"
| "tty_does (T_close fd) w = (if fd \<in> dom (tt_fds w) then Some (w\<lparr>tt_fds := (tt_fds w)(fd := None)\<rparr>) else None)"
| "tty_does (T_set_attr fd t) w = map_option (\<lambda>d. w\<lparr>tt_attr := (tt_attr w)(d := t)\<rparr>) (tt_fds w fd)"
| "tty_does (T_set_mode fd m) w = map_option (\<lambda>d. w\<lparr>tt_mode := (tt_mode w)(d := m)\<rparr>) (tt_fds w fd)"
| "tty_does (T_graphics fd) w = map_option (\<lambda>d. w\<lparr>tt_graphics := (tt_graphics w)(d := True)\<rparr>) (tt_fds w fd)"
| "tty_does (T_text fd) w = map_option (\<lambda>d. w\<lparr>tt_graphics := (tt_graphics w)(d := False)\<rparr>) (tt_fds w fd)"
| "tty_does (T_get_attr fd t) w = map_option (\<lambda>d. w) (tt_fds w fd)"
| "tty_does (T_get_mode fd m) w = map_option (\<lambda>d. w) (tt_fds w fd)"
| "tty_does (T_write fd n) w = map_option (\<lambda>d. w) (tt_fds w fd)"
| "tty_does (T_read fd) w = map_option (\<lambda>d. w) (tt_fds w fd)"
| "tty_does (T_map fd) w = map_option (\<lambda>d. w\<lparr>tt_maps := tt_maps w + 1\<rparr>) (tt_fds w fd)"
| "tty_does T_unmap w = (if tt_maps w = 0 then None else Some (w\<lparr>tt_maps := tt_maps w - 1\<rparr>))"
| "tty_does (T_usleep n) w = Some w"

fun tty_run :: "tty_call list \<Rightarrow> ttys \<Rightarrow> ttys option" where
  "tty_run [] w = Some w"
| "tty_run (c # cs) w = Option.bind (tty_does c w) (tty_run cs)"

lemma tty_run_append [simp]: "tty_run (cs @ ds) w = Option.bind (tty_run cs w) (tty_run ds)"
  by (induction cs arbitrary: w) (simp_all split: bind_splits)

section \<open>All is left as it was found\<close>

text \<open>What the system may answer: descriptors that are new, and the modes as they are.\<close>

definition new_fd :: "ttys \<Rightarrow> int \<Rightarrow> bool" where
  "new_fd w fd \<longleftrightarrow> fd < 0 \<or> fd \<notin> dom (tt_fds w)"

definition tty_answers :: "tty_now \<Rightarrow> ttys \<Rightarrow> bool" where
  "tty_answers n w \<longleftrightarrow> new_fd w (n_kfd n) \<and> new_fd w (n_mfd n) \<and> new_fd w (n_ffd n) \<and>
     distinct [n_kfd n, n_mfd n, n_ffd n] \<and> n_mode n = tt_mode w (n_kdev n) \<and> n_attr n = tt_attr w (n_kdev n)"

text \<open>To read the mouse changes nothing.\<close>

lemma reads_nothing: "fd \<in> dom (tt_fds w) \<Longrightarrow> tty_run (replicate k (T_read fd)) w = Some w"
  by (induction k) auto

lemma read_away_nothing:
  assumes "fd \<in> dom (tt_fds w)"
  shows "tty_run (read_away fd given) w = Some w"
proof -
  have "tty_run (concat (map (\<lambda>i. replicate (given i + 1) (T_read fd) @ [T_usleep 5000]) is)) w = Some w" for "is"
    by (induction "is") (simp_all add: reads_nothing [OF assms] del: replicate_Suc)
  then show ?thesis by (simp only: read_away_def)
qed

definition no_devices :: "host_tty \<Rightarrow> bool" where
  "no_devices s \<longleftrightarrow> keybd_fd s = - 1 \<and> mouse_fd s = - 1 \<and> frame_fd s = - 1"

lemma gui_deinit_done: "no_devices s \<Longrightarrow> gui_deinit s = (s, [])"
  by (simp add: no_devices_def gui_deinit_def close_mouse_def close_framebuffer_def close_keyboard_def Let_def)

text \<open>The devices with all of them open.\<close>

definition all_open :: "tty_now \<Rightarrow> host_tty \<Rightarrow> host_tty" where
  "all_open n s = s\<lparr>keybd_fd := n_kfd n, old_kbd_mode := n_mode n, fb_orig := n_attr n, mouse_fd := n_mfd n, frame_fd := n_ffd n\<rparr>"

definition shut :: "host_tty \<Rightarrow> host_tty" where
  "shut s = s\<lparr>keybd_fd := - 1, mouse_fd := - 1, frame_fd := - 1\<rparr>"

lemma shut_simps [simp]: "no_devices (shut s)" "at_exit (shut s) = at_exit s" "orig_termios (shut s) = orig_termios s"
  by (simp_all add: shut_def no_devices_def)

lemma gui_init_ok:
  assumes "gui_init n s = (Returned 0, s', cs)" "tty_answers n w" "\<not> tt_graphics w (n_kdev n)"
  shows "s' = (all_open n s)\<lparr>at_exit := Exit_gui # at_exit s\<rparr> \<and> 0 \<le> n_kfd n \<and> 0 \<le> n_mfd n \<and> 0 \<le> n_ffd n \<and>
    tty_run cs w = Some (w\<lparr>tt_fds := (tt_fds w)(n_kfd n \<mapsto> n_kdev n, n_mfd n \<mapsto> n_mdev n, n_ffd n \<mapsto> n_fdev n),
      tt_mode := (tt_mode w)(n_kdev n := K_MEDIUMRAW), tt_attr := (tt_attr w)(n_kdev n := fb_raw (n_attr n)),
      tt_graphics := (tt_graphics w)(n_kdev n := True), tt_maps := tt_maps w + 1\<rparr>)"
proof -
  have pos: "0 \<le> n_kfd n" "0 \<le> n_mfd n" "0 \<le> n_ffd n" "n_fine n"
    using assms(1) by (auto simp: gui_init_def open_keyboard_def open_mouse_def open_screen_def Let_def split: if_splits prod.splits)
  have d: "n_kfd n \<noteq> n_mfd n" "n_kfd n \<noteq> n_ffd n" "n_mfd n \<noteq> n_ffd n" using assms(2) by (simp_all add: tty_answers_def)
  show ?thesis
    using assms(1) pos d
    by (auto simp: gui_init_def open_keyboard_def open_mouse_def open_screen_def Let_def all_open_def read_away_nothing)
qed

definition opened_world :: "tty_now \<Rightarrow> ttys \<Rightarrow> ttys" where
  "opened_world n w = w\<lparr>tt_fds := (tt_fds w)(n_kfd n \<mapsto> n_kdev n, n_mfd n \<mapsto> n_mdev n, n_ffd n \<mapsto> n_fdev n),
      tt_mode := (tt_mode w)(n_kdev n := K_MEDIUMRAW), tt_attr := (tt_attr w)(n_kdev n := fb_raw (n_attr n)),
      tt_graphics := (tt_graphics w)(n_kdev n := True), tt_maps := tt_maps w + 1\<rparr>"

lemma gui_deinit_open:
  assumes "tty_answers n w" "\<not> tt_graphics w (n_kdev n)" "0 \<le> n_kfd n" "0 \<le> n_mfd n" "0 \<le> n_ffd n"
    "keybd_fd s = n_kfd n" "mouse_fd s = n_mfd n" "frame_fd s = n_ffd n" "old_kbd_mode s = n_mode n" "fb_orig s = n_attr n"
  shows "\<exists>cs. gui_deinit s = (shut s, cs) \<and> tty_run cs (opened_world n w) = Some w"
proof -
  have d: "n_kfd n \<noteq> n_mfd n" "n_kfd n \<noteq> n_ffd n" "n_mfd n \<noteq> n_ffd n"
    and fresh: "tt_fds w (n_kfd n) = None" "tt_fds w (n_mfd n) = None" "tt_fds w (n_ffd n) = None"
    and found: "n_mode n = tt_mode w (n_kdev n)" "n_attr n = tt_attr w (n_kdev n)"
    using assms(1,3-5) by (auto simp: tty_answers_def new_fd_def domIff)
  have fds: "(tt_fds w)(n_mfd n := None, n_ffd n := None, n_kfd n := None) = tt_fds w"
    using fresh by (auto simp: fun_eq_iff)
  have restored: "w\<lparr>tt_fds := tt_fds w, tt_mode := (tt_mode w)(n_kdev n := tt_mode w (n_kdev n)),
      tt_attr := (tt_attr w)(n_kdev n := tt_attr w (n_kdev n)), tt_graphics := (tt_graphics w)(n_kdev n := False), tt_maps := tt_maps w\<rparr> = w"
    using assms(2) by (cases w) (simp add: fun_upd_idem)
  show ?thesis
    using assms(3-10) d restored
    by (simp add: gui_deinit_def close_mouse_def close_framebuffer_def close_keyboard_def Let_def shut_def opened_world_def fds found)
qed

text \<open>The terminal of the host is put back, as it was before.\<close>

lemma exit_raw:
  assumes "at_exit s = Exit_gui # [Exit_raw] \<or> at_exit s = [Exit_raw]" "no_devices s" "tt_fds w 0 = Some d"
    "orig_termios s = t"
  shows "\<exists>s' cs. host_exit s = (s', cs) \<and> tty_run cs w = Some (w\<lparr>tt_attr := (tt_attr w)(d := t)\<rparr>)"
proof -
  have "no_devices (s\<lparr>at_exit := []\<rparr>)" using assms(2) by (simp add: no_devices_def)
  then show ?thesis using assms
    by (auto simp: host_exit_def disableRawMode_def gui_deinit_done)
qed

lemma gui_init_exits:
  assumes "gui_init n s = (Exited, s', cs)" "tty_answers n w" "no_devices s" "at_exit s = [Exit_raw]" "tt_fds w 0 = Some d"
  shows "tty_run cs w = Some (w\<lparr>tt_attr := (tt_attr w)(d := orig_termios s)\<rparr>)"
proof -
  have pos: "0 \<le> n_kfd n" "0 \<le> n_mfd n" "0 \<le> n_ffd n" "\<not> n_fine n"
    using assms(1) by (auto simp: gui_init_def open_keyboard_def open_mouse_def open_screen_def Let_def split: if_splits prod.splits)
  have d: "n_kfd n \<noteq> n_mfd n" "n_kfd n \<noteq> n_ffd n" "n_mfd n \<noteq> n_ffd n"
    and fresh: "tt_fds w (n_kfd n) = None" "tt_fds w (n_mfd n) = None" "tt_fds w (n_ffd n) = None"
    and found: "n_mode n = tt_mode w (n_kdev n)" "n_attr n = tt_attr w (n_kdev n)"
    using assms(2) pos by (auto simp: tty_answers_def new_fd_def domIff)
  have fds: "(tt_fds w)(n_ffd n := None, n_mfd n := None, n_kfd n := None) = tt_fds w"
    using fresh by (auto simp: fun_eq_iff)
  have zero: "n_kfd n \<noteq> 0" "n_mfd n \<noteq> 0" "n_ffd n \<noteq> 0" using fresh assms(5) by auto
  show ?thesis
    using assms(1,3-5) pos d zero
    by (auto simp: gui_init_def open_keyboard_def open_mouse_def open_screen_def Let_def read_away_nothing gui_deinit_def close_mouse_def
        close_framebuffer_def close_keyboard_def host_exit_def disableRawMode_def found fds)
qed


text \<open>A mouse or a screen that can not be opened is told the caller, but the driver is not among what is called at the exit then, and
  the keyboard stays as it is for the driver, at which nothing more can be typed.\<close>

theorem keyboard_left_raw:
  assumes "at_exit s = []" "tt_fds w 0 = Some d" "enableRawMode (tt_attr w d) s = (s1, c0)" "tty_run c0 w = Some w1"
    "tty_answers n w1" "0 \<le> n_kfd n" "n_mfd n < 0" "gui_init n s1 = (r, s2, c1)"
  shows "r = Returned (- 1) \<and> (\<exists>w'. tty_run (c0 @ c1 @ snd (host_exit s2)) w = Some w' \<and> tt_mode w' (n_kdev n) = K_MEDIUMRAW \<and>
    n_kfd n \<in> dom (tt_fds w'))"
proof -
  have s1: "s1 = s\<lparr>orig_termios := tt_attr w d, at_exit := [Exit_raw]\<rparr>" and c0: "c0 = [T_get_attr 0 (tt_attr w d), T_set_attr 0 (host_raw (tt_attr w d))]"
    using assms(1,3) by (simp_all add: enableRawMode_def)
  have w1: "w1 = w\<lparr>tt_attr := (tt_attr w)(d := host_raw (tt_attr w d))\<rparr>" using assms(2,4) by (simp add: c0)
  have "n_kfd n \<noteq> 0" using assms(2,5,6) by (auto simp: tty_answers_def new_fd_def w1)
  then show ?thesis
    using assms(2,4,6,7,8)
    by (auto simp: gui_init_def open_keyboard_def open_mouse_def Let_def host_exit_def disableRawMode_def s1 w1)
qed

section \<open>A host on its own terminal\<close>

definition cooked :: termios where
  "cooked = \<lparr>c_iflag = 0x500, c_cflag = 0xbf, c_lflag = 0x8a3b, c_vmin = 1, c_vtime = 0\<rparr>"

definition tty0 :: host_tty where
  "tty0 = \<lparr>orig_termios = cooked, keybd_fd = - 1, mouse_fd = - 1, frame_fd = - 1, fb_orig = cooked, old_kbd_mode = 0, at_exit = []\<rparr>"

definition ttys0 :: ttys where
  "ttys0 = \<lparr>tt_fds = [0 \<mapsto> 7], tt_attr = (\<lambda>_. cooked), tt_mode = (\<lambda>_. 3), tt_graphics = (\<lambda>_. False), tt_maps = 0\<rparr>"

definition now0 :: tty_now where
  "now0 = \<lparr>n_console = None, n_kfd = 3, n_kdev = 7, n_mode = 3, n_attr = host_raw cooked, n_mfd = 4, n_mdev = 8, n_given = (\<lambda>i. 1),
    n_frame = None, n_ffd = 5, n_fdev = 9, n_fine = True\<rparr>"

lemma now0_inits: "fst (gui_init now0 (fst (enableRawMode cooked tty0))) = Returned 0"
  by (simp add: gui_init_def now0_def open_keyboard_def open_mouse_def open_screen_def Let_def tty0_def enableRawMode_def)


end
