(* ===== verification/Spec2Isabelle.thy ===== *)
theory Spec2Isabelle
  imports Vp64_Props Audio Net Fb_Events Host Sdl_Events Gpu_Mesh Sdl_World Pii_Windows Terminals
begin

text \<open>
  The host of ChrysaLisp: a verification development for the C++ sources under
  \<^verbatim>\<open>src/src/host/\<close>.

  A node of ChrysaLisp is a boot image, code of a virtual machine that the program itself assembled, and a
  host, the C++ program that runs it. \<^verbatim>\<open>main.cpp\<close> maps the image, makes its pages code or hands it to the
  emulator \<^verbatim>\<open>vp64.cpp\<close>, and gives it four tables of functions: of the system (\<^verbatim>\<open>pii_linux.cpp\<close> and its
  counterparts), of the network (\<^verbatim>\<open>net.cpp\<close>), of sound (\<^verbatim>\<open>audio_*.cpp\<close> over \<^verbatim>\<open>mixer.h\<close> and
  \<^verbatim>\<open>wav.h\<close>) and of a GUI (\<^verbatim>\<open>gui_*.cpp\<close>). The image calls the host through these tables only, and
  each function of them is called by one thread, that of the node. Three components start threads of
  their own: the network driver (a thread for each connect), the ALSA driver (a thread that feeds the device) and
  the SDL3 driver (a thread for each shader that is built).

  \<^bold>\<open>The parts and their theories.\<close>

  \<^item> Prelude holds the names of the machine types, the collections of rewrite rules and the generic lemmas.
  \<^item> Ieee is the arithmetic of \<^verbatim>\<open>float\<close> and \<^verbatim>\<open>double\<close> on bits, executable, NaNs included, and
    Ieee_Real relates it to the reals.
  \<^item> Vp64_Opcodes, Vp64_Memory, Vp64_Machine and Vp64_Exec are \<^verbatim>\<open>vp64.cpp\<close>: the enumeration \<^verbatim>\<open>Opcodes\<close>,
    memory and its accesses, the locals of \<^verbatim>\<open>vp64()\<close> as the record \<open>vm\<close> with one definition per macro
    (\<open>vp_add_cr\<close> and the like are instances of \<open>vp_alu_cr\<close>), and the switch \<open>exec\<close> with the loop \<open>vp64_run\<close>.
    Vp64_Emit is the assembler's side, \<^verbatim>\<open>lib/trans/vp64.inc\<close>. Vp64_Emit and Vp64_Props show that what the
    assembler writes is decoded and run as what was meant, what single instructions mean, and an invariant of the loop.
  \<^item> Mixer is \<^verbatim>\<open>mixer.h\<close>, Wav \<^verbatim>\<open>wav.h\<close>, Audio the drivers \<^verbatim>\<open>audio_alsa.cpp\<close>, \<^verbatim>\<open>audio_sdl3.cpp\<close>
    and \<^verbatim>\<open>audio_sdl.cpp\<close>. The lemmas show that each buffer of samples is held once, that the mixer reads only what is
    held, and that a file is read within its bounds.
  \<^item> Net is \<^verbatim>\<open>net.cpp\<close>. The operations and the single accesses of the workers are the steps of \<open>net_step\<close>; the
    invariant says who holds each socket.
  \<^item> Pixels, Boxes, Raster are \<^verbatim>\<open>gui_raw.cpp\<close>, drawing into memory; Framebuffer and Fb_Events are \<^verbatim>\<open>gui_fb.c\<close>. The
    lemmas say which pixels change and to what, and that the two drivers draw alike.
  \<^item> Walk and Pii are \<^verbatim>\<open>pii_linux.cpp\<close>, Walk_Windows and Pii_Windows \<^verbatim>\<open>pii_windows.cpp\<close>, with the clock of
    \<^verbatim>\<open>pii_darwin.cpp\<close>; that the walks and the nodes that are started are the same on both is shown there. Host is
    \<^verbatim>\<open>main.cpp\<close> with \<^verbatim>\<open>pii.h\<close> and the tables. Terminals is what \<^verbatim>\<open>main.cpp\<close> and \<^verbatim>\<open>gui_fb.c\<close> do to the
    terminals and devices they open, and that it is undone at the end.
  \<^item> Pointers, Event_Queue and Sdl_Events are \<^verbatim>\<open>gui_sdl3_event.h\<close> and \<^verbatim>\<open>gui_sdl2_event.h\<close>: the devices and contacts,
    what a poll promises, and the translation of an event.
  \<^item> Holders is about things that are handed out and held; with it Gpu_Flights (textures, fences and who may draw),
    Gpu_Shaders (shaders and the threads that build them), Gpu_Draw (a shader and a frame of triangles drawn) and
    Gpu_Mesh (meshes) are the GPU side of \<^verbatim>\<open>gui_sdl3.cpp\<close>.
  \<^item> Sdl_Window and Sdl_World are the rest of \<^verbatim>\<open>gui_sdl3.cpp\<close> and \<^verbatim>\<open>gui_sdl.cpp\<close>: the window drivers as the calls
    of SDL they make, and what lives in SDL under such calls.

  \<^bold>\<open>How state and operations correspond.\<close> The statics of a C++ file are a record of that component, an operation is a
  definition of the name the code has (with the prefix of its driver where two drivers name it alike) that takes the record
  and returns it changed. A pointer to a structure of a component is an index or a number; a byte address is a word of
  64 bits. An access outside a buffer, a use of what is not there, or a fault of the emulator is \<open>None\<close>, an error of a sum or
  a constructor of \<open>outcome\<close>, so that a theorem that says \<open>Some\<close> says there is none. What a call of the system, of SDL, of
  ALSA or of the GPU answers is an argument, named for it; what is asked of them is a list of calls, or a set of what they hold,
  in the result. \<^verbatim>\<open>expf\<close>, \<^verbatim>\<open>sqrt\<close> and the sign of a NaN are a parameter (\<open>libm\<close>, \<open>fpu\<close>).

  \<^bold>\<open>The interfaces.\<close> \<open>byte_store\<close> (Vp64_Memory) is what the emulator relies on of memory; \<open>sample_keeper\<close> and
  \<open>sample_taker\<close> (Mixer, Audio) what an audio driver relies on of the mixer; \<open>handle_table\<close> (Net) what the handles of
  the network promise; \<open>box_filler\<close> (Boxes) what an outline relies on of a filled box, given by both drawing drivers;
  \<open>event_queue\<close> (Event_Queue) what a poll promises, given by both SDL drivers; \<open>window_driver\<close> (Sdl_World) what a window driver
  keeps of each operation, given by both. Each is interpreted on the model's own definitions.

  \<^bold>\<open>Integers, loops and bounds.\<close> Unsigned integers are words, signed ones are integers cut back to their width where the code may
  leave it (a sum that does not fit wraps round, as the hosts do, though C++ leaves it open). Loops are structural
  recursions or functions with a measure: the walk of directories, no deeper than 64, ends by the multiset of what is left of each
  level; the chunks of a wav file by the place in the file, up to 4 GiB, past which there is a file whose walk does not
  end, so \<open>wav_scan\<close> is a partial function; the emulator's loop has no end of its own, so a run is a number of steps, and a
  theorem says how many are enough. The loop over a frame of triangles is on the count the frame says; a thread of the network takes at most
  a number of steps that is shown.

  \<^bold>\<open>Threads.\<close> A worker of the network is a sequence of single accesses to its slot, and a call of the driver, short as it
  is, one step between them; the thread that builds a shader is three steps (make, swap, leave) between the calls. The mixer is held by
  a lock, so a mix is one step.

  \<^bold>\<open>Not modelled.\<close> The rest of \<^verbatim>\<open>pii_darwin.cpp\<close> is the text of \<^verbatim>\<open>pii_linux.cpp\<close>, line for line, but for the
  flush of the instruction cache. Calls for a Mac alone, the clipboard, which is handed on, the
  console of Windows, and what is drawn by SDL or by the GPU are input and output of libraries. The Lisp and VP sources that
  are run on the host are not in its language; what host and emulator rely on of them, the encoding of instructions and the
  tables of methods, is in Vp64_Emit and Host.
\<close>

end
